(* ===== verification/Go_Prelude.thy ===== *)
theory Go_Prelude
  imports Main "HOL-Library.Word" "HOL-Library.AList" "HOL-Library.Multiset"
    "HOL-Library.List_Lexorder"
begin

text \<open>
  What the components share: Go's byte slices and \<open>copy\<close>, Go maps as association
  lists with distinct keys, the unspecified iteration order of \<open>range\<close> over a map,
  counters of a fixed width, and the generic notion of a transition system with an
  inductive invariant.

  A Go map is a list of key/value pairs (\<open>AList.update\<close> stores, \<open>map_of\<close> looks
  up, \<open>AList.delete\<close> deletes); \<open>len\<close> is \<open>length\<close>, which is right as long as
  the keys are distinct (\<open>gomap_ok\<close>), an invariant every operation keeps.  The order of
  the list carries no meaning: where the source ranges over a map and the order can be
  observed, the definition takes the order as an argument, a function \<open>it\<close> that
  permutes the entries (\<open>iteration it\<close>), and a property then holds for every such
  order.
\<close>

named_theorems gomap_simps \<open>lookups, keys and lengths of Go maps after an update\<close>
named_theorems counter_simps \<open>machine counters read as natural numbers\<close>

section \<open>Bytes, strings, slices\<close>

type_synonym byte = "8 word"
type_synonym u16 = "16 word"
type_synonym u32 = "32 word"
type_synonym u64 = "64 word"

text \<open>\<open>str\<close> is Go's conversion \<open>[]byte(s)\<close> of a string.\<close>

definition str :: "string \<Rightarrow> byte list" where
  "str s = map of_char s"

lemma length_str [simp]: "length (str s) = length s"
  by (simp add: str_def)

lemma str_append [simp]: "str (s @ t) = str s @ str t"
  by (simp add: str_def)

text \<open>
  \<open>copy(dst, src)\<close> overwrites the first \<open>min (len dst) (len src)\<close> elements of
  \<open>dst\<close>.
\<close>

definition go_copy :: "'a list \<Rightarrow> 'a list \<Rightarrow> 'a list" where
  "go_copy dst src = take (length dst) src @ drop (length src) dst"

lemma length_go_copy [simp]: "length (go_copy dst src) = length dst"
  by (simp add: go_copy_def)

lemma go_copy_full: "length src = length dst \<Longrightarrow> go_copy dst src = src"
  by (simp add: go_copy_def)

section \<open>Outcomes\<close>

text \<open>A call returns normally, returns an error, or panics.\<close>

datatype ('e, 'a) outcome = Ok 'a | Err 'e | Panic

section \<open>Go maps\<close>

type_synonym ('k, 'v) gomap = "('k \<times> 'v) list"

definition gomap_ok :: "('k, 'v) gomap \<Rightarrow> bool" where
  "gomap_ok m \<longleftrightarrow> distinct (map fst m)"

lemma gomap_ok_Nil [simp, intro]: "gomap_ok []"
  by (simp add: gomap_ok_def)

lemma gomap_ok_single [simp, intro]: "gomap_ok [p]"
  by (simp add: gomap_ok_def)

lemma gomap_ok_update [simp, intro]: "gomap_ok m \<Longrightarrow> gomap_ok (AList.update k v m)"
  by (simp add: gomap_ok_def distinct_update)

lemma gomap_ok_delete [simp, intro]: "gomap_ok m \<Longrightarrow> gomap_ok (AList.delete k m)"
  by (simp add: gomap_ok_def distinct_delete)

lemma map_of_update [simp, gomap_simps]:
  "map_of (AList.update k v m) = (map_of m)(k \<mapsto> v)"
  by (rule update_conv')

lemma map_of_delete [simp, gomap_simps]:
  "map_of (AList.delete k m) = (map_of m)(k := None)"
  by (rule delete_conv')

lemma map_of_in_iff: "gomap_ok m \<Longrightarrow> map_of m k = Some v \<longleftrightarrow> (k, v) \<in> set m"
  by (simp add: gomap_ok_def)

lemma set_gomap_update: "gomap_ok m \<Longrightarrow>
    set (AList.update k v m) = insert (k, v) {p \<in> set m. fst p \<noteq> k}"
proof -
  assume ok: "gomap_ok m"
  have "(a, b) \<in> set (AList.update k v m) \<longleftrightarrow> (a, b) \<in> insert (k, v) {p \<in> set m. fst p \<noteq> k}"
    for a b
    using map_of_in_iff [OF gomap_ok_update [OF ok], of k v a b] map_of_in_iff [OF ok, of a b]
    by (auto split: if_splits)
  then show ?thesis by (metis (no_types, lifting) set_eqI surj_pair)
qed

lemma map_of_None_iff: "map_of m k = None \<longleftrightarrow> k \<notin> fst ` set m"
  by (rule map_of_eq_None_iff)

lemma length_update_fresh [gomap_simps]:
  "map_of m k = None \<Longrightarrow> length (AList.update k v m) = Suc (length m)"
  by (induction m) (auto split: if_splits)

lemma length_update_present [gomap_simps]:
  "map_of m k = Some w \<Longrightarrow> length (AList.update k v m) = length m"
  by (induction m) (auto split: if_splits)

lemma length_update_ge: "length m \<le> length (AList.update k v m)"
  by (induction m) auto

lemma list_ex_update:
  "map_of m k = Some w \<Longrightarrow> (Q (k, w) \<Longrightarrow> Q (k, v)) \<Longrightarrow>
     list_ex Q (AList.update k v m) \<longleftrightarrow> Q (k, v) \<or> list_ex Q m"
  by (induction m) (auto split: if_splits)

lemma list_ex_update_fresh:
  "map_of m k = None \<Longrightarrow> list_ex Q (AList.update k v m) \<longleftrightarrow> Q (k, v) \<or> list_ex Q m"
  by (induction m) (auto split: if_splits)

lemma update_update_same: "AList.update k w (AList.update k v m) = AList.update k w m"
  by (induction m) auto

lemma gomap_ok_fst_unique:
  "gomap_ok m \<Longrightarrow> (k, v) \<in> set m \<Longrightarrow> (k, w) \<in> set m \<Longrightarrow> v = w"
  by (simp add: gomap_ok_def eq_key_imp_eq_value)

text \<open>An iteration order: every entry once, in some order.\<close>

definition iteration :: "('a list \<Rightarrow> 'a list) \<Rightarrow> bool" where
  "iteration it \<longleftrightarrow> (\<forall>m. mset (it m) = mset m)"

lemma iteration_set: "iteration it \<Longrightarrow> set (it m) = set m"
  by (metis iteration_def set_mset_mset)

lemma iteration_length: "iteration it \<Longrightarrow> length (it m) = length m"
  by (metis iteration_def size_mset)

lemma iteration_Nil: "iteration it \<Longrightarrow> it [] = []"
  by (metis iteration_length length_0_conv)

lemma iteration_id [simp, intro]: "iteration (\<lambda>m. m)"
  by (simp add: iteration_def)

lemma iteration_rev [simp, intro]: "iteration rev"
  by (simp add: iteration_def)

section \<open>Counters of a fixed width\<close>

lemma inj_on_pair: "f a \<noteq> f b \<Longrightarrow> inj_on f {a, b}"
  by (auto simp: inj_on_def)

lemma unat_Suc_no_wrap [counter_simps]:
  "unat (w :: 'a :: len word) + 1 < 2 ^ LENGTH('a) \<Longrightarrow> unat (w + 1) = unat w + 1"
  by (simp add: unat_word_ariths)

lemma max_word_plus_1: "(- 1 :: 'a :: len word) + 1 = 0"
  by simp

lemma unat_le_iff: "x \<le> y \<longleftrightarrow> unat x \<le> unat (y :: 'a :: len word)"
  by (rule word_le_nat_alt)

lemma unat_less_iff: "x < y \<longleftrightarrow> unat x < unat (y :: 'a :: len word)"
  by (rule word_less_nat_alt)

lemma unat_lt2p: "unat (w :: 'a :: len word) < 2 ^ LENGTH('a)"
  by (rule unsigned_less)

lemma of_nat_of_unat: "unat w = n \<Longrightarrow> of_nat n = (w :: 'a :: len word)"
  by auto

lemma unat_of_nat64: "n < 2 ^ 64 \<Longrightarrow> unat (of_nat n :: u64) = n"
  by (simp add: unat_of_nat)

lemma unat_Suc [counter_simps]: "w \<noteq> - 1 \<Longrightarrow> unat (w + 1 :: 'a :: len word) = unat w + 1"
  by (metis Suc_eq_plus1 add.commute add_eq_0_iff unatSuc)

lemma word_le_Suc: "w \<noteq> - 1 \<Longrightarrow> w \<le> (w + 1 :: 'a :: len word)"
  by (simp add: unat_le_iff unat_Suc)

lemma unat_max64: "unat (- 1 :: u64) = 2 ^ 64 - 1"
  by (simp add: unsigned_minus_1_eq_mask mask_eq_exp_minus_1)

section \<open>Transition systems\<close>

text \<open>
  The states a system can reach, for any start predicate and step relation, and the
  interface an invariant has to meet: it holds at the start and every step keeps it.
\<close>

inductive reach :: "('s \<Rightarrow> bool) \<Rightarrow> ('s \<Rightarrow> 's \<Rightarrow> bool) \<Rightarrow> 's \<Rightarrow> bool"
  for init :: "'s \<Rightarrow> bool" and step :: "'s \<Rightarrow> 's \<Rightarrow> bool" where
  reach_init: "init s \<Longrightarrow> reach init step s"
| reach_step: "reach init step s \<Longrightarrow> step s t \<Longrightarrow> reach init step t"

locale inductive_invariant =
  fixes init :: "'s \<Rightarrow> bool" and step :: "'s \<Rightarrow> 's \<Rightarrow> bool" and inv :: "'s \<Rightarrow> bool"
  assumes init_inv: "init s \<Longrightarrow> inv s"
    and step_inv: "inv s \<Longrightarrow> step s t \<Longrightarrow> inv t"
begin

lemma reach_inv: "reach init step s \<Longrightarrow> inv s"
  by (induction rule: reach.induct) (auto intro: init_inv step_inv)

lemma steps_inv: "step\<^sup>*\<^sup>* s t \<Longrightarrow> inv s \<Longrightarrow> inv t"
  by (induction rule: rtranclp_induct) (auto intro: step_inv)

end

lemma reach_steps: "reach init step s \<Longrightarrow> step\<^sup>*\<^sup>* s t \<Longrightarrow> reach init step t"
  by (rotate_tac, induction rule: rtranclp_induct) (auto intro: reach_step)

text \<open>A system that can always come to an end: some step lowers a measure until it has.\<close>

locale can_finish = inductive_invariant init step inv
  for init :: "'s \<Rightarrow> bool" and step :: "'s \<Rightarrow> 's \<Rightarrow> bool" and inv :: "'s \<Rightarrow> bool" +
  fixes fin :: "'s \<Rightarrow> bool" and todo :: "'s \<Rightarrow> nat"
  assumes progress: "inv s \<Longrightarrow> \<not> fin s \<Longrightarrow> \<exists>t. step s t \<and> todo t < todo s"
begin

lemma inv_finishes: "inv s \<Longrightarrow> \<exists>t. step\<^sup>*\<^sup>* s t \<and> fin t"
proof (induction "todo s" arbitrary: s rule: less_induct)
  case less
  show ?case
  proof (cases "fin s")
    case False
    then obtain t where t: "step s t" "todo t < todo s" using progress less.prems by blast
    then show ?thesis using less.hyps [OF t(2)] step_inv [OF less.prems t(1)] by (meson converse_rtranclp_into_rtranclp)
  qed blast
qed

lemma reach_finishes: "reach init step s \<Longrightarrow> \<exists>t. step\<^sup>*\<^sup>* s t \<and> fin t"
  by (intro inv_finishes reach_inv)

end

text \<open>Runs of a deterministic operation over a list of inputs.\<close>

fun run_ops :: "('s \<Rightarrow> 'o \<Rightarrow> 's) \<Rightarrow> 's \<Rightarrow> 'o list \<Rightarrow> 's" where
  "run_ops f s [] = s"
| "run_ops f s (x # xs) = run_ops f (f s x) xs"

lemma run_ops_append [simp]: "run_ops f s (xs @ ys) = run_ops f (run_ops f s xs) ys"
  by (induction xs arbitrary: s) auto

lemma run_ops_invariant:
  "(\<And>s x. P s \<Longrightarrow> P (f s x)) \<Longrightarrow> P s \<Longrightarrow> P (run_ops f s xs)"
  by (induction xs arbitrary: s) auto

text \<open>Equal contents.\<close>

lemma option_eq_by_Some: "(\<And>v. a = Some v \<longleftrightarrow> b = Some v) \<Longrightarrow> a = b"
  by (cases a; cases b) auto

lemma mset_concat_map:
  "(\<And>x. x \<in> set xs \<Longrightarrow> mset (f x) = mset (f' x)) \<Longrightarrow> mset (concat (map f xs)) = mset (concat (map f' xs))"
  by (induction xs) auto

lemma map_concat_map:
  "(\<And>x. x \<in> set xs \<Longrightarrow> map h (f x) = map h (f' x)) \<Longrightarrow> map h (concat (map f xs)) = map h (concat (map f' xs))"
  by (induction xs) auto

lemma gomap_mset_eq:
  assumes "gomap_ok m" and "gomap_ok m'" and "map_of m = map_of m'"
  shows "mset m = mset m'"
proof -
  have "set m = set m'"
    using assms by (auto simp: map_of_in_iff [symmetric])
  moreover have "distinct m" "distinct m'"
    using assms by (auto simp: gomap_ok_def distinct_map)
  ultimately show ?thesis by (simp add: set_eq_iff_mset_eq_distinct)
qed

end
