(* ===== verification/Go_Encoding.thy ===== *)
theory Go_Encoding
  imports Go_Prelude
begin

text \<open>
  The encodings of Go's standard library the program uses: big-endian integers
  (encoding/binary), hexadecimal (encoding/hex) and standard base64 (encoding/base64), each
  as an encoder, a decoder and an interpretation of the interface \<open>codec\<close> (what is
  encoded is decoded again).  A codec that finds its own end in a longer input is a
  \<open>stream_codec\<close>; every fixed-width codec is one.
\<close>

section \<open>Interfaces\<close>

locale codec =
  fixes enc :: "'a \<Rightarrow> 'b list" and dec :: "'b list \<Rightarrow> 'a option" and ok :: "'a \<Rightarrow> bool"
  assumes dec_enc: "ok x \<Longrightarrow> dec (enc x) = Some x"
begin

lemma enc_eq_iff: "ok x \<Longrightarrow> ok y \<Longrightarrow> enc x = enc y \<longleftrightarrow> x = y"
  by (metis dec_enc option.inject)

lemma enc_inj_on: "inj_on enc {x. ok x}"
  by (simp add: inj_on_def enc_eq_iff)

lemma dec_enc_map: "list_all ok xs \<Longrightarrow> those (map (dec \<circ> enc) xs) = Some xs"
  by (induction xs) (auto simp: dec_enc)

end

locale stream_codec =
  fixes put :: "'a \<Rightarrow> 'b list" and get :: "'b list \<Rightarrow> ('a \<times> 'b list) option"
    and ok :: "'a \<Rightarrow> bool"
  assumes get_put: "ok x \<Longrightarrow> get (put x @ rest) = Some (x, rest)"
begin

lemma put_prefix_free:
  "ok x \<Longrightarrow> ok y \<Longrightarrow> put x @ r = put y @ s \<Longrightarrow> x = y \<and> r = s"
  by (metis get_put option.inject prod.inject)

lemma get_put_exact: "ok x \<Longrightarrow> get (put x) = Some (x, [])"
  using get_put [of x "[]"] by simp

end

sublocale stream_codec \<subseteq> whole: codec put "\<lambda>bs. map_option fst (get bs)" ok
  by unfold_locales (simp add: get_put_exact)

locale fixed_codec = codec +
  fixes width :: nat
  assumes width_enc: "ok x \<Longrightarrow> length (enc x) = width"

sublocale fixed_codec \<subseteq> stream: stream_codec enc
    "\<lambda>bs. if length bs < width then None
          else map_option (\<lambda>x. (x, drop width bs)) (dec (take width bs))" ok
  by unfold_locales (simp add: width_enc dec_enc)

section \<open>Big-endian integers\<close>

primrec be_bytes :: "nat \<Rightarrow> nat \<Rightarrow> byte list" where
  "be_bytes 0 x = []"
| "be_bytes (Suc n) x = be_bytes n (x div 256) @ [of_nat (x mod 256)]"

definition be_val :: "byte list \<Rightarrow> nat" where
  "be_val bs = foldl (\<lambda>a b. a * 256 + unat b) 0 bs"

lemma length_be_bytes [simp]: "length (be_bytes n x) = n"
  by (induction n arbitrary: x) auto

lemma be_val_snoc: "be_val (bs @ [b]) = be_val bs * 256 + unat b"
  by (simp add: be_val_def)

lemma unat_byte_of_nat: "unat (of_nat (x mod 256) :: byte) = x mod 256"
  by (simp add: unat_of_nat)

lemma be_val_be_bytes: "be_val (be_bytes n x) = x mod 256 ^ n"
proof (induction n arbitrary: x)
  case 0
  show ?case by (simp add: be_val_def)
next
  case (Suc n)
  have "be_val (be_bytes (Suc n) x) = (x div 256) mod 256 ^ n * 256 + x mod 256"
    by (simp add: be_val_snoc Suc.IH unat_byte_of_nat)
  also have "\<dots> = x mod (256 * 256 ^ n)"
    by (simp add: mod_mult2_eq)
  finally show ?case by simp
qed

lemma be_val_bound: "be_val bs < 256 ^ length bs"
proof (induction bs rule: rev_induct)
  case Nil
  show ?case by (simp add: be_val_def)
next
  case (snoc b bs)
  have "unat b < 256" using unat_lt2p [of b] by simp
  with snoc have "be_val bs * 256 + unat b < (be_val bs + 1) * 256" by simp
  also have "\<dots> \<le> 256 ^ length bs * 256" using snoc by (intro mult_right_mono) auto
  finally show ?case by (simp add: be_val_snoc mult.commute)
qed

lemma be_bytes_0: "be_bytes n 0 = replicate n 0"
  by (induction n) (simp_all add: replicate_append_same)

definition put_u32 :: "u32 \<Rightarrow> byte list" where
  "put_u32 w = be_bytes 4 (unat w)"

definition get_u32 :: "byte list \<Rightarrow> u32" where
  "get_u32 bs = of_nat (be_val bs)"

definition put_u64 :: "u64 \<Rightarrow> byte list" where
  "put_u64 w = be_bytes 8 (unat w)"

definition get_u64 :: "byte list \<Rightarrow> u64" where
  "get_u64 bs = of_nat (be_val bs)"

lemma length_put_u32 [simp]: "length (put_u32 w) = 4"
  by (simp add: put_u32_def)

lemma length_put_u64 [simp]: "length (put_u64 w) = 8"
  by (simp add: put_u64_def)

lemma get_put_u32 [simp]: "get_u32 (put_u32 w) = w"
proof -
  have "unat w < 256 ^ 4" using unat_lt2p [of w] by simp
  then show ?thesis by (simp add: get_u32_def put_u32_def be_val_be_bytes)
qed

lemma get_put_u64 [simp]: "get_u64 (put_u64 w) = w"
proof -
  have "unat w < 256 ^ 8" using unat_lt2p [of w] by simp
  then show ?thesis by (simp add: get_u64_def put_u64_def be_val_be_bytes)
qed

lemma unat_get_u32: "length bs = 4 \<Longrightarrow> unat (get_u32 bs) = be_val bs"
  using be_val_bound [of bs] by (simp add: get_u32_def unat_of_nat)

interpretation be32: fixed_codec put_u32 "\<lambda>bs. Some (get_u32 bs)" "\<lambda>_. True" 4
  by unfold_locales auto

interpretation be64: fixed_codec put_u64 "\<lambda>bs. Some (get_u64 bs)" "\<lambda>_. True" 8
  by unfold_locales auto

lemmas put_u32_eq [simp] = be32.enc_eq_iff [OF TrueI TrueI]
lemmas put_u64_eq [simp] = be64.enc_eq_iff [OF TrueI TrueI]

text \<open>Records of one fixed width can be told apart in their concatenation.\<close>

lemma concat_fixed_width:
  assumes "\<And>x. x \<in> set xs \<Longrightarrow> length x = n" and "\<And>y. y \<in> set ys \<Longrightarrow> length y = n"
    and "0 < n"
  shows "concat xs = concat ys \<longleftrightarrow> xs = ys"
proof
  show "xs = ys" if "concat xs = concat ys"
    using that assms
  proof (induction xs arbitrary: ys)
    case Nil
    then show ?case by (cases ys) auto
  next
    case (Cons x xs)
    then obtain y zs where ys: "ys = y # zs" by (cases ys) auto
    then have "length x = length y" using Cons.prems by simp
    then have "x = y" and "concat xs = concat zs" using Cons.prems(1) ys by auto
    moreover have "xs = zs"
      using Cons.prems ys calculation(2) by (intro Cons.IH) auto
    ultimately show ?case by (simp add: ys)
  qed
qed simp

section \<open>Decimal numbers\<close>

text \<open>\<open>strconv.FormatUint\<close>, the verb \<open>%d\<close>, and the value of a digit string.\<close>

fun dec_digits :: "nat \<Rightarrow> byte list" where
  "dec_digits n =
     (if n < 10 then [of_nat (n + 48)] else dec_digits (n div 10) @ [of_nat (n mod 10 + 48)])"

declare dec_digits.simps [simp del]

definition is_digit :: "byte \<Rightarrow> bool" where
  "is_digit c \<longleftrightarrow> 48 \<le> c \<and> c \<le> 57"

definition dec_val :: "byte list \<Rightarrow> nat" where
  "dec_val ds = foldl (\<lambda>a c. a * 10 + (unat c - 48)) 0 ds"

lemma digit_table:
  "\<forall>n\<in>{..<10}. is_digit (of_nat (n + 48)) \<and> unat (of_nat (n + 48) :: byte) = n + 48"
  by code_simp

lemma digit_simps:
  "n < 10 \<Longrightarrow> is_digit (of_nat (n + 48))"
  "n < 10 \<Longrightarrow> unat (of_nat (n + 48) :: byte) = n + 48"
  using digit_table by auto

lemma dec_val_snoc: "dec_val (ds @ [c]) = dec_val ds * 10 + (unat c - 48)"
  by (simp add: dec_val_def)

lemma dec_val_digits [simp]: "dec_val (dec_digits n) = n"
proof (induction n rule: dec_digits.induct)
  case (1 n)
  show ?case
  proof (cases "n < 10")
    case True
    then show ?thesis
      using digit_simps(2) [of n] by (simp add: dec_digits.simps [of n] dec_val_def)
  next
    case False
    then show ?thesis
      using 1 digit_simps(2) [of "n mod 10"]
      by (simp add: dec_digits.simps [of n] dec_val_snoc)
  qed
qed

lemma dec_digits_all: "c \<in> set (dec_digits n) \<Longrightarrow> is_digit c"
proof (induction n rule: dec_digits.induct)
  case (1 n)
  show ?case
  proof (cases "n < 10")
    case True
    then show ?thesis
      using 1(2) digit_simps(1) [of n] by (simp add: dec_digits.simps [of n])
  next
    case False
    then show ?thesis
      using 1 digit_simps(1) [of "n mod 10"] by (auto simp: dec_digits.simps [of n])
  qed
qed

lemma dec_digits_nonempty [simp]: "dec_digits n \<noteq> []"
  by (subst dec_digits.simps) simp

interpretation decimal: codec dec_digits "\<lambda>ds. Some (dec_val ds)" "\<lambda>_. True"
  by unfold_locales simp

section \<open>Hexadecimal\<close>

datatype hex_error = InvalidByteError byte | ErrLength

definition hex_digit :: "nat \<Rightarrow> byte" where
  "hex_digit n = (if n < 10 then of_nat (n + 48) else of_nat (n + 87))"

definition from_hex_char :: "byte \<Rightarrow> nat option" where
  "from_hex_char c =
     (let n = unat c in
      if 48 \<le> n \<and> n \<le> 57 then Some (n - 48)
      else if 97 \<le> n \<and> n \<le> 102 then Some (n - 87)
      else if 65 \<le> n \<and> n \<le> 70 then Some (n - 55)
      else None)"

fun hex_encode :: "byte list \<Rightarrow> byte list" where
  "hex_encode [] = []"
| "hex_encode (b # bs) = hex_digit (unat b div 16) # hex_digit (unat b mod 16) # hex_encode bs"

fun hex_decode :: "byte list \<Rightarrow> hex_error + byte list" where
  "hex_decode [] = Inr []"
| "hex_decode [p] = (case from_hex_char p of None \<Rightarrow> Inl (InvalidByteError p) | Some _ \<Rightarrow> Inl ErrLength)"
| "hex_decode (p # q # rest) =
     (case from_hex_char p of
        None \<Rightarrow> Inl (InvalidByteError p)
      | Some a \<Rightarrow>
          (case from_hex_char q of
             None \<Rightarrow> Inl (InvalidByteError q)
           | Some b \<Rightarrow>
               (case hex_decode rest of
                  Inl e \<Rightarrow> Inl e
                | Inr bs \<Rightarrow> Inr (of_nat (a * 16 + b) # bs))))"

lemma hex_digit_table: "\<forall>n\<in>{..<16}. from_hex_char (hex_digit n) = Some n"
  by code_simp

lemma from_hex_digit: "n < 16 \<Longrightarrow> from_hex_char (hex_digit n) = Some n"
  using hex_digit_table by auto

lemma length_hex_encode [simp]: "length (hex_encode bs) = 2 * length bs"
  by (induction bs) auto

lemma hex_encode_append: "hex_encode (xs @ ys) = hex_encode xs @ hex_encode ys"
  by (induction xs) auto

lemma hex_decode_encode [simp]: "hex_decode (hex_encode bs) = Inr bs"
proof (induction bs)
  case Nil
  show ?case by simp
next
  case (Cons b bs)
  have "unat b < 256" using unat_lt2p [of b] by simp
  then have "unat b div 16 < 16" and "unat b mod 16 < 16" by auto
  moreover have "unat b div 16 * 16 + unat b mod 16 = unat b" by simp
  ultimately show ?case
    using Cons by (simp add: from_hex_digit del: of_nat_add of_nat_mult)
qed

interpretation hex: codec hex_encode "\<lambda>bs. case hex_decode bs of Inl _ \<Rightarrow> None | Inr x \<Rightarrow> Some x"
    "\<lambda>_. True"
  by unfold_locales simp

section \<open>Base64 (standard alphabet, with padding)\<close>

abbreviation b64_pad :: byte where
  "b64_pad \<equiv> 61"

definition b64_char :: "nat \<Rightarrow> byte" where
  "b64_char n =
     (if n < 26 then of_nat (n + 65) else if n < 52 then of_nat (n + 71)
      else if n < 62 then of_nat (n - 4) else if n = 62 then 43 else 47)"

definition b64_val :: "byte \<Rightarrow> nat option" where
  "b64_val c =
     (let n = unat c in
      if 65 \<le> n \<and> n \<le> 90 then Some (n - 65)
      else if 97 \<le> n \<and> n \<le> 122 then Some (n - 71)
      else if 48 \<le> n \<and> n \<le> 57 then Some (n + 4)
      else if n = 43 then Some 62
      else if n = 47 then Some 63
      else None)"

fun b64_encode :: "byte list \<Rightarrow> byte list" where
  "b64_encode [] = []"
| "b64_encode [a] =
     [b64_char (unat a div 4), b64_char (unat a mod 4 * 16), b64_pad, b64_pad]"
| "b64_encode [a, b] =
     [b64_char (unat a div 4), b64_char (unat a mod 4 * 16 + unat b div 16),
      b64_char (unat b mod 16 * 4), b64_pad]"
| "b64_encode (a # b # c # rest) =
     b64_char (unat a div 4) # b64_char (unat a mod 4 * 16 + unat b div 16)
     # b64_char (unat b mod 16 * 4 + unat c div 64) # b64_char (unat c mod 64)
     # b64_encode rest"

text \<open>
  The decoder ignores carriage returns and newlines wherever they stand, wants groups of
  four characters with padding in the last group only, and (not being in strict mode)
  ignores the unused low bits of a padded group.
\<close>

definition b64_byte1 :: "nat \<Rightarrow> nat \<Rightarrow> byte" where
  "b64_byte1 p q = of_nat (p * 4 + q div 16)"

definition b64_byte2 :: "nat \<Rightarrow> nat \<Rightarrow> byte" where
  "b64_byte2 q r = of_nat (q mod 16 * 16 + r div 4)"

definition b64_byte3 :: "nat \<Rightarrow> nat \<Rightarrow> byte" where
  "b64_byte3 r s = of_nat (r mod 4 * 64 + s)"

fun b64_quads :: "byte list \<Rightarrow> byte list option" where
  "b64_quads [] = Some []"
| "b64_quads (a # b # c # d # rest) =
     (case (b64_val a, b64_val b) of
        (Some p, Some q) \<Rightarrow>
          (if c = b64_pad then
             (if d = b64_pad \<and> rest = [] then Some [b64_byte1 p q] else None)
           else
             (case b64_val c of
                None \<Rightarrow> None
              | Some r \<Rightarrow>
                  (if d = b64_pad then
                     (if rest = [] then Some [b64_byte1 p q, b64_byte2 q r] else None)
                   else
                     (case b64_val d of
                        None \<Rightarrow> None
                      | Some s \<Rightarrow>
                          map_option (\<lambda>bs. b64_byte1 p q # b64_byte2 q r # b64_byte3 r s # bs)
                            (b64_quads rest)))))
      | _ \<Rightarrow> None)"
| "b64_quads _ = None"

definition b64_decode :: "byte list \<Rightarrow> byte list option" where
  "b64_decode bs = b64_quads (filter (\<lambda>c. c \<noteq> 10 \<and> c \<noteq> 13) bs)"

lemma b64_char_table:
  "\<forall>n\<in>{..<64}. b64_val (b64_char n) = Some n \<and> b64_char n \<noteq> b64_pad
      \<and> b64_char n \<noteq> 10 \<and> b64_char n \<noteq> 13 \<and> b64_char n \<noteq> 34 \<and> b64_char n \<noteq> 92
      \<and> 32 \<le> b64_char n \<and> b64_char n < 128"
  by code_simp

lemma b64_char_simps [simp]:
  assumes "n < 64"
  shows "b64_val (b64_char n) = Some n" and "b64_char n \<noteq> b64_pad"
    and "b64_char n \<noteq> 10" and "b64_char n \<noteq> 13" and "b64_char n \<noteq> 34" and "b64_char n \<noteq> 92"
    and "32 \<le> b64_char n" and "b64_char n < 128"
  using b64_char_table assms by auto

lemma byte_parts:
  fixes x y :: nat
  assumes "x < 256"
  shows "x div 4 < 64" "x div 16 < 16" "x div 64 < 4" "x mod 4 < 4" "x mod 16 < 16" "x mod 64 < 64"
  using assms by auto

lemma unat_byte_lt [simp]: "unat (b :: byte) < 256"
  using unat_lt2p [of b] by simp

lemma unat_byte_bounds [simp]:
  "unat (b :: byte) div 4 < 64" "unat b mod 4 * 16 < 64" "unat b mod 64 < 64"
  "unat b mod 16 * 4 < 64"
  "unat (a :: byte) mod 4 * 16 + unat b div 16 < 64" "unat a mod 16 * 4 + unat b div 64 < 64"
  using byte_parts [OF unat_byte_lt [of a]] byte_parts [OF unat_byte_lt [of b]] by linarith+

lemma digit_div_mod:
  "(y :: nat) < k \<Longrightarrow> (x * k + y) div k = x"
  "(y :: nat) < k \<Longrightarrow> (x * k + y) mod k = y"
  by auto

lemma b64_bytes [simp]:
  "b64_byte1 (unat a div 4) (unat a mod 4 * 16) = a"
  "b64_byte1 (unat a div 4) (unat a mod 4 * 16 + unat b div 16) = a"
  "b64_byte2 (unat a mod 4 * 16 + unat b div 16) (unat b mod 16 * 4) = b"
  "b64_byte2 (unat a mod 4 * 16 + unat b div 16) (unat b mod 16 * 4 + unat c div 64) = b"
  "b64_byte3 (unat b mod 16 * 4 + unat c div 64) (unat c mod 64) = c"
proof -
  note B = byte_parts [OF unat_byte_lt [of b]] and C = byte_parts [OF unat_byte_lt [of c]]
  have eqs: "(unat b mod 16 * 4 + unat c div 64) mod 4 * 64 + unat c mod 64 = unat c"
    "(unat a mod 4 * 16 + unat b div 16) mod 16 * 16
         + (unat b mod 16 * 4 + unat c div 64) div 4 = unat b"
    "(unat a mod 4 * 16 + unat b div 16) mod 16 * 16 + unat b mod 16 * 4 div 4 = unat b"
    "unat a div 4 * 4 + (unat a mod 4 * 16 + unat b div 16) div 16 = unat a"
    "unat a div 4 * 4 + unat a mod 4 * 16 div 16 = unat a"
    using B C by (simp_all only: digit_div_mod div_mult_mod_eq) simp_all
  show "b64_byte1 (unat a div 4) (unat a mod 4 * 16) = a"
    "b64_byte1 (unat a div 4) (unat a mod 4 * 16 + unat b div 16) = a"
    "b64_byte2 (unat a mod 4 * 16 + unat b div 16) (unat b mod 16 * 4) = b"
    "b64_byte2 (unat a mod 4 * 16 + unat b div 16) (unat b mod 16 * 4 + unat c div 64) = b"
    "b64_byte3 (unat b mod 16 * 4 + unat c div 64) (unat c mod 64) = c"
    unfolding b64_byte1_def b64_byte2_def b64_byte3_def
    by (simp_all only: eqs of_nat_of_unat [OF refl])
qed

lemma b64_encode_chars:
  "c \<in> set (b64_encode bs) \<Longrightarrow> c \<noteq> 10 \<and> c \<noteq> 13 \<and> c \<noteq> 34 \<and> c \<noteq> 92 \<and> 32 \<le> c \<and> c < 128"
  by (induction bs rule: b64_encode.induct) auto

lemma b64_quads_encode: "b64_quads (b64_encode bs) = Some bs"
  by (induction bs rule: b64_encode.induct) auto

lemma b64_decode_encode [simp]: "b64_decode (b64_encode bs) = Some bs"
proof -
  have "filter (\<lambda>c. c \<noteq> 10 \<and> c \<noteq> 13) (b64_encode bs) = b64_encode bs"
    using b64_encode_chars by (simp add: filter_id_conv)
  then show ?thesis by (simp add: b64_decode_def b64_quads_encode)
qed

interpretation b64: codec b64_encode b64_decode "\<lambda>_. True"
  by unfold_locales simp

lemma length_dec_digits: "n < 10 ^ k \<Longrightarrow> 0 < k \<Longrightarrow> length (dec_digits n) \<le> k"
proof (induction k arbitrary: n)
  case (Suc k)
  show ?case
  proof (cases "n < 10")
    case True
    then show ?thesis by (simp add: dec_digits.simps)
  next
    case False
    then have "k \<noteq> 0" using Suc.prems(1) by (cases k) auto
    moreover have "n div 10 < 10 ^ k" using Suc.prems(1) by (simp add: div_less_iff_less_mult mult.commute)
    ultimately have "length (dec_digits (n div 10)) \<le> k" using Suc.IH by simp
    then show ?thesis using False by (subst dec_digits.simps) simp
  qed
qed simp

end
