(* ===== verification/Model_Types.thy ===== *)
theory Model_Types
  imports Go_Encoding
begin

text \<open>
  pkg/model/types.go: the named integer types, the 32-byte arrays
  \<open>NodePublicKey\<close>, \<open>VertexHash\<close> and \<open>BlockHash\<close>, and raw transactions.

  A Go array \<open>[32]byte\<close> always has 32 elements, so it is a type of its own here,
  \<open>bytes32\<close>; \<open>array32 bs\<close> is the array that \<open>copy(a[:], bs)\<close> leaves in a
  fresh (zeroed) array.  The order on arrays is the one the comparator of \<open>sort.Slice\<close>
  in \<open>Vertex.calculateHash\<close> computes, byte by byte from the first.
\<close>

type_synonym round = u64
type_synonym wave = u64
type_synonym node_id = u32
type_synonym transaction = "byte list"

definition DefaultChannelCapacity :: nat where
  "DefaultChannelCapacity = 10000"

section \<open>Arrays of 32 bytes\<close>

typedef bytes32 = "{bs :: byte list. length bs = 32}"
  morphisms bytes_of Abs_bytes32
proof
  show "replicate 32 0 \<in> {bs :: byte list. length bs = 32}" by simp
qed

setup_lifting type_definition_bytes32

type_synonym node_public_key = bytes32
type_synonym vertex_hash = bytes32
type_synonym block_hash = bytes32

lift_definition array32 :: "byte list \<Rightarrow> bytes32"
  is "\<lambda>bs :: byte list. go_copy (replicate 32 0) bs"
  by simp

text \<open>\<open>copy(a[:], bs)\<close> into an array that already has contents.\<close>

lift_definition copy32 :: "bytes32 \<Rightarrow> byte list \<Rightarrow> bytes32"
  is "\<lambda>a bs :: byte list. go_copy a bs"
  by simp

definition zero32 :: bytes32 where
  "zero32 = array32 []"

lemma length_bytes_of [simp]: "length (bytes_of a) = 32"
  using bytes_of [of a] by simp

lemma array32_bytes_of [simp]: "array32 (bytes_of a) = a"
  by transfer (simp add: go_copy_def)

lemma copy32_full [simp]: "copy32 a (bytes_of b) = b"
  by transfer (simp add: go_copy_def)

lemma bytes_of_array32: "length bs = 32 \<Longrightarrow> bytes_of (array32 bs) = bs"
  by transfer (simp add: go_copy_def)

lemma bytes_of_inj [simp]: "bytes_of a = bytes_of b \<longleftrightarrow> a = b"
  by (rule bytes_of_inject)

text \<open>Small arrays, for concrete instances: one significant byte, then zeros.\<close>

lemma array32_single [simp]: "array32 [a] = array32 [b] \<longleftrightarrow> a = b"
  by transfer (simp add: go_copy_def)

instantiation bytes32 :: equal
begin

definition equal_bytes32 :: "bytes32 \<Rightarrow> bytes32 \<Rightarrow> bool" where
  "equal_bytes32 a b \<longleftrightarrow> bytes_of a = bytes_of b"

instance
  by standard (simp add: equal_bytes32_def)

end

instantiation bytes32 :: linorder
begin

definition less_eq_bytes32 :: "bytes32 \<Rightarrow> bytes32 \<Rightarrow> bool" where
  "less_eq_bytes32 a b \<longleftrightarrow> bytes_of a \<le> bytes_of b"

definition less_bytes32 :: "bytes32 \<Rightarrow> bytes32 \<Rightarrow> bool" where
  "less_bytes32 a b \<longleftrightarrow> bytes_of a < bytes_of b"

instance
proof
  fix x y z :: bytes32
  show "x < y \<longleftrightarrow> x \<le> y \<and> \<not> y \<le> x"
    by (simp only: less_eq_bytes32_def less_bytes32_def less_le_not_le)
  show "x \<le> x"
    by (simp add: less_eq_bytes32_def)
  show "x \<le> y \<Longrightarrow> y \<le> z \<Longrightarrow> x \<le> z"
    by (simp add: less_eq_bytes32_def)
  show "x \<le> y \<Longrightarrow> y \<le> x \<Longrightarrow> x = y"
    by (simp add: less_eq_bytes32_def)
  show "x \<le> y \<or> y \<le> x"
    by (simp add: less_eq_bytes32_def linear)
qed

end

text \<open>
  The comparison that \<open>calculateHash\<close> gives to \<open>sort.Slice\<close>: the first byte that differs
  decides. It is the order above, so sorting with it is \<open>sort\<close>.
\<close>

fun bytes_less :: "byte list \<Rightarrow> byte list \<Rightarrow> bool" where
  "bytes_less (a # as) (b # bs) = (if a \<noteq> b then a < b else bytes_less as bs)"
| "bytes_less _ _ = False"

definition hash_less :: "bytes32 \<Rightarrow> bytes32 \<Rightarrow> bool" where
  "hash_less a b = bytes_less (bytes_of a) (bytes_of b)"

lemma bytes_less_iff: "length as = length bs \<Longrightarrow> bytes_less as bs \<longleftrightarrow> as < bs"
  by (induction as bs rule: list_induct2) auto

lemma hash_less_iff: "hash_less a b \<longleftrightarrow> a < b"
  by (simp add: hash_less_def less_bytes32_def bytes_less_iff)

lemma sorted_iff_hash_less: "sorted hs \<longleftrightarrow> sorted_wrt (\<lambda>a b. \<not> hash_less b a) hs"
  by (simp add: hash_less_iff not_less)

section \<open>JSON of the array types\<close>

text \<open>
  The three \<open>MarshalJSON\<close> methods print the base64 text in quotes; the three
  \<open>UnmarshalJSON\<close> methods read it back, copying what was decoded, however short or
  long, over the array that is there.
\<close>

datatype json_error = InvalidFormat | InvalidBase64

definition array_MarshalJSON :: "bytes32 \<Rightarrow> byte list" where
  "array_MarshalJSON a = 34 # b64_encode (bytes_of a) @ [34]"

definition array_UnmarshalJSON :: "byte list \<Rightarrow> bytes32 \<Rightarrow> json_error + bytes32" where
  "array_UnmarshalJSON data a =
     (if length data < 2 \<or> hd data \<noteq> 34 \<or> last data \<noteq> 34 then Inl InvalidFormat
      else case b64_decode (butlast (List.tl data)) of
             None \<Rightarrow> Inl InvalidBase64
           | Some decoded \<Rightarrow> Inr (copy32 a decoded))"

definition NodePublicKey_MarshalJSON :: "node_public_key \<Rightarrow> byte list" where
  "NodePublicKey_MarshalJSON k = array_MarshalJSON k"

definition NodePublicKey_UnmarshalJSON :: "byte list \<Rightarrow> node_public_key \<Rightarrow> json_error + node_public_key" where
  "NodePublicKey_UnmarshalJSON data k = array_UnmarshalJSON data k"

definition VertexHash_MarshalJSON :: "vertex_hash \<Rightarrow> byte list" where
  "VertexHash_MarshalJSON h = array_MarshalJSON h"

definition VertexHash_UnmarshalJSON :: "byte list \<Rightarrow> vertex_hash \<Rightarrow> json_error + vertex_hash" where
  "VertexHash_UnmarshalJSON data h = array_UnmarshalJSON data h"

definition BlockHash_MarshalJSON :: "block_hash \<Rightarrow> byte list" where
  "BlockHash_MarshalJSON h = array_MarshalJSON h"

definition BlockHash_UnmarshalJSON :: "byte list \<Rightarrow> block_hash \<Rightarrow> json_error + block_hash" where
  "BlockHash_UnmarshalJSON data h = array_UnmarshalJSON data h"

lemma array_UnmarshalJSON_Marshal [simp]: "array_UnmarshalJSON (array_MarshalJSON a) old = Inr a"
  by (simp add: array_UnmarshalJSON_def array_MarshalJSON_def)

text \<open>A short text is accepted: the rest of the array keeps what it was.\<close>

lemma array_UnmarshalJSON_accepts_any_length:
  "array_UnmarshalJSON (34 # b64_encode bs @ [34]) old = Inr (copy32 old bs)"
  by (simp add: array_UnmarshalJSON_def)

interpretation array_json: codec array_MarshalJSON
    "\<lambda>data. case array_UnmarshalJSON data zero32 of Inl _ \<Rightarrow> None | Inr a \<Rightarrow> Some a" "\<lambda>_. True"
  by unfold_locales simp

end
