(* ===== verification/Go_Json.thy ===== *)
theory Go_Json
  imports Go_Encoding
begin

text \<open>
  encoding/json as far as the program uses it, at the level of the text: the scanner with
  its limit of 10000 nested values, the literals of a struct, and compact printing.

  A string keeps its bytes as they stand between the quotes (an \<open>UnmarshalJSON\<close> method
  gets these); \<open>unquote\<close> resolves the escapes and replaces invalid UTF-8.  A number
  keeps its literal.  The parser's fuel is bounded by the input; \<open>parse_json\<close> supplies
  enough for every input (lemma \<open>p_value_fuel\<close>).
\<close>

datatype json =
    JNull
  | JBool bool
  | JNum "byte list"
  | JStr "byte list"
  | JArr "json list"
  | JObj "(byte list \<times> json) list"

section \<open>Scanning\<close>

definition is_space :: "byte \<Rightarrow> bool" where
  "is_space c \<longleftrightarrow> c = 32 \<or> c = 9 \<or> c = 13 \<or> c = 10"

definition skip_ws :: "byte list \<Rightarrow> byte list" where
  "skip_ws s = dropWhile is_space s"

definition is_hex :: "byte \<Rightarrow> bool" where
  "is_hex c \<longleftrightarrow> from_hex_char c \<noteq> None"

text \<open>A string after its opening quote: its raw bytes and the rest after the closing quote.\<close>

fun p_string :: "byte list \<Rightarrow> (byte list \<times> byte list) option" where
  "p_string [] = None"
| "p_string (c # s) =
     (if c = 34 then Some ([], s)
      else if c = 92 then
        (case s of
           [] \<Rightarrow> None
         | e # s1 \<Rightarrow>
             (if e \<in> {34, 92, 47, 98, 102, 110, 114, 116} then
                map_option (\<lambda>(raw, r). (c # e # raw, r)) (p_string s1)
              else if e = 117 \<and> length s1 \<ge> 4 \<and> list_all is_hex (take 4 s1) then
                map_option (\<lambda>(raw, r). (c # e # raw, r)) (p_string s1)
              else None))
      else if c < 32 then None
      else map_option (\<lambda>(raw, r). (c # raw, r)) (p_string s))"

text \<open>A number: sign, integer part, fraction, exponent.\<close>

definition p_sign :: "byte list \<Rightarrow> byte list \<times> byte list" where
  "p_sign s = (if s \<noteq> [] \<and> hd s = 45 then ([45], List.tl s) else ([], s))"

definition p_int :: "byte list \<Rightarrow> (byte list \<times> byte list) option" where
  "p_int s =
     (if s \<noteq> [] \<and> hd s = 48 then Some ([48], List.tl s)
      else if takeWhile is_digit s = [] then None
      else Some (takeWhile is_digit s, dropWhile is_digit s))"

definition p_frac :: "byte list \<Rightarrow> (byte list \<times> byte list) option" where
  "p_frac s =
     (if s \<noteq> [] \<and> hd s = 46 then
        (if takeWhile is_digit (List.tl s) = [] then None
         else Some (46 # takeWhile is_digit (List.tl s), dropWhile is_digit (List.tl s)))
      else Some ([], s))"

definition p_exp :: "byte list \<Rightarrow> (byte list \<times> byte list) option" where
  "p_exp s =
     (if s \<noteq> [] \<and> (hd s = 101 \<or> hd s = 69) then
        (let t = List.tl s;
             sg = (if t \<noteq> [] \<and> (hd t = 43 \<or> hd t = 45) then [hd t] else []);
             u = drop (length sg) t
         in if takeWhile is_digit u = [] then None
            else Some (hd s # sg @ takeWhile is_digit u, dropWhile is_digit u))
      else Some ([], s))"

definition p_number :: "byte list \<Rightarrow> (byte list \<times> byte list) option" where
  "p_number s =
     (case p_sign s of (sg, s1) \<Rightarrow>
      case p_int s1 of None \<Rightarrow> None | Some (ip, s2) \<Rightarrow>
      case p_frac s2 of None \<Rightarrow> None | Some (fp, s3) \<Rightarrow>
      case p_exp s3 of None \<Rightarrow> None | Some (ep, s4) \<Rightarrow> Some (sg @ ip @ fp @ ep, s4))"

definition p_literal :: "byte list \<Rightarrow> json \<Rightarrow> byte list \<Rightarrow> (json \<times> byte list) option" where
  "p_literal w j s = (if take (length w) s = w then Some (j, drop (length w) s) else None)"

text \<open>White space, then the given byte.\<close>

definition expect :: "byte \<Rightarrow> byte list \<Rightarrow> byte list option" where
  "expect c s = (case skip_ws s of [] \<Rightarrow> None | x # r \<Rightarrow> if x = c then Some r else None)"

text \<open>Values, the elements of an array and the members of an object.\<close>

fun p_value :: "nat \<Rightarrow> nat \<Rightarrow> byte list \<Rightarrow> (json \<times> byte list) option"
and p_elems :: "nat \<Rightarrow> nat \<Rightarrow> byte list \<Rightarrow> (json list \<times> byte list) option"
and p_members :: "nat \<Rightarrow> nat \<Rightarrow> byte list \<Rightarrow> ((byte list \<times> json) list \<times> byte list) option" where
  "p_value 0 d s = None"
| "p_value (Suc f) d s =
     (case skip_ws s of
        [] \<Rightarrow> None
      | c # r \<Rightarrow>
          (if c = 34 then map_option (\<lambda>(raw, r'). (JStr raw, r')) (p_string r)
           else if c = 123 then
             (if d = 0 then None
              else case expect 125 r of
                     Some r' \<Rightarrow> Some (JObj [], r')
                   | None \<Rightarrow> map_option (\<lambda>(ms, r'). (JObj ms, r')) (p_members f (d - 1) r))
           else if c = 91 then
             (if d = 0 then None
              else case expect 93 r of
                     Some r' \<Rightarrow> Some (JArr [], r')
                   | None \<Rightarrow> map_option (\<lambda>(js, r'). (JArr js, r')) (p_elems f (d - 1) r))
           else if c = 116 then p_literal (str ''true'') (JBool True) (c # r)
           else if c = 102 then p_literal (str ''false'') (JBool False) (c # r)
           else if c = 110 then p_literal (str ''null'') JNull (c # r)
           else map_option (\<lambda>(lit, r'). (JNum lit, r')) (p_number (c # r))))"
| "p_elems 0 d s = None"
| "p_elems (Suc f) d s =
     (case p_value f d s of
        None \<Rightarrow> None
      | Some (j, r) \<Rightarrow>
          (case expect 44 r of
             Some r' \<Rightarrow> map_option (\<lambda>(js, r''). (j # js, r'')) (p_elems f d r')
           | None \<Rightarrow> map_option (\<lambda>r'. ([j], r')) (expect 93 r)))"
| "p_members 0 d s = None"
| "p_members (Suc f) d s =
     (case expect 34 s of
        None \<Rightarrow> None
      | Some r \<Rightarrow>
          (case p_string r of
             None \<Rightarrow> None
           | Some (k, r1) \<Rightarrow>
               (case expect 58 r1 of
                  None \<Rightarrow> None
                | Some r2 \<Rightarrow>
                    (case p_value f d r2 of
                       None \<Rightarrow> None
                     | Some (j, r3) \<Rightarrow>
                         (case expect 44 r3 of
                            Some r4 \<Rightarrow> map_option (\<lambda>(ms, r'). ((k, j) # ms, r')) (p_members f d r4)
                          | None \<Rightarrow> map_option (\<lambda>r4. ([(k, j)], r4)) (expect 125 r3))))))"

definition max_depth :: nat where
  "max_depth = 10000"

definition parse_json :: "byte list \<Rightarrow> json option" where
  "parse_json s =
     (case p_value (2 * length s + 2) max_depth s of
        Some (j, r) \<Rightarrow> if skip_ws r = [] then Some j else None
      | None \<Rightarrow> None)"

section \<open>Printing\<close>

fun print_json :: "json \<Rightarrow> byte list"
and print_elems :: "json list \<Rightarrow> byte list"
and print_members :: "(byte list \<times> json) list \<Rightarrow> byte list" where
  "print_json JNull = str ''null''"
| "print_json (JBool True) = str ''true''"
| "print_json (JBool False) = str ''false''"
| "print_json (JNum lit) = lit"
| "print_json (JStr raw) = 34 # raw @ [34]"
| "print_json (JArr js) = 91 # print_elems js @ [93]"
| "print_json (JObj ms) = 123 # print_members ms @ [125]"
| "print_elems [] = []"
| "print_elems [j] = print_json j"
| "print_elems (j # js) = print_json j @ 44 # print_elems js"
| "print_members [] = []"
| "print_members [(k, j)] = 34 # k @ [34, 58] @ print_json j"
| "print_members ((k, j) # ms) = 34 # k @ [34, 58] @ print_json j @ 44 # print_members ms"

section \<open>Enough fuel\<close>

lemma skip_ws_shorter: "length (skip_ws s) \<le> length s"
  by (simp add: skip_ws_def length_dropWhile_le)

lemma expect_shorter: "expect c s = Some r \<Longrightarrow> length r < length s"
  using skip_ws_shorter [of s] by (auto simp: expect_def split: list.splits if_splits)

lemma p_string_shorter: "p_string s = Some (raw, r) \<Longrightarrow> length r < length s"
proof (induction s arbitrary: raw r rule: p_string.induct)
  case (2 c s)
  show ?case
  proof (cases "c = 34")
    case True
    then show ?thesis using "2.prems" by simp
  next
    case False
    then show ?thesis
      using 2 by (fastforce split: if_splits list.splits)
  qed
qed simp

lemma p_literal_shorter: "p_literal w j s = Some (x, r) \<Longrightarrow> w \<noteq> [] \<Longrightarrow> length r < length s"
  by (cases s) (auto simp: p_literal_def split: if_splits)

lemma dropWhile_shorter: "length (dropWhile P s) \<le> length s"
  by (rule length_dropWhile_le)

lemma p_int_shorter: "p_int s = Some (x, r) \<Longrightarrow> length r < length s"
proof -
  assume a: "p_int s = Some (x, r)"
  show ?thesis
  proof (cases s)
    case Nil
    then show ?thesis using a by (simp add: p_int_def)
  next
    case (Cons c t)
    then show ?thesis using a dropWhile_shorter [of is_digit t]
      by (auto simp: p_int_def split: if_splits)
  qed
qed

lemma p_frac_shorter: "p_frac s = Some (x, r) \<Longrightarrow> length r \<le> length s"
  using dropWhile_shorter [of is_digit "List.tl s"] by (auto simp: p_frac_def split: if_splits)

lemma p_exp_shorter: "p_exp s = Some (x, r) \<Longrightarrow> length r \<le> length s"
  using dropWhile_shorter [of is_digit "List.tl s"] dropWhile_shorter [of is_digit "List.tl (List.tl s)"]
  by (auto simp: p_exp_def Let_def drop_Suc split: if_splits)

lemma p_number_shorter: "p_number s = Some (lit, r) \<Longrightarrow> length r < length s"
proof -
  assume a: "p_number s = Some (lit, r)"
  obtain sg s1 where s1: "p_sign s = (sg, s1)" by (cases "p_sign s")
  then have "length s1 \<le> length s" by (auto simp: p_sign_def split: if_splits)
  then show ?thesis
    using a s1 by (auto simp: p_number_def split: option.splits
        dest!: p_int_shorter p_frac_shorter p_exp_shorter)
qed

lemma p_shorter:
  "p_value f d s = Some (j, r) \<Longrightarrow> length r < length s"
  "p_elems f d s = Some (js, r) \<Longrightarrow> length r < length s"
  "p_members f d s = Some (ms, r) \<Longrightarrow> length r < length s"
proof (induction f d s and f d s and f d s arbitrary: j r and js r and ms r
    rule: p_value_p_elems_p_members.induct)
  case (2 f d s)
  obtain c t where ws: "skip_ws s = c # t" using "2.prems" by (cases "skip_ws s") auto
  then have t: "length t < length s" using skip_ws_shorter [of s] by simp
  then show ?case
    using "2.prems" ws "2.IH" [OF ws]
    by (auto split: if_splits option.splits dest!: p_string_shorter p_number_shorter p_literal_shorter
        expect_shorter simp: str_def)
next
  case (4 f d s)
  then show ?case by (fastforce split: option.splits dest!: expect_shorter)
next
  case (6 f d s)
  then show ?case by (fastforce split: option.splits dest!: expect_shorter p_string_shorter)
qed simp_all


lemma p_fuel_step:
  "2 * length s + 1 \<le> f \<Longrightarrow> p_value (Suc f) d s = p_value f d s"
  "2 * length s + 2 \<le> f \<Longrightarrow> p_elems (Suc f) d s = p_elems f d s"
  "2 * length s + 2 \<le> f \<Longrightarrow> p_members (Suc f) d s = p_members f d s"
proof (induction f d s and f d s and f d s rule: p_value_p_elems_p_members.induct)
  case (2 f d s)
  show ?case
  proof (cases "skip_ws s")
    case Nil
    then show ?thesis by simp
  next
    case (Cons c t)
    then have "2 * length t + 2 \<le> f" using skip_ws_shorter [of s] "2.prems" by simp
    then have "c = 123 \<Longrightarrow> d \<noteq> 0 \<Longrightarrow> expect 125 t = None \<Longrightarrow> p_members (Suc f) (d - 1) t = p_members f (d - 1) t"
      and "c = 91 \<Longrightarrow> d \<noteq> 0 \<Longrightarrow> expect 93 t = None \<Longrightarrow> p_elems (Suc f) (d - 1) t = p_elems f (d - 1) t"
      using "2.IH" [OF Cons] by auto
    then show ?thesis using Cons by (auto split: option.splits simp del: p_members.simps p_elems.simps)
  qed
next
  case (4 f d s)
  have v: "p_value (Suc f) d s = p_value f d s" using 4 by simp
  have "p_elems (Suc f) d r' = p_elems f d r'" if "p_value f d s = Some (j, r)" "expect 44 r = Some r'" for j r r'
  proof -
    have "length r' < length s" using p_shorter(1) [OF that(1)] expect_shorter [OF that(2)] by simp
    then show ?thesis using "4.IH"(2) [OF that(1) refl that(2)] "4.prems" by simp
  qed
  then show ?case unfolding p_elems.simps(2) [of "Suc f" d s] p_elems.simps(2) [of f d s] v by (auto split: option.splits simp del: p_elems.simps)
next
  case (6 f d s)
  have v: "p_value (Suc f) d r2 = p_value f d r2"
    if "expect 34 s = Some r" "p_string r = Some (k, r1)" "expect 58 r1 = Some r2" for r k r1 r2
  proof -
    have "length r2 < length s"
      using expect_shorter [OF that(1)] p_string_shorter [OF that(2)] expect_shorter [OF that(3)] by simp
    then show ?thesis using "6.IH"(1) [OF that(1,2) refl that(3)] "6.prems" by simp
  qed
  have m: "p_members (Suc f) d r4 = p_members f d r4"
    if "expect 34 s = Some r" "p_string r = Some (k, r1)" "expect 58 r1 = Some r2"
      "p_value f d r2 = Some (j, r3)" "expect 44 r3 = Some r4" for r k r1 r2 j r3 r4
  proof -
    have "length r4 < length s"
      using expect_shorter [OF that(1)] p_string_shorter [OF that(2)] expect_shorter [OF that(3)]
        p_shorter(1) [OF that(4)] expect_shorter [OF that(5)] by simp
    then show ?thesis using "6.IH"(2) [OF that(1,2) refl that(3,4) refl that(5)] "6.prems" by simp
  qed
  show ?case unfolding p_members.simps(2) [of "Suc f" d s] p_members.simps(2) [of f d s]
    by (auto split: option.splits simp: v m simp del: p_members.simps p_value.simps)
qed simp_all

text \<open>More fuel than \<open>parse_json\<close> supplies changes nothing.\<close>

lemma p_value_fuel: "2 * length s + 2 \<le> f \<Longrightarrow> p_value f d s = p_value (2 * length s + 2) d s"
proof (induction f rule: dec_induct)
  case (step n)
  then show ?case using p_fuel_step(1) [of s n d] by simp
qed simp

section \<open>Parsing what was printed\<close>

text \<open>
  The values the program prints: strings without quotes, backslashes and control characters,
  and decimal numbers, nested no deeper than the limit.
\<close>

definition raw_ok :: "byte list \<Rightarrow> bool" where
  "raw_ok raw \<longleftrightarrow> list_all (\<lambda>c. c \<noteq> 34 \<and> c \<noteq> 92 \<and> \<not> c < 32) raw"

fun json_ok :: "nat \<Rightarrow> json \<Rightarrow> bool"
and elems_ok :: "nat \<Rightarrow> json list \<Rightarrow> bool"
and members_ok :: "nat \<Rightarrow> (byte list \<times> json) list \<Rightarrow> bool" where
  "json_ok d (JNum lit) = (\<exists>n. lit = dec_digits n)"
| "json_ok d (JStr raw) = raw_ok raw"
| "json_ok d (JArr js) = (0 < d \<and> elems_ok (d - 1) js)"
| "json_ok d (JObj ms) = (0 < d \<and> members_ok (d - 1) ms)"
| "json_ok d _ = True"
| "elems_ok d [] = True"
| "elems_ok d (j # js) = (json_ok d j \<and> elems_ok d js)"
| "members_ok d [] = True"
| "members_ok d ((k, j) # ms) = (raw_ok k \<and> json_ok d j \<and> members_ok d ms)"

definition follow_ok :: "byte list \<Rightarrow> bool" where
  "follow_ok rest \<longleftrightarrow> rest = [] \<or> hd rest = 44 \<or> hd rest = 93 \<or> hd rest = 125"

lemma p_string_raw: "raw_ok raw \<Longrightarrow> p_string (raw @ 34 # s) = Some (raw, s)"
  by (induction raw) (auto simp: raw_ok_def)

lemma dec_digits_hd: "hd (dec_digits n) = 48 \<Longrightarrow> n = 0"
proof (induction n rule: dec_digits.induct)
  case (1 n)
  show ?case
  proof (cases "n < 10")
    case True
    show ?thesis
    proof (rule ccontr)
      assume "n \<noteq> 0"
      have "of_nat (n + 48) = (48 :: byte)" using "1.prems" True by (simp add: dec_digits.simps [of n])
      then have "unat (of_nat (n + 48) :: byte) = 48" by simp
      then show False using digit_simps(2) [OF True] \<open>n \<noteq> 0\<close> by simp
    qed
  next
    case False
    then have "hd (dec_digits n) = hd (dec_digits (n div 10))"
      by (simp add: dec_digits.simps [of n])
    then show ?thesis using 1 False by auto
  qed
qed

lemma digit_not_space: "is_digit c \<Longrightarrow> \<not> is_space c"
  by (auto simp: is_digit_def is_space_def word_le_nat_alt)

lemma p_number_digits:
  assumes "follow_ok rest"
  shows "p_number (dec_digits n @ rest) = Some (dec_digits n, rest)"
proof -
  obtain c t where ct: "dec_digits n = c # t" using dec_digits_nonempty [of n] by (cases "dec_digits n") auto
  have digits: "\<forall>c\<in>set (dec_digits n). is_digit c" using dec_digits_all by blast
  then have c: "c \<noteq> 45" using ct by (auto simp: is_digit_def)
  have stop: "rest = [] \<or> \<not> is_digit (hd rest)" and
    tail: "rest = [] \<or> hd rest \<noteq> 46 \<and> hd rest \<noteq> 101 \<and> hd rest \<noteq> 69"
    using assms by (auto simp: follow_ok_def is_digit_def)
  have tw: "takeWhile is_digit (dec_digits n @ rest) = dec_digits n"
    and dw: "dropWhile is_digit (dec_digits n @ rest) = rest"
    using digits stop by (cases rest; simp)+
  have "p_int (dec_digits n @ rest) = Some (dec_digits n, rest)"
  proof (cases "c = 48")
    case True
    then have "dec_digits n = [48]"
      using dec_digits_hd [of n] ct by (simp add: dec_digits.simps [of 0])
    then show ?thesis by (simp add: p_int_def)
  next
    case False
    then show ?thesis using tw dw ct by (simp add: p_int_def)
  qed
  moreover have "p_sign (dec_digits n @ rest) = ([], dec_digits n @ rest)"
    using c ct by (simp add: p_sign_def)
  moreover have "p_frac rest = Some ([], rest)" and "p_exp rest = Some ([], rest)"
    using tail by (auto simp: p_frac_def p_exp_def)
  ultimately show ?thesis by (simp add: p_number_def)
qed

lemma skip_ws_stop [simp]: "\<not> is_space c \<Longrightarrow> skip_ws (c # s) = c # s"
  by (simp add: skip_ws_def)

lemma not_space [simp]:
  "\<not> is_space 34" "\<not> is_space 123" "\<not> is_space 125" "\<not> is_space 91" "\<not> is_space 93"
  "\<not> is_space 44" "\<not> is_space 58" "\<not> is_space 116" "\<not> is_space 102" "\<not> is_space 110"
  by (simp_all add: is_space_def)

lemma expect_here: "\<not> is_space c \<Longrightarrow> expect c (c # s) = Some s"
  by (simp add: expect_def)

lemma expect_other: "\<not> is_space x \<Longrightarrow> x \<noteq> c \<Longrightarrow> expect c (x # s) = None"
  by (simp add: expect_def)

lemmas expect_simps = expect_here expect_other

lemma print_json_first:
  assumes "json_ok d j"
  obtains c t where "print_json j = c # t" "\<not> is_space c" "c \<noteq> 93"
proof (cases j)
  case (JNum lit)
  then obtain n where n: "lit = dec_digits n" using assms by auto
  then obtain c t where ct: "lit = c # t" using dec_digits_nonempty [of n] by (cases "dec_digits n") auto
  then have "is_digit c" using n dec_digits_all [of c n] by simp
  moreover have "c \<noteq> 93" using \<open>is_digit c\<close> by (auto simp: is_digit_def)
  ultimately show thesis using that ct JNum digit_not_space by simp
next
  case (JBool b)
  then show thesis using that by (cases b) (simp_all add: str_def)
qed (use that in \<open>simp_all add: str_def\<close>)

lemma p_value_number:
  assumes "follow_ok rest"
  shows "p_value (Suc f) d (dec_digits n @ rest) = Some (JNum (dec_digits n), rest)"
proof -
  obtain c t where ct: "dec_digits n = c # t" using dec_digits_nonempty [of n] by (cases "dec_digits n") auto
  then have c: "is_digit c" using dec_digits_all [of c n] by simp
  then have "c \<noteq> 34" "c \<noteq> 123" "c \<noteq> 91" "c \<noteq> 116" "c \<noteq> 102" "c \<noteq> 110"
    by (auto simp: is_digit_def)
  then show ?thesis
    using p_number_digits [OF assms, of n] ct digit_not_space [OF c] by simp
qed

text \<open>One printed array or object, element or member, given the parser on its parts.\<close>

lemma p_array_print:
  assumes "json_ok d (JArr js)"
    and "js \<noteq> [] \<Longrightarrow> p_elems f (d - 1) (print_elems js @ 93 # rest) = Some (js, rest)"
  shows "p_value (Suc f) d (print_json (JArr js) @ rest) = Some (JArr js, rest)"
proof (cases js)
  case Nil
  then show ?thesis using assms(1) by (simp add: expect_simps)
next
  case (Cons j js')
  obtain c t where "print_json j = c # t" "\<not> is_space c" "c \<noteq> 93"
    using assms(1) Cons print_json_first [of "d - 1" j] by auto
  then have "expect 93 (print_elems js @ 93 # rest) = None"
    using Cons by (cases js') (simp_all add: expect_other)
  then show ?thesis using assms Cons by simp
qed

lemma p_object_print:
  assumes "json_ok d (JObj ms)"
    and "ms \<noteq> [] \<Longrightarrow> p_members f (d - 1) (print_members ms @ 125 # rest) = Some (ms, rest)"
  shows "p_value (Suc f) d (print_json (JObj ms) @ rest) = Some (JObj ms, rest)"
proof (cases ms)
  case Nil
  then show ?thesis using assms(1) by (simp add: expect_simps)
next
  case (Cons m ms')
  then have "expect 125 (print_members ms @ 125 # rest) = None"
    by (cases m; cases ms') (simp_all add: expect_other)
  then show ?thesis using assms Cons by simp
qed

lemma p_elems_print:
  "p_value f d (print_json j @ 93 # rest) = Some (j, 93 # rest)
    \<Longrightarrow> p_elems (Suc f) d (print_elems [j] @ 93 # rest) = Some ([j], rest)"
  "p_value f d (print_json j @ 44 # print_elems (j2 # js) @ 93 # rest) = Some (j, 44 # print_elems (j2 # js) @ 93 # rest)
    \<Longrightarrow> p_elems f d (print_elems (j2 # js) @ 93 # rest) = Some (j2 # js, rest)
    \<Longrightarrow> p_elems (Suc f) d (print_elems (j # j2 # js) @ 93 # rest) = Some (j # j2 # js, rest)"
  by (simp_all add: expect_simps)

lemma p_members_print:
  assumes "raw_ok k"
  shows "p_value f d (print_json j @ 125 # rest) = Some (j, 125 # rest)
    \<Longrightarrow> p_members (Suc f) d (print_members [(k, j)] @ 125 # rest) = Some ([(k, j)], rest)"
    and "p_value f d (print_json j @ 44 # print_members (m # ms) @ 125 # rest) = Some (j, 44 # print_members (m # ms) @ 125 # rest)
    \<Longrightarrow> p_members f d (print_members (m # ms) @ 125 # rest) = Some (m # ms, rest)
    \<Longrightarrow> p_members (Suc f) d (print_members ((k, j) # m # ms) @ 125 # rest) = Some ((k, j) # m # ms, rest)"
  using assms by (simp_all add: expect_simps p_string_raw)

lemma p_print:
  "2 * length (print_json j) + 1 \<le> f \<Longrightarrow> json_ok d j \<Longrightarrow> follow_ok rest \<Longrightarrow>
     p_value f d (print_json j @ rest) = Some (j, rest)"
  "2 * length (print_elems js) + 2 \<le> f \<Longrightarrow> js \<noteq> [] \<Longrightarrow> elems_ok d js \<Longrightarrow>
     p_elems f d (print_elems js @ 93 # rest) = Some (js, rest)"
  "2 * length (print_members ms) + 2 \<le> f \<Longrightarrow> ms \<noteq> [] \<Longrightarrow> members_ok d ms \<Longrightarrow>
     p_members f d (print_members ms @ 125 # rest) = Some (ms, rest)"
proof (induction j and js and ms arbitrary: f d rest and f d rest and f d rest
    rule: print_json_print_elems_print_members.induct)
  case 1
  then show ?case by (cases f) (auto simp: p_literal_def str_def)
next
  case 2
  then show ?case by (cases f) (auto simp: p_literal_def str_def)
next
  case 3
  then show ?case by (cases f) (auto simp: p_literal_def str_def)
next
  case (4 lit)
  then show ?case using p_value_number by (cases f) auto
next
  case (5 raw)
  then show ?case by (cases f) (auto simp: p_string_raw)
next
  case (6 js)
  then obtain g where f: "f = Suc g" by (cases f) auto
  show ?case
    unfolding f by (rule p_array_print [OF "6.prems"(2)]) (use 6 f in \<open>auto intro: "6.IH"\<close>)
next
  case (7 ms)
  then obtain g where f: "f = Suc g" by (cases f) auto
  show ?case
    unfolding f by (rule p_object_print [OF "7.prems"(2)]) (use 7 f in \<open>auto intro: "7.IH"\<close>)
next
  case (9 j)
  then obtain g where f: "f = Suc g" by (cases f) auto
  show ?case
    unfolding f by (rule p_elems_print(1), rule "9.IH") (use 9 f in \<open>auto simp: follow_ok_def\<close>)
next
  case (10 j j2 js)
  then obtain g where f: "f = Suc g" by (cases f) auto
  show ?case
    unfolding f by (rule p_elems_print(2), rule "10.IH"(1)) (use 10 f in \<open>auto simp: follow_ok_def intro: "10.IH"(2)\<close>)
next
  case (12 k j)
  then obtain g where f: "f = Suc g" by (cases f) auto
  have "raw_ok k" using "12.prems"(3) by simp
  then show ?case
    unfolding f by (rule p_members_print(1), intro "12.IH") (use 12 f in \<open>auto simp: follow_ok_def\<close>)
next
  case (13 k j m ms)
  then obtain g where f: "f = Suc g" by (cases f) auto
  have "raw_ok k" using "13.prems"(3) by simp
  then show ?case
    unfolding f by (rule p_members_print(2), intro "13.IH"(1)) (use 13 f in \<open>auto simp: follow_ok_def intro: "13.IH"(2)\<close>)
qed simp_all

lemma parse_print: "json_ok max_depth j \<Longrightarrow> parse_json (print_json j) = Some j"
  using p_print(1) [of j "2 * length (print_json j) + 2" max_depth "[]"]
  by (simp add: parse_json_def follow_ok_def skip_ws_def)

interpretation json_text: codec print_json parse_json "json_ok max_depth"
  by unfold_locales (rule parse_print)

section \<open>Strings and keys\<close>

definition hex4 :: "byte list \<Rightarrow> nat option" where
  "hex4 s =
     (case map from_hex_char s of
        [Some a, Some b, Some c, Some d] \<Rightarrow> Some (((a * 16 + b) * 16 + c) * 16 + d)
      | _ \<Rightarrow> None)"

definition utf8_encode :: "nat \<Rightarrow> byte list" where
  "utf8_encode r =
     (if r < 128 then [of_nat r]
      else if r < 2048 then [of_nat (192 + r div 64), of_nat (128 + r mod 64)]
      else if r < 65536 then
        [of_nat (224 + r div 4096), of_nat (128 + r div 64 mod 64), of_nat (128 + r mod 64)]
      else [of_nat (240 + r div 262144), of_nat (128 + r div 4096 mod 64),
            of_nat (128 + r div 64 mod 64), of_nat (128 + r mod 64)])"

text \<open>The length of the valid UTF-8 sequence at the front, 0 when there is none.\<close>

definition utf8_size :: "byte list \<Rightarrow> nat" where
  "utf8_size s =
     (let at = (\<lambda>i. if i < length s then unat (s ! i) else 0);
          cont = (\<lambda>i. 128 \<le> at i \<and> at i \<le> 191);
          b0 = at 0; b1 = at 1
      in if s = [] then 0
         else if b0 < 128 then 1
         else if 194 \<le> b0 \<and> b0 \<le> 223 \<and> cont 1 then 2
         else if 224 \<le> b0 \<and> b0 \<le> 239 \<and> cont 1 \<and> cont 2
                 \<and> (b0 = 224 \<longrightarrow> 160 \<le> b1) \<and> (b0 = 237 \<longrightarrow> b1 \<le> 159) then 3
         else if 240 \<le> b0 \<and> b0 \<le> 244 \<and> cont 1 \<and> cont 2 \<and> cont 3
                 \<and> (b0 = 240 \<longrightarrow> 144 \<le> b1) \<and> (b0 = 244 \<longrightarrow> b1 \<le> 143) then 4
         else 0)"

definition rune_error :: "byte list" where
  "rune_error = [239, 191, 189]"

definition escape_char :: "byte \<Rightarrow> byte" where
  "escape_char e =
     (if e = 98 then 8 else if e = 102 then 12 else if e = 110 then 10
      else if e = 114 then 13 else if e = 116 then 9 else e)"

text \<open>
  \<open>unquote\<close> of a string the scanner accepted.  A surrogate pair of two escapes is one
  character; a lone surrogate, like invalid UTF-8, becomes U+FFFD.
\<close>

function unquote :: "byte list \<Rightarrow> byte list" where
  "unquote [] = []"
| "unquote (c # s) =
     (if c = 92 then
        (case s of
           [] \<Rightarrow> []
         | e # s1 \<Rightarrow>
             (if e \<noteq> 117 then escape_char e # unquote s1
              else case hex4 (take 4 s1) of
                     None \<Rightarrow> []
                   | Some r \<Rightarrow>
                       (if 55296 \<le> r \<and> r < 57344 then
                          (case (if take 2 (drop 4 s1) = [92, 117] then hex4 (take 4 (drop 6 s1)) else None) of
                             Some r2 \<Rightarrow>
                               (if r < 56320 \<and> 56320 \<le> r2 \<and> r2 < 57344 then
                                  utf8_encode ((r - 55296) * 1024 + (r2 - 56320) + 65536)
                                    @ unquote (drop 10 s1)
                                else rune_error @ unquote (drop 4 s1))
                           | None \<Rightarrow> rune_error @ unquote (drop 4 s1))
                        else utf8_encode r @ unquote (drop 4 s1))))
      else if utf8_size (c # s) = 0 then rune_error @ unquote s
      else take (utf8_size (c # s)) (c # s) @ unquote (drop (utf8_size (c # s)) (c # s)))"
  by pat_completeness auto
termination by (relation "measure length") auto

text \<open>
  Struct fields are found by their exact name, otherwise without regard to case; besides the
  ASCII letters the long s (U+017F) and the Kelvin sign (U+212A) fold to letters.
\<close>

fun fold_key :: "byte list \<Rightarrow> byte list" where
  "fold_key [] = []"
| "fold_key (c # s) =
     (if c = 197 \<and> take 1 s = [191] then 115 # fold_key (drop 1 s)
      else if c = 226 \<and> take 2 s = [132, 170] then 107 # fold_key (drop 2 s)
      else (if 65 \<le> c \<and> c \<le> 90 then c + 32 else c) # fold_key s)"

definition find_field :: "byte list list \<Rightarrow> byte list \<Rightarrow> byte list option" where
  "find_field names raw =
     (let key = unquote raw
      in if key \<in> set names then Some key
         else List.find (\<lambda>n. fold_key n = fold_key key) names)"

section \<open>Numbers\<close>

definition num_u64 :: "byte list \<Rightarrow> u64 option" where
  "num_u64 lit =
     (if lit \<noteq> [] \<and> list_all is_digit lit \<and> dec_val lit < 2 ^ 64 then Some (of_nat (dec_val lit))
      else None)"

text \<open>
  A number decoded into an \<open>interface{}\<close> becomes a \<open>float64\<close>; it is an error when it
  overflows, that is when its absolute value rounds to $2^{1024}$.
\<close>

definition float_limit :: nat where
  "float_limit = 2 ^ 1024 - 2 ^ 970"

definition float_ok :: "byte list \<Rightarrow> bool" where
  "float_ok lit =
     (let s = (if lit \<noteq> [] \<and> hd lit = 45 then List.tl lit else lit);
          ip = takeWhile is_digit s; t = dropWhile is_digit s;
          fp = (if t \<noteq> [] \<and> hd t = 46 then takeWhile is_digit (List.tl t) else []);
          u = dropWhile (\<lambda>c. is_digit c \<or> c = 46) t;
          v = List.tl u;
          neg = (v \<noteq> [] \<and> hd v = 45);
          ex = dec_val (filter is_digit v);
          mant = dec_val (ip @ fp);
          up = (if neg then 0 else ex); down = length fp + (if neg then ex else 0)
      in mant * 10 ^ up < float_limit * 10 ^ down)"

fun floats_ok :: "json \<Rightarrow> bool"
and elems_floats :: "json list \<Rightarrow> bool"
and members_floats :: "(byte list \<times> json) list \<Rightarrow> bool" where
  "floats_ok (JNum lit) = float_ok lit"
| "floats_ok (JArr js) = elems_floats js"
| "floats_ok (JObj ms) = members_floats ms"
| "floats_ok _ = True"
| "elems_floats [] = True"
| "elems_floats (j # js) = (floats_ok j \<and> elems_floats js)"
| "members_floats [] = True"
| "members_floats ((k, j) # ms) = (floats_ok j \<and> members_floats ms)"

section \<open>Decoding into Go values\<close>

text \<open>
  Each decoder gets the value that is there and returns the new one, \<open>None\<close> for an
  error; every error makes the whole \<open>Unmarshal\<close> fail.  \<open>null\<close> leaves a number or a
  string alone.
\<close>

definition dec_u64 :: "u64 \<Rightarrow> json \<Rightarrow> u64 option" where
  "dec_u64 old j = (case j of JNull \<Rightarrow> Some old | JNum lit \<Rightarrow> num_u64 lit | _ \<Rightarrow> None)"

definition dec_string :: "byte list \<Rightarrow> json \<Rightarrow> byte list option" where
  "dec_string old j = (case j of JNull \<Rightarrow> Some old | JStr raw \<Rightarrow> Some (unquote raw) | _ \<Rightarrow> None)"

definition dec_u8 :: "json \<Rightarrow> byte option" where
  "dec_u8 j =
     (case j of
        JNull \<Rightarrow> Some 0
      | JNum lit \<Rightarrow> if lit \<noteq> [] \<and> list_all is_digit lit \<and> dec_val lit < 256
                    then Some (of_nat (dec_val lit)) else None
      | _ \<Rightarrow> None)"

text \<open>A byte slice: base64 text, or an array of numbers.\<close>

definition dec_bytes :: "json \<Rightarrow> byte list option option" where
  "dec_bytes j =
     (case j of
        JNull \<Rightarrow> Some None
      | JStr raw \<Rightarrow> map_option Some (b64_decode (unquote raw))
      | JArr js \<Rightarrow> map_option Some (those (map dec_u8 js))
      | _ \<Rightarrow> None)"

definition enc_u64 :: "u64 \<Rightarrow> json" where
  "enc_u64 w = JNum (dec_digits (unat w))"

text \<open>The raw text that an \<open>UnmarshalJSON\<close> method gets; a composite value by its brackets.\<close>

definition raw_text :: "json \<Rightarrow> byte list" where
  "raw_text j = (case j of JArr _ \<Rightarrow> str ''[]'' | JObj _ \<Rightarrow> str ''{}'' | _ \<Rightarrow> print_json j)"

subsection \<open>What is printed is read\<close>

lemma unquote_raw: "raw_ok raw \<Longrightarrow> list_all (\<lambda>c. c < 128) raw \<Longrightarrow> unquote raw = raw"
proof (induction raw)
  case (Cons c s)
  have "unat c < 128" using Cons.prems(2) by (simp add: word_less_nat_alt)
  then have "utf8_size (c # s) = 1" by (simp add: utf8_size_def Let_def)
  then show ?case using Cons by (simp add: raw_ok_def)
qed simp

lemma dec_u64_enc [simp]: "dec_u64 old (enc_u64 w) = Some w"
proof -
  have "dec_val (dec_digits (unat w)) < 2 ^ 64" using unat_lt2p [of w] by simp
  moreover have "list_all is_digit (dec_digits (unat w))" using dec_digits_all by (simp add: list_all_iff)
  ultimately show ?thesis by (simp add: dec_u64_def enc_u64_def num_u64_def)
qed

lemma json_ok_u64 [simp]: "json_ok d (enc_u64 w)"
  by (auto simp: enc_u64_def)

lemma raw_ok_b64 [simp]: "raw_ok (b64_encode bs)"
  using b64_encode_chars by (auto simp: raw_ok_def list_all_iff not_less)

lemma unquote_b64 [simp]: "unquote (b64_encode bs) = b64_encode bs"
  by (rule unquote_raw) (use b64_encode_chars in \<open>auto simp: list_all_iff\<close>)

lemma float_ok_digits: "n < 2 ^ 64 \<Longrightarrow> float_ok (dec_digits n)"
proof -
  assume n: "n < 2 ^ 64"
  have digits: "\<forall>c\<in>set (dec_digits n). is_digit c" using dec_digits_all by blast
  have "hd (dec_digits n) \<noteq> 45"
    using digits dec_digits_nonempty [of n] by (cases "dec_digits n") (auto simp: is_digit_def)
  then have s: "(if dec_digits n \<noteq> [] \<and> hd (dec_digits n) = 45 then List.tl (dec_digits n) else dec_digits n)
      = dec_digits n" by simp
  have tw: "takeWhile is_digit (dec_digits n) = dec_digits n"
    using digits by (simp add: takeWhile_eq_all_conv)
  have dw: "dropWhile is_digit (dec_digits n) = []" using digits by simp
  have "n < float_limit" using n by (simp add: float_limit_def)
  moreover have "dec_val [] = 0" by (simp add: dec_val_def)
  ultimately show ?thesis unfolding float_ok_def Let_def s tw dw by simp
qed

lemma floats_ok_u64 [simp]: "floats_ok (enc_u64 w)"
  using float_ok_digits unat_lt2p [of w] by (simp add: enc_u64_def)

end
