(* ===== verification/Go_Time.thy ===== *)
theory Go_Time
  imports Go_Json
begin

text \<open>
  \<open>time.Time\<close> as the program uses it: a clock reading that is stored in a block or a
  vertex and written to and read from JSON.  A reading is its civil fields and its zone
  offset in minutes.  \<open>time.Now()\<close> is an input: every operation that reads the clock
  takes the reading as an argument.
\<close>

record gotime =
  t_year :: nat
  t_month :: nat
  t_day :: nat
  t_hour :: nat
  t_minute :: nat
  t_second :: nat
  t_nanosecond :: nat
  t_offset :: int

text \<open>The zero value of \<open>time.Time\<close>: January 1, year 1, 00:00:00 UTC.\<close>

definition zero_time :: gotime where
  "zero_time = \<lparr>t_year = 1, t_month = 1, t_day = 1, t_hour = 0, t_minute = 0, t_second = 0,
     t_nanosecond = 0, t_offset = 0\<rparr>"

section \<open>Decimal fields of a fixed width\<close>

primrec pad_digits :: "nat \<Rightarrow> nat \<Rightarrow> byte list" where
  "pad_digits 0 n = []"
| "pad_digits (Suc k) n = pad_digits k (n div 10) @ [of_nat (n mod 10 + 48)]"

lemma length_pad_digits [simp]: "length (pad_digits k n) = k"
  by (induction k arbitrary: n) auto

lemma pad_digits_all [simp]: "list_all is_digit (pad_digits k n)"
proof (induction k arbitrary: n)
  case (Suc k)
  then show ?case using digit_simps(1) [of "n mod 10"] by simp
qed simp

lemma dec_val_pad [simp]: "dec_val (pad_digits k n) = n mod 10 ^ k"
proof (induction k arbitrary: n)
  case 0
  show ?case by (simp add: dec_val_def)
next
  case (Suc k)
  have "dec_val (pad_digits (Suc k) n) = (n div 10) mod 10 ^ k * 10 + n mod 10"
    using Suc digit_simps(2) [of "n mod 10"] by (simp add: dec_val_snoc)
  also have "\<dots> = n mod (10 * 10 ^ k)" by (simp add: mod_mult2_eq)
  finally show ?case by simp
qed

section \<open>RFC 3339\<close>

text \<open>
  The layout \<open>RFC3339Nano\<close>, which drops trailing zeros of the fraction, and
  \<open>MarshalJSON\<close>, which refuses years beyond 9999 and zone offsets of 24 hours and more.
\<close>

definition trim_zeros :: "byte list \<Rightarrow> byte list" where
  "trim_zeros ds = rev (dropWhile (\<lambda>c. c = 48) (rev ds))"

definition fmt_fraction :: "nat \<Rightarrow> byte list" where
  "fmt_fraction ns = (if ns = 0 then [] else 46 # trim_zeros (pad_digits 9 ns))"

definition fmt_zone :: "int \<Rightarrow> byte list" where
  "fmt_zone off =
     (if off = 0 then [90]
      else (if off < 0 then 45 else 43) # pad_digits 2 (nat \<bar>off\<bar> div 60) @ 58 # pad_digits 2 (nat \<bar>off\<bar> mod 60))"

definition rfc3339 :: "gotime \<Rightarrow> byte list" where
  "rfc3339 t =
     pad_digits 4 (t_year t) @ 45 # pad_digits 2 (t_month t) @ 45 # pad_digits 2 (t_day t) @ 84
     # pad_digits 2 (t_hour t) @ 58 # pad_digits 2 (t_minute t) @ 58 # pad_digits 2 (t_second t)
     @ fmt_fraction (t_nanosecond t) @ fmt_zone (t_offset t)"

definition time_MarshalJSON :: "gotime \<Rightarrow> byte list option" where
  "time_MarshalJSON t =
     (if t_year t \<le> 9999 \<and> nat \<bar>t_offset t\<bar> div 60 < 24 then Some (34 # rfc3339 t @ [34]) else None)"

text \<open>
  \<open>parseRFC3339\<close>.  When it fails \<open>UnmarshalJSON\<close> falls back to the layout parser of the
  time package, which accepts a few forms beyond RFC 3339 (hours of one digit, a comma before
  the fraction); these are rejected here.
\<close>

definition days_in :: "nat \<Rightarrow> nat \<Rightarrow> nat" where
  "days_in month year =
     (if month = 2 then (if 4 dvd year \<and> (\<not> 100 dvd year \<or> 400 dvd year) then 29 else 28)
      else if month = 4 \<or> month = 6 \<or> month = 9 \<or> month = 11 then 30 else 31)"

definition parse_uint :: "nat \<Rightarrow> nat \<Rightarrow> byte list \<Rightarrow> nat option" where
  "parse_uint lo hi ds =
     (if list_all is_digit ds \<and> lo \<le> dec_val ds \<and> dec_val ds \<le> hi then Some (dec_val ds) else None)"

definition parse_zone :: "byte list \<Rightarrow> int option" where
  "parse_zone s =
     (if s = [90] then Some 0
      else if length s \<noteq> 6 then None
      else case parse_uint 0 23 (take 2 (drop 1 s)) of None \<Rightarrow> None | Some hr \<Rightarrow>
           case parse_uint 0 59 (take 2 (drop 4 s)) of None \<Rightarrow> None | Some mm \<Rightarrow>
             if (s ! 0 = 45 \<or> s ! 0 = 43) \<and> s ! 3 = 58
             then Some ((if s ! 0 = 45 then -1 else 1) * int (hr * 60 + mm)) else None)"

definition parse_nanoseconds :: "byte list \<Rightarrow> nat" where
  "parse_nanoseconds ds = dec_val (take 9 (ds @ replicate 9 48))"

definition parse_rfc3339 :: "byte list \<Rightarrow> gotime option" where
  "parse_rfc3339 s =
     (if length s < 19 then None else
      case parse_uint 0 9999 (take 4 s) of None \<Rightarrow> None | Some year \<Rightarrow>
      case parse_uint 1 12 (take 2 (drop 5 s)) of None \<Rightarrow> None | Some month \<Rightarrow>
      case parse_uint 1 (days_in month year) (take 2 (drop 8 s)) of None \<Rightarrow> None | Some day \<Rightarrow>
      case parse_uint 0 23 (take 2 (drop 11 s)) of None \<Rightarrow> None | Some hour \<Rightarrow>
      case parse_uint 0 59 (take 2 (drop 14 s)) of None \<Rightarrow> None | Some mi \<Rightarrow>
      case parse_uint 0 59 (take 2 (drop 17 s)) of None \<Rightarrow> None | Some sec \<Rightarrow>
      if \<not> (s ! 4 = 45 \<and> s ! 7 = 45 \<and> s ! 10 = 84 \<and> s ! 13 = 58 \<and> s ! 16 = 58) then None else
      (let r = drop 19 s;
           frac = (length r \<ge> 2 \<and> r ! 0 = 46 \<and> is_digit (r ! 1));
           ds = (if frac then takeWhile is_digit (drop 1 r) else []);
           ns = (if frac then parse_nanoseconds ds else 0);
           z = (if frac then drop (1 + length ds) r else r)
       in case parse_zone z of
            None \<Rightarrow> None
          | Some off \<Rightarrow> Some \<lparr>t_year = year, t_month = month, t_day = day, t_hour = hour, t_minute = mi,
                              t_second = sec, t_nanosecond = ns, t_offset = off\<rparr>))"

definition time_UnmarshalJSON :: "byte list \<Rightarrow> gotime \<Rightarrow> gotime option" where
  "time_UnmarshalJSON data old =
     (if data = str ''null'' then Some old
      else if length data < 2 \<or> hd data \<noteq> 34 \<or> last data \<noteq> 34 then None
      else parse_rfc3339 (butlast (List.tl data)))"

section \<open>What is printed is read\<close>

definition time_ok :: "gotime \<Rightarrow> bool" where
  "time_ok t \<longleftrightarrow> t_year t \<le> 9999 \<and> 1 \<le> t_month t \<and> t_month t \<le> 12
     \<and> 1 \<le> t_day t \<and> t_day t \<le> days_in (t_month t) (t_year t)
     \<and> t_hour t < 24 \<and> t_minute t < 60 \<and> t_second t < 60 \<and> t_nanosecond t < 10 ^ 9
     \<and> \<bar>t_offset t\<bar> < 1440"

lemma parse_uint_pad: "n < 10 ^ k \<Longrightarrow> lo \<le> n \<Longrightarrow> n \<le> hi \<Longrightarrow> parse_uint lo hi (pad_digits k n) = Some n"
  by (simp add: parse_uint_def)

lemma trim_zeros_replicate: "ds = trim_zeros ds @ replicate (length ds - length (trim_zeros ds)) 48"
proof -
  let ?z = "takeWhile (\<lambda>c. c = 48) (rev ds)"
  have z: "?z = replicate (length ?z) 48"
    by (metis (mono_tags, lifting) replicate_length_same set_takeWhileD)
  have "rev ds = ?z @ rev (trim_zeros ds)" by (simp add: trim_zeros_def)
  then have ds: "ds = trim_zeros ds @ rev ?z" by (metis rev_append rev_rev_ident)
  then have "length ds - length (trim_zeros ds) = length ?z"
    by (metis add_diff_cancel_left' length_append length_rev)
  then show ?thesis using ds z by (metis rev_replicate)
qed

lemma parse_nanoseconds_trim:
  "n < 10 ^ 9 \<Longrightarrow> parse_nanoseconds (trim_zeros (pad_digits 9 n)) = n"
proof -
  let ?p = "pad_digits 9 n" and ?t = "trim_zeros (pad_digits 9 n)"
  assume n: "n < 10 ^ 9"
  have p: "?p = ?t @ replicate (9 - length ?t) 48" using trim_zeros_replicate [of ?p] by simp
  have "length ?p = length ?t + (9 - length ?t)" by (subst p) simp
  then have len: "length ?t \<le> 9" by simp
  then have "take 9 (?t @ replicate 9 48) = ?t @ replicate (9 - length ?t) 48"
    by (simp add: min_def)
  then show ?thesis using p n by (simp add: parse_nanoseconds_def)
qed

lemma trim_zeros_digits: "list_all is_digit (trim_zeros (pad_digits k n))"
  using pad_digits_all [of k n] by (auto simp: trim_zeros_def list_all_iff dest: set_dropWhileD)

lemma trim_zeros_nonempty: "n < 10 ^ k \<Longrightarrow> n \<noteq> 0 \<Longrightarrow> trim_zeros (pad_digits k n) \<noteq> []"
proof
  assume n: "n < 10 ^ k" "n \<noteq> 0" and "trim_zeros (pad_digits k n) = []"
  then have "pad_digits k n = replicate k 48" using trim_zeros_replicate [of "pad_digits k n"] by simp
  moreover have "dec_val (replicate k 48) = 0"
    by (induction k rule: nat.induct) (simp_all add: dec_val_def flip: replicate_append_same)
  ultimately show False using n dec_val_pad [of k n] by simp
qed

lemma fmt_zone_first: "fmt_zone off \<noteq> [] \<and> \<not> is_digit (hd (fmt_zone off)) \<and> hd (fmt_zone off) \<noteq> 46"
  by (simp add: fmt_zone_def is_digit_def)

lemma parse_fmt_zone: "\<bar>off\<bar> < 1440 \<Longrightarrow> parse_zone (fmt_zone off) = Some off"
proof -
  assume a: "\<bar>off\<bar> < 1440"
  let ?h = "nat \<bar>off\<bar> div 60" and ?m = "nat \<bar>off\<bar> mod 60"
  have h: "?h \<le> 23" and m: "?m \<le> 59" using a by auto
  have hp: "parse_uint 0 23 (pad_digits 2 ?h) = Some ?h" using h by (intro parse_uint_pad) auto
  have mp: "parse_uint 0 59 (pad_digits 2 ?m) = Some ?m" using m by (intro parse_uint_pad) auto
  have "int (?h * 60 + ?m) = \<bar>off\<bar>" by simp
  then show ?thesis
    using hp mp by (simp add: parse_zone_def fmt_zone_def nth_append take_append drop_append del: of_nat_add of_nat_mult)
qed

lemma fraction_and_zone:
  fixes off :: int
  assumes "ns < 10 ^ 9"
  defines "r \<equiv> fmt_fraction ns @ fmt_zone off"
  shows "length r \<ge> 2 \<and> r ! 0 = 46 \<and> is_digit (r ! 1) \<longleftrightarrow> ns \<noteq> 0"
    and "ns \<noteq> 0 \<Longrightarrow> takeWhile is_digit (drop 1 r) = trim_zeros (pad_digits 9 ns)"
    and "ns \<noteq> 0 \<Longrightarrow> drop (1 + length (trim_zeros (pad_digits 9 ns))) r = fmt_zone off"
proof -
  let ?t = "trim_zeros (pad_digits 9 ns)"
  obtain c z where z: "fmt_zone off = c # z" "\<not> is_digit c" "c \<noteq> 46"
    using fmt_zone_first [of off] by (cases "fmt_zone off") auto
  have digits: "\<forall>c\<in>set ?t. is_digit c" using trim_zeros_digits [of 9 ns] by (simp add: list_all_iff)
  show "length r \<ge> 2 \<and> r ! 0 = 46 \<and> is_digit (r ! 1) \<longleftrightarrow> ns \<noteq> 0"
  proof (cases "ns = 0")
    case True
    then show ?thesis using z by (simp add: r_def fmt_fraction_def)
  next
    case False
    then obtain a t where "?t = a # t" using trim_zeros_nonempty [OF assms(1)] by (cases ?t) auto
    then show ?thesis using False digits by (simp add: r_def fmt_fraction_def)
  qed
  show "takeWhile is_digit (drop 1 r) = ?t" if "ns \<noteq> 0"
    using that digits z by (simp add: r_def fmt_fraction_def)
  show "drop (1 + length ?t) r = fmt_zone off" if "ns \<noteq> 0"
    using that by (simp add: r_def fmt_fraction_def)
qed

lemma parse_rfc3339_print:
  assumes "time_ok t"
  shows "parse_rfc3339 (rfc3339 t) = Some t"
proof -
  let ?r = "fmt_fraction (t_nanosecond t) @ fmt_zone (t_offset t)"
  define s where "s = rfc3339 t"
  have s: "s = pad_digits 4 (t_year t) @ 45 # pad_digits 2 (t_month t) @ 45 # pad_digits 2 (t_day t) @ 84
     # pad_digits 2 (t_hour t) @ 58 # pad_digits 2 (t_minute t) @ 58 # pad_digits 2 (t_second t) @ ?r"
    by (simp add: s_def rfc3339_def)
  have dim: "days_in m y \<le> 31" for m y by (simp add: days_in_def)
  have fields: "take 4 s = pad_digits 4 (t_year t)" "take 2 (drop 5 s) = pad_digits 2 (t_month t)"
    "take 2 (drop 8 s) = pad_digits 2 (t_day t)" "take 2 (drop 11 s) = pad_digits 2 (t_hour t)"
    "take 2 (drop 14 s) = pad_digits 2 (t_minute t)" "take 2 (drop 17 s) = pad_digits 2 (t_second t)"
    "drop 19 s = ?r" "\<not> length s < 19"
    unfolding s by simp_all
  have marks: "s ! 4 = 45 \<and> s ! 7 = 45 \<and> s ! 10 = 84 \<and> s ! 13 = 58 \<and> s ! 16 = 58"
    unfolding s by (simp add: nth_append)
  have year: "parse_uint 0 9999 (pad_digits 4 (t_year t)) = Some (t_year t)"
    and month: "parse_uint 1 12 (pad_digits 2 (t_month t)) = Some (t_month t)"
    and day: "parse_uint 1 (days_in (t_month t) (t_year t)) (pad_digits 2 (t_day t)) = Some (t_day t)"
    and hour: "parse_uint 0 23 (pad_digits 2 (t_hour t)) = Some (t_hour t)"
    and minute: "parse_uint 0 59 (pad_digits 2 (t_minute t)) = Some (t_minute t)"
    and sec: "parse_uint 0 59 (pad_digits 2 (t_second t)) = Some (t_second t)"
    using assms dim [of "t_month t" "t_year t"] unfolding time_ok_def by (intro parse_uint_pad; simp)+
  have zone: "parse_zone (fmt_zone (t_offset t)) = Some (t_offset t)"
    using assms by (intro parse_fmt_zone) (simp add: time_ok_def)
  have ns: "t_nanosecond t < 10 ^ 9" using assms by (simp add: time_ok_def)
  note f = fraction_and_zone [OF ns, of "t_offset t"]
  show ?thesis
  proof (cases "t_nanosecond t = 0")
    case True
    then have nofrac: "\<not> (length ?r \<ge> 2 \<and> ?r ! 0 = 46 \<and> is_digit (?r ! 1))" using f(1) by simp
    have r: "?r = fmt_zone (t_offset t)" using True by (simp add: fmt_fraction_def)
    show ?thesis
      unfolding s_def [symmetric] parse_rfc3339_def fields if_not_P [OF fields(8)] Let_def
        if_not_P [OF nofrac] unfolding r
      using True year month day hour minute sec zone marks by (simp del: One_nat_def)
  next
    case False
    then have frac: "length ?r \<ge> 2 \<and> ?r ! 0 = 46 \<and> is_digit (?r ! 1)" using f(1) by simp
    show ?thesis
      unfolding s_def [symmetric] parse_rfc3339_def fields if_not_P [OF fields(8)] Let_def
        if_P [OF frac] f(2) [OF False] f(3) [OF False] parse_nanoseconds_trim [OF ns]
      using year month day hour minute sec zone marks by (simp del: One_nat_def)
  qed
qed

lemma fmt_zone_chars: "c \<in> set (fmt_zone off) \<Longrightarrow> is_digit c \<or> c = 90 \<or> c = 45 \<or> c = 43 \<or> c = 58"
  using pad_digits_all unfolding fmt_zone_def list_all_iff by (fastforce split: if_splits)

lemma rfc3339_chars: "c \<in> set (rfc3339 t) \<Longrightarrow> is_digit c \<or> c \<in> {90, 45, 43, 58, 46, 84}"
  using pad_digits_all trim_zeros_digits fmt_zone_chars [of c "t_offset t"]
  unfolding rfc3339_def list_all_iff fmt_fraction_def by (fastforce split: if_splits)

lemma raw_ok_rfc3339 [simp]: "raw_ok (rfc3339 t)"
  unfolding raw_ok_def list_all_iff
proof
  fix c assume "c \<in> set (rfc3339 t)"
  from rfc3339_chars [OF this] show "c \<noteq> 34 \<and> c \<noteq> 92 \<and> \<not> c < 32"
    by (auto simp: is_digit_def word_le_nat_alt word_less_nat_alt)
qed

theorem time_round_trip:
  assumes "time_ok t"
  shows "\<exists>data. time_MarshalJSON t = Some data \<and> time_UnmarshalJSON data old = Some t"
proof -
  have "\<bar>t_offset t\<bar> < 1440" using assms by (simp add: time_ok_def)
  then have "nat \<bar>t_offset t\<bar> < 1440" by linarith
  then have "nat \<bar>t_offset t\<bar> div 60 < 24" by simp
  then have "time_MarshalJSON t = Some (34 # rfc3339 t @ [34])"
    using assms by (simp add: time_MarshalJSON_def time_ok_def)
  moreover have "time_UnmarshalJSON (34 # rfc3339 t @ [34]) old = Some t"
    using parse_rfc3339_print [OF assms] by (simp add: time_UnmarshalJSON_def str_def)
  ultimately show ?thesis by simp
qed

lemma length_rfc3339: "length (rfc3339 t) \<le> 35"
proof -
  have "length (fmt_fraction ns) \<le> 10" for ns
    using length_dropWhile_le [of "\<lambda>c. c = 48" "rev (pad_digits 9 ns)"]
    by (simp add: fmt_fraction_def trim_zeros_def)
  moreover have "length (fmt_zone off) \<le> 6" for off by (simp add: fmt_zone_def)
  ultimately have "length (fmt_fraction (t_nanosecond t)) + length (fmt_zone (t_offset t)) \<le> 10 + 6"
    by (intro add_mono)
  then show ?thesis by (simp add: rfc3339_def)
qed

end
