(* ===== verification/Model_Block.thy ===== *)
theory Model_Block
  imports Model_Types Go_Encoding Go_Time
begin

text \<open>
  pkg/model/block.go: blocks and their hash.

  blake3 is not part of the repository; it is the parameter \<open>blake\<close> of every definition
  that hashes, a function from the bytes written to the hasher to the sum.  A Go slice that
  may be nil is \<open>None\<close> or \<open>Some\<close> of its elements (\<open>elems\<close> reads either); nil and
  empty differ only in JSON.
\<close>

definition elems :: "'a list option \<Rightarrow> 'a list" where
  "elems s = (case s of None \<Rightarrow> [] | Some xs \<Rightarrow> xs)"

lemma elems_simps [simp]: "elems None = []" "elems (Some xs) = xs"
  by (simp_all add: elems_def)

section \<open>State and operations\<close>

record block =
  b_hash :: "block_hash option"
  b_height :: u64
  b_transactions :: "transaction list option"
  b_timestamp :: gotime

text \<open>The bytes written to the hasher: the height, then every transaction.\<close>

definition block_hash_input :: "block \<Rightarrow> byte list" where
  "block_hash_input b = put_u64 (b_height b) @ concat (elems (b_transactions b))"

definition block_calculateHash :: "(byte list \<Rightarrow> byte list) \<Rightarrow> block \<Rightarrow> block_hash" where
  "block_calculateHash blake b = array32 (blake (block_hash_input b))"

definition NewBlock ::
  "(byte list \<Rightarrow> byte list) \<Rightarrow> gotime \<Rightarrow> u64 \<Rightarrow> transaction list option \<Rightarrow> block" where
  "NewBlock blake now height txs =
     (let b = \<lparr>b_hash = None, b_height = height, b_transactions = txs, b_timestamp = now\<rparr>;
          hash = block_calculateHash blake b
      in b\<lparr>b_hash := Some hash\<rparr>)"

text \<open>\<open>Hash\<close> fills the cached hash when it is nil: it returns the hash and the block.\<close>

definition Block_Hash :: "(byte list \<Rightarrow> byte list) \<Rightarrow> block \<Rightarrow> block_hash \<times> block" where
  "Block_Hash blake b =
     (case b_hash b of
        Some h \<Rightarrow> (h, b)
      | None \<Rightarrow> (let h = block_calculateHash blake b in (h, b\<lparr>b_hash := Some h\<rparr>)))"

text \<open>\<open>String\<close> slices the cached hash, so it panics (\<open>None\<close>) while that is nil.\<close>

definition Block_String :: "block \<Rightarrow> byte list option" where
  "Block_String b =
     (case b_hash b of
        None \<Rightarrow> None
      | Some h \<Rightarrow>
          Some (str ''Block(hash='' @ hex_encode (bytes_of h) @ str '', height=''
            @ dec_digits (unat (b_height b)) @ str '', tx_count=''
            @ dec_digits (length (elems (b_transactions b))) @ str '')''))"

section \<open>Properties\<close>

text \<open>A block whose cached hash, when present, is the hash of its contents.\<close>

definition block_ok :: "(byte list \<Rightarrow> byte list) \<Rightarrow> block \<Rightarrow> bool" where
  "block_ok blake b \<longleftrightarrow> (case b_hash b of None \<Rightarrow> True | Some h \<Rightarrow> h = block_calculateHash blake b)"

lemma block_hash_input_cong [simp]:
  "block_hash_input (b\<lparr>b_hash := x\<rparr>) = block_hash_input b"
  "block_hash_input (b\<lparr>b_timestamp := t\<rparr>) = block_hash_input b"
  by (simp_all add: block_hash_input_def)

lemma block_calculateHash_cong [simp]:
  "block_calculateHash blake (b\<lparr>b_hash := x\<rparr>) = block_calculateHash blake b"
  "block_calculateHash blake (b\<lparr>b_timestamp := t\<rparr>) = block_calculateHash blake b"
  by (simp_all add: block_calculateHash_def)

lemma NewBlock_simps [simp]:
  "b_height (NewBlock blake now h txs) = h"
  "b_transactions (NewBlock blake now h txs) = txs"
  "b_timestamp (NewBlock blake now h txs) = now"
  by (simp_all add: NewBlock_def Let_def)

lemma b_hash_NewBlock [simp]:
  "b_hash (NewBlock blake now h txs)
   = Some (array32 (blake (put_u64 h @ concat (elems txs))))"
  by (simp add: NewBlock_def Let_def block_calculateHash_def block_hash_input_def)

lemma block_ok_NewBlock [simp, intro]: "block_ok blake (NewBlock blake now h txs)"
  by (simp add: block_ok_def block_calculateHash_def block_hash_input_def)

lemma Block_Hash_ok:
  "block_ok blake b \<Longrightarrow> Block_Hash blake b = (h, b') \<Longrightarrow>
     h = block_calculateHash blake b \<and> b_hash b' = Some h \<and> block_ok blake b'
     \<and> b_height b' = b_height b \<and> b_transactions b' = b_transactions b
     \<and> b_timestamp b' = b_timestamp b"
  by (auto simp: Block_Hash_def block_ok_def Let_def split: option.splits)

lemma fst_Block_Hash_cached [simp]: "b_hash b = Some h \<Longrightarrow> Block_Hash blake b = (h, b)"
  by (simp add: Block_Hash_def)

lemma block_hash_input_eq_iff:
  "block_hash_input b = block_hash_input c \<longleftrightarrow>
     b_height b = b_height c
     \<and> concat (elems (b_transactions b)) = concat (elems (b_transactions c))"
  unfolding block_hash_input_def
  by (simp add: append_eq_append_conv)

end
