(* ===== verification/Model_Vertex.thy ===== *)
theory Model_Vertex
  imports Model_Block
begin

text \<open>
  pkg/model/vertex.go: vertices, their parents and their hash.  The parents map is a Go map
  from hashes to rounds; the model does not distinguish a nil map from an empty one (every
  constructor of the program makes the map, so only \<open>AddParent\<close> on a hand-built vertex
  could see the difference).
\<close>

section \<open>State and operations\<close>

record vertex =
  vx_hash :: vertex_hash
  vx_owner :: node_public_key
  vx_block :: "block option"
  vx_parents :: "(vertex_hash, round) gomap"
  vx_round :: round
  vx_wave :: wave
  vx_timestamp :: gotime

text \<open>
  The bytes \<open>calculateHash\<close> writes to the hasher: owner, round, wave, the hash of the
  block (32 zero bytes without one), then the parents in ascending order of their hashes,
  each followed by its round.  \<open>map_of\<close> reads the parents map; the keys come from the map
  itself, so the lookup of a missing key (Go's zero) cannot happen.
\<close>

definition parent_entry :: "(vertex_hash, round) gomap \<Rightarrow> vertex_hash \<Rightarrow> byte list" where
  "parent_entry parents h =
     bytes_of h @ put_u64 (case map_of parents h of None \<Rightarrow> 0 | Some r \<Rightarrow> r)"

definition vertex_hash_input :: "vertex \<Rightarrow> block_hash \<Rightarrow> byte list" where
  "vertex_hash_input v bh =
     bytes_of (vx_owner v) @ put_u64 (vx_round v) @ put_u64 (vx_wave v) @ bytes_of bh
     @ concat (map (parent_entry (vx_parents v)) (sort (map fst (vx_parents v))))"

text \<open>
  Hashing the block may fill the block's cached hash, so \<open>calculateHash\<close> returns the
  vertex too.
\<close>

definition vertex_calculateHash ::
  "(byte list \<Rightarrow> byte list) \<Rightarrow> vertex \<Rightarrow> vertex_hash \<times> vertex" where
  "vertex_calculateHash blake v =
     (case vx_block v of
        None \<Rightarrow> (array32 (blake (vertex_hash_input v zero32)), v)
      | Some b \<Rightarrow>
          (let (bh, b') = Block_Hash blake b
           in (array32 (blake (vertex_hash_input v bh)), v\<lparr>vx_block := Some b'\<rparr>)))"

definition NewVertex ::
  "(byte list \<Rightarrow> byte list) \<Rightarrow> gotime \<Rightarrow> node_public_key \<Rightarrow> round \<Rightarrow> block option
   \<Rightarrow> (vertex_hash, round) gomap \<Rightarrow> vertex" where
  "NewVertex blake now owner round block parents =
     (let v = \<lparr>vx_hash = zero32, vx_owner = owner, vx_block = block, vx_parents = parents,
               vx_round = round, vx_wave = 1, vx_timestamp = now\<rparr>;
          (hash, v') = vertex_calculateHash blake v
      in v'\<lparr>vx_hash := hash\<rparr>)"

text \<open>One genesis vertex per node, in round 1; \<open>clock\<close> gives the successive readings.\<close>

definition Genesis ::
  "(byte list \<Rightarrow> byte list) \<Rightarrow> (nat \<Rightarrow> gotime) \<Rightarrow> node_public_key list \<Rightarrow> vertex list" where
  "Genesis blake clock nodes =
     map (\<lambda>(i, owner).
            NewVertex blake (clock (2 * i + 1)) owner 1
              (Some (NewBlock blake (clock (2 * i)) 0 None)) [])
         (enumerate 0 nodes)"

definition AddParent :: "vertex_hash \<Rightarrow> round \<Rightarrow> vertex \<Rightarrow> vertex" where
  "AddParent parentHash round v = v\<lparr>vx_parents := AList.update parentHash round (vx_parents v)\<rparr>"

text \<open>The subtraction is on \<open>uint64\<close> and wraps.\<close>

definition isPreviousRound :: "vertex \<Rightarrow> round \<Rightarrow> bool" where
  "isPreviousRound v round \<longleftrightarrow> vx_round v - round = 1"

definition GetStrongParents :: "vertex \<Rightarrow> (vertex_hash, round) gomap" where
  "GetStrongParents v = filter (\<lambda>(hash, round). isPreviousRound v round) (vx_parents v)"

definition GetAllParents :: "vertex \<Rightarrow> (vertex_hash, round) gomap" where
  "GetAllParents v = fold (\<lambda>(hash, round) parents. AList.update hash round parents) (vx_parents v) []"

definition IsWeakParent :: "vertex \<Rightarrow> vertex_hash \<Rightarrow> bool" where
  "IsWeakParent v hash =
     (case map_of (vx_parents v) hash of
        Some round \<Rightarrow> \<not> isPreviousRound v round
      | None \<Rightarrow> False)"

definition Vertex_String :: "vertex \<Rightarrow> byte list" where
  "Vertex_String v =
     str ''Vertex ('' @ dec_digits (unat (vx_round v)) @ str '', ''
     @ b64_encode (bytes_of (vx_hash v)) @ str '') [owner: ''
     @ b64_encode (bytes_of (vx_owner v)) @ str '']''"

section \<open>Well-formed vertices\<close>

text \<open>
  \<open>vertex_ok\<close>: the parents are a map, the cached block hash (when present) is right, and
  the stored hash is the hash of the contents.
\<close>

definition vertex_ok :: "(byte list \<Rightarrow> byte list) \<Rightarrow> vertex \<Rightarrow> bool" where
  "vertex_ok blake v \<longleftrightarrow>
     gomap_ok (vx_parents v)
     \<and> (case vx_block v of None \<Rightarrow> True | Some b \<Rightarrow> block_ok blake b)
     \<and> vx_hash v = fst (vertex_calculateHash blake v)"

text \<open>The hash that a vertex's block contributes.\<close>

definition vertex_block_hash :: "(byte list \<Rightarrow> byte list) \<Rightarrow> vertex \<Rightarrow> block_hash" where
  "vertex_block_hash blake v =
     (case vx_block v of None \<Rightarrow> zero32 | Some b \<Rightarrow> fst (Block_Hash blake b))"

lemma fst_vertex_calculateHash:
  "fst (vertex_calculateHash blake v)
   = array32 (blake (vertex_hash_input v (vertex_block_hash blake v)))"
  by (simp add: vertex_calculateHash_def vertex_block_hash_def split: option.splits prod.splits)

lemma length_parent_entry [simp]: "length (parent_entry p h) = 40"
  by (simp add: parent_entry_def)

text \<open>The hashed bytes determine the parents as a map, and nothing but the map.\<close>

lemma parents_bytes_iff:
  assumes p: "gomap_ok p" and q: "gomap_ok q"
  shows "concat (map (parent_entry p) (sort (map fst p)))
         = concat (map (parent_entry q) (sort (map fst q))) \<longleftrightarrow> map_of p = map_of q"
    (is "concat (map _ ?P) = concat (map _ ?Q) \<longleftrightarrow> _")
proof
  assume "concat (map (parent_entry p) ?P) = concat (map (parent_entry q) ?Q)"
  then have eq: "map (parent_entry p) ?P = map (parent_entry q) ?Q"
    by (subst (asm) concat_fixed_width [where n = 40]) auto
  have hd: "take 32 (parent_entry m h) = bytes_of h" for m h
    by (simp add: parent_entry_def)
  have "map (bytes_of :: bytes32 \<Rightarrow> _) ?P = map bytes_of ?Q"
    using arg_cong [OF eq, of "map (take 32)"] by (simp add: comp_def hd)
  then have keys: "?P = ?Q" by (rule map_injective) (simp add: inj_def)
  have dom: "fst ` set p = fst ` set q"
    using arg_cong [OF keys, of set] by simp
  have "map_of p h = map_of q h" for h
  proof (cases "h \<in> fst ` set p")
    case True
    then have "h \<in> set ?P" by simp
    then have "parent_entry p h = parent_entry q h"
      using eq keys by (simp only: map_eq_conv)
    moreover obtain r s where "map_of p h = Some r" and "map_of q h = Some s"
      using True dom map_of_None_iff [of p h] map_of_None_iff [of q h] by auto
    ultimately show ?thesis by (simp add: parent_entry_def)
  next
    case False
    then show ?thesis
      using dom map_of_None_iff [of p h] map_of_None_iff [of q h] by auto
  qed
  then show "map_of p = map_of q" by (rule ext)
next
  assume eq: "map_of p = map_of q"
  then have "parent_entry p = parent_entry q"
    by (simp add: parent_entry_def fun_eq_iff)
  moreover have "?P = ?Q"
  proof (rule properties_for_sort)
    have "set (map fst p) = set (map fst q)"
      using arg_cong [OF eq, of dom] by (simp add: dom_map_of_conv_image_fst)
    then have "mset (map fst p) = mset (map fst q)"
      using p q unfolding gomap_ok_def by (subst (asm) set_eq_iff_mset_eq_distinct) auto
    then show "mset ?Q = mset (map fst p)" by (simp only: mset_sort)
  qed simp
  ultimately show "concat (map (parent_entry p) ?P) = concat (map (parent_entry q) ?Q)"
    by simp
qed

lemma vertex_hash_input_eq_iff:
  assumes "gomap_ok (vx_parents v)" and "gomap_ok (vx_parents w)"
  shows "vertex_hash_input v bh = vertex_hash_input w ch \<longleftrightarrow>
     vx_owner v = vx_owner w \<and> vx_round v = vx_round w \<and> vx_wave v = vx_wave w \<and> bh = ch
     \<and> map_of (vx_parents v) = map_of (vx_parents w)"
  unfolding vertex_hash_input_def
  by (simp add: append_eq_append_conv parents_bytes_iff [OF assms])

lemma vertex_hash_input_cong [simp]:
  "vertex_hash_input (v\<lparr>vx_hash := h\<rparr>) bh = vertex_hash_input v bh"
  "vertex_hash_input (v\<lparr>vx_block := b\<rparr>) bh = vertex_hash_input v bh"
  "vertex_hash_input (v\<lparr>vx_timestamp := t\<rparr>) bh = vertex_hash_input v bh"
  by (simp_all add: vertex_hash_input_def)

lemma vertex_block_hash_cong [simp]:
  "vertex_block_hash blake (v\<lparr>vx_hash := h\<rparr>) = vertex_block_hash blake v"
  "vertex_block_hash blake (v\<lparr>vx_parents := p\<rparr>) = vertex_block_hash blake v"
  by (simp_all add: vertex_block_hash_def)

lemma Block_Hash_stable: "Block_Hash blake b = (h, b') \<Longrightarrow> Block_Hash blake b' = (h, b')"
  by (auto simp: Block_Hash_def Let_def split: option.splits)

lemma vertex_calculateHash_snd:
  "snd (vertex_calculateHash blake v) =
     (case vx_block v of None \<Rightarrow> v | Some b \<Rightarrow> v\<lparr>vx_block := Some (snd (Block_Hash blake b))\<rparr>)"
  by (simp add: vertex_calculateHash_def split: option.splits prod.splits)

lemma NewVertex_simps [simp]:
  "vx_owner (NewVertex blake now ow r b p) = ow"
  "vx_parents (NewVertex blake now ow r b p) = p"
  "vx_round (NewVertex blake now ow r b p) = r"
  "vx_wave (NewVertex blake now ow r b p) = 1"
  "vx_timestamp (NewVertex blake now ow r b p) = now"
  by (simp_all add: NewVertex_def Let_def vertex_calculateHash_snd split: prod.splits option.splits)
     (auto simp: vertex_calculateHash_def split: option.splits prod.splits)

section \<open>What the hash binds\<close>

text \<open>
  The hash of a block ignores where one transaction ends and the next begins.
\<close>

theorem block_hash_ignores_boundaries:
  "b_hash (NewBlock blake now h (Some (pre @ [x @ y] @ post)))
     = b_hash (NewBlock blake now' h (Some (pre @ [x, y] @ post)))"
  by simp

text \<open>What is hashed for a vertex: its own bytes and those of its block.\<close>

definition vertex_inputs :: "(byte list \<Rightarrow> byte list) \<Rightarrow> vertex \<Rightarrow> byte list set" where
  "vertex_inputs blake v =
     insert (vertex_hash_input v (vertex_block_hash blake v)) (block_hash_input ` set_option (vx_block v))"

lemma vertex_hash_determines:
  assumes "vertex_ok blake v" and "vertex_ok blake w" and "vx_hash v = vx_hash w"
    and "inj_on (\<lambda>x. array32 (blake x)) (vertex_inputs blake v \<union> vertex_inputs blake w)"
  shows "vx_owner v = vx_owner w \<and> vx_round v = vx_round w \<and> vx_wave v = vx_wave w
     \<and> map_of (vx_parents v) = map_of (vx_parents w)
     \<and> (\<forall>b\<in>set_option (vx_block v). \<forall>c\<in>set_option (vx_block w).
          b_height b = b_height c \<and> concat (elems (b_transactions b)) = concat (elems (b_transactions c)))"
proof -
  have "array32 (blake (vertex_hash_input v (vertex_block_hash blake v)))
      = array32 (blake (vertex_hash_input w (vertex_block_hash blake w)))"
    using assms(1-3) by (simp add: vertex_ok_def fst_vertex_calculateHash)
  then have "vertex_hash_input v (vertex_block_hash blake v) = vertex_hash_input w (vertex_block_hash blake w)"
    by (rule inj_onD [OF assms(4)]) (simp_all add: vertex_inputs_def)
  then have eq: "vx_owner v = vx_owner w \<and> vx_round v = vx_round w \<and> vx_wave v = vx_wave w
     \<and> vertex_block_hash blake v = vertex_block_hash blake w
     \<and> map_of (vx_parents v) = map_of (vx_parents w)"
    using assms(1,2) by (simp add: vertex_hash_input_eq_iff vertex_ok_def)
  have hash: "vertex_block_hash blake u = block_calculateHash blake b"
    if "vertex_ok blake u" "vx_block u = Some b" for u b
    using that by (auto simp: vertex_block_hash_def vertex_ok_def block_ok_def Block_Hash_def Let_def
        split: option.splits)
  have "block_hash_input b = block_hash_input c" if "vx_block v = Some b" "vx_block w = Some c" for b c
  proof (rule inj_onD [OF assms(4)])
    show "array32 (blake (block_hash_input b)) = array32 (blake (block_hash_input c))"
      using that hash [OF assms(1) that(1)] hash [OF assms(2) that(2)] eq
      by (simp add: block_calculateHash_def)
  qed (use that in \<open>simp_all add: vertex_inputs_def\<close>)
  then show ?thesis using eq by (auto simp: block_hash_input_eq_iff)
qed

text \<open>
  Under a collision-free hash two well-formed vertices with the same hash agree in
  owner, round, wave, parents and, where both have a block, in its height and in the bytes
  of its transactions.
\<close>

theorem vertex_hash_binding:
  assumes "vertex_ok blake v" and "vertex_ok blake w" and "vx_hash v = vx_hash w"
    and "inj_on (\<lambda>x. array32 (blake x)) (vertex_inputs blake v \<union> vertex_inputs blake w)"
  shows "vx_owner v = vx_owner w \<and> vx_round v = vx_round w \<and> vx_wave v = vx_wave w
     \<and> map_of (vx_parents v) = map_of (vx_parents w)
     \<and> (\<forall>b\<in>set_option (vx_block v). \<forall>c\<in>set_option (vx_block w).
          b_height b = b_height c \<and> concat (elems (b_transactions b)) = concat (elems (b_transactions c)))"
  using assms by (rule vertex_hash_determines)

lemma NewVertex_ok:
  assumes "gomap_ok ps" and "\<forall>b\<in>set_option blk. block_ok blake b"
  shows "vertex_ok blake (NewVertex blake now ow r blk ps)"
proof (cases blk)
  case None
  then show ?thesis
    using assms(1) by (simp add: vertex_ok_def NewVertex_def vertex_calculateHash_def Let_def vertex_hash_input_def)
next
  case (Some b)
  obtain h b' where bh: "Block_Hash blake b = (h, b')" by (cases "Block_Hash blake b")
  have "block_ok blake b'" using Block_Hash_ok [OF _ bh] assms(2) Some by simp
  then show ?thesis
    using assms(1) Some bh Block_Hash_stable [OF bh]
    by (simp add: vertex_ok_def NewVertex_def vertex_calculateHash_def Let_def vertex_hash_input_def)
qed

theorem vertex_hash_binding_witness:
  "vx_round (NewVertex rev zero_time zero32 5 None []) = 5
   \<and> map_of (vx_parents (NewVertex rev zero_time zero32 5 None [])) = Map.empty"
proof -
  let ?v = "NewVertex rev zero_time zero32 5 None []"
  let ?w = "\<lparr>vx_hash = vx_hash ?v, vx_owner = zero32, vx_block = None, vx_parents = [], vx_round = 5,
             vx_wave = 1, vx_timestamp = zero_time\<rparr>"
  have v: "vertex_ok rev ?v" by (simp add: NewVertex_ok)
  have w: "vertex_ok rev ?w" by (simp add: vertex_ok_def NewVertex_def vertex_calculateHash_def Let_def vertex_hash_input_def)
  have "vx_owner ?v = vx_owner ?w \<and> vx_round ?v = vx_round ?w \<and> vx_wave ?v = vx_wave ?w
     \<and> map_of (vx_parents ?v) = map_of (vx_parents ?w)"
    using vertex_hash_binding [OF v w]
    by (simp add: vertex_inputs_def vertex_block_hash_def vertex_hash_input_def NewVertex_def vertex_calculateHash_def Let_def)
  then show ?thesis by simp
qed

text \<open>
  \<open>AddParent\<close> changes the parents and leaves the hash: the vertex no longer hashes to its
  hash, and with that hash it is stored and referred to.
\<close>

lemma AddParent_fields [simp]:
  "vx_hash (AddParent h r v) = vx_hash v" "vx_owner (AddParent h r v) = vx_owner v"
  "vx_block (AddParent h r v) = vx_block v" "vx_round (AddParent h r v) = vx_round v"
  "vx_wave (AddParent h r v) = vx_wave v"
  "vx_parents (AddParent h r v) = AList.update h r (vx_parents v)"
  by (simp_all add: AddParent_def)

theorem AddParent_stale_hash:
  assumes "vertex_ok blake v" and "map_of (vx_parents v) h \<noteq> Some r"
    and "inj_on (\<lambda>x. array32 (blake x))
           {vertex_hash_input v (vertex_block_hash blake v),
            vertex_hash_input (AddParent h r v) (vertex_block_hash blake v)}"
  shows "vx_hash (AddParent h r v) = vx_hash v \<and> map_of (vx_parents (AddParent h r v)) h = Some r
     \<and> \<not> vertex_ok blake (AddParent h r v)"
proof -
  have ok: "gomap_ok (vx_parents v)" using assms(1) by (simp add: vertex_ok_def)
  have bh: "vertex_block_hash blake (AddParent h r v) = vertex_block_hash blake v"
    by (simp add: vertex_block_hash_def)
  have "map_of (vx_parents (AddParent h r v)) \<noteq> map_of (vx_parents v)"
    using assms(2) by (auto dest: fun_cong [of _ _ h])
  then have "vertex_hash_input (AddParent h r v) (vertex_block_hash blake v)
      \<noteq> vertex_hash_input v (vertex_block_hash blake v)"
    using vertex_hash_input_eq_iff [of "AddParent h r v" v] ok by auto
  then have "array32 (blake (vertex_hash_input (AddParent h r v) (vertex_block_hash blake v)))
      \<noteq> array32 (blake (vertex_hash_input v (vertex_block_hash blake v)))"
    using assms(3) by (auto simp: inj_on_def)
  then show ?thesis
    using assms(1) by (auto simp: vertex_ok_def fst_vertex_calculateHash bh)
qed

theorem AddParent_stale_hash_witness:
  "\<not> vertex_ok rev (AddParent (array32 [1]) 4 (NewVertex rev zero_time zero32 5 None []))"
proof -
  let ?v = "NewVertex rev zero_time zero32 5 None []"
  have bh: "vertex_block_hash rev ?v = zero32"
    by (simp add: vertex_block_hash_def NewVertex_def vertex_calculateHash_def Let_def)
  have in1: "vertex_hash_input ?v zero32
      = bytes_of zero32 @ put_u64 5 @ put_u64 1 @ bytes_of zero32"
    by (simp add: vertex_hash_input_def)
  have in2: "vertex_hash_input (AddParent (array32 [1]) 4 ?v) zero32
      = bytes_of zero32 @ put_u64 5 @ put_u64 1 @ bytes_of zero32 @ bytes_of (array32 [1]) @ put_u64 4"
    by (simp add: vertex_hash_input_def parent_entry_def)
  have zero: "bytes_of zero32 = replicate 32 0" by (simp add: zero32_def array32.rep_eq go_copy_def)
  have four: "put_u64 4 = replicate 7 0 @ [4]" by code_simp
  have first: "bytes_of (array32 bs) ! 0 = bs ! 0" if "32 \<le> length bs" for bs
    using that by (simp add: array32.rep_eq go_copy_def)
  have "array32 (rev (vertex_hash_input ?v zero32)) \<noteq> array32 (rev (vertex_hash_input (AddParent (array32 [1]) 4 ?v) zero32))"
  proof
    assume "array32 (rev (vertex_hash_input ?v zero32)) = array32 (rev (vertex_hash_input (AddParent (array32 [1]) 4 ?v) zero32))"
    then have "bytes_of (array32 (rev (vertex_hash_input ?v zero32))) ! 0
        = bytes_of (array32 (rev (vertex_hash_input (AddParent (array32 [1]) 4 ?v) zero32))) ! 0" by simp
    then show False unfolding in1 in2 by (subst (asm) (1 2) first) (simp_all add: zero four nth_append)
  qed
  then show ?thesis
    using AddParent_stale_hash [of rev ?v "array32 [1]" 4] NewVertex_ok [of "[]" None rev] bh
    by (simp add: inj_on_def)
qed

end
