(* ===== verification/Consensus_Dag.thy ===== *)
theory Consensus_Dag
  imports Model_Vertex
begin

text \<open>
  pkg/consensus/dag.go: the graph of vertices by round, with its strong and weak edges.

  A Go map of maps is a map of association lists; a \<open>map[VertexHash]struct{}\<close> is a set.
  \<open>edges\<close> is a field the program never writes.  The DAG has no locking of its own except
  in \<open>GetWaveVertexLeader\<close>; its callers hold the locks.
\<close>

section \<open>State and operations\<close>

definition MaxWave :: u64 where
  "MaxWave = 4"

record dag =
  genesis :: vertex
  vertices :: "(round, (vertex_hash, vertex) gomap) gomap"
  edges :: "(vertex_hash, vertex_hash set) gomap"
  strongEdges :: "(vertex_hash, vertex_hash set) gomap"
  weakEdges :: "(vertex_hash, vertex_hash set) gomap"

definition NewDAG :: "vertex \<Rightarrow> dag" where
  "NewDAG g =
     \<lparr>genesis = g, vertices = [(0, [(vx_hash g, g)])], edges = [], strongEdges = [],
      weakEdges = []\<rparr>"

text \<open>Reading a missing key of a map of maps or of sets gives nil, which reads as empty.\<close>

definition round_map :: "dag \<Rightarrow> round \<Rightarrow> (vertex_hash, vertex) gomap" where
  "round_map d r = (case map_of (vertices d) r of None \<Rightarrow> [] | Some m \<Rightarrow> m)"

definition edge_set :: "(vertex_hash, vertex_hash set) gomap \<Rightarrow> vertex_hash \<Rightarrow> vertex_hash set" where
  "edge_set es h = (case map_of es h of None \<Rightarrow> {} | Some s \<Rightarrow> s)"

text \<open>
  The loop of \<open>addWeakEdges\<close> over the rounds \<open>r = 1, 2, \<dots>\<close> below
  \<open>vertex.Round() - 2\<close>; the subtraction is on \<open>uint64\<close>, and the function is only called
  for rounds above 2.  \<open>acc\<close> is \<open>weakEdges[vertex.Hash()]\<close>.
\<close>

definition add_weak_round :: "dag \<Rightarrow> vertex \<Rightarrow> round \<Rightarrow> vertex_hash set \<Rightarrow> vertex_hash set" where
  "add_weak_round d vertex r acc =
     (case map_of (vertices d) r of
        None \<Rightarrow> acc
      | Some vs \<Rightarrow>
          fold (\<lambda>(_, v) acc.
                  if vx_hash v \<in> edge_set (strongEdges d) (vx_hash vertex) then acc
                  else insert (vx_hash v) acc)
               vs acc)"

function weak_loop :: "dag \<Rightarrow> vertex \<Rightarrow> round \<Rightarrow> vertex_hash set \<Rightarrow> vertex_hash set" where
  "weak_loop d vertex r acc =
     (if r < vx_round vertex - 2
      then weak_loop d vertex (r + 1) (add_weak_round d vertex r acc)
      else acc)"
  by pat_completeness auto
termination
proof (relation "measure (\<lambda>(d, vertex, r, acc). unat (vx_round vertex - 2) - unat r)")
  fix d :: dag and vertex :: vertex and r :: round and acc :: "vertex_hash set"
  assume less: "r < vx_round vertex - 2"
  then have "unat r < unat (vx_round vertex - 2)" by (simp add: unat_less_iff)
  moreover have "unat (r + 1) = unat r + 1"
    using unat_lt2p [of "vx_round vertex - 2"] calculation by (intro unat_Suc_no_wrap) simp
  ultimately show "((d, vertex, r + 1, add_weak_round d vertex r acc), (d, vertex, r, acc))
      \<in> measure (\<lambda>(d, vertex, r, acc). unat (vx_round vertex - 2) - unat r)"
    by simp
qed simp

declare weak_loop.simps [simp del]

definition addWeakEdges :: "dag \<Rightarrow> vertex \<Rightarrow> dag" where
  "addWeakEdges d vertex =
     d\<lparr>weakEdges := AList.update (vx_hash vertex) (weak_loop d vertex 1 {}) (weakEdges d)\<rparr>"

definition InsertVertex :: "dag \<Rightarrow> vertex \<Rightarrow> dag" where
  "InsertVertex d vertex =
     (let r = vx_round vertex; h = vx_hash vertex;
          \<comment> \<open>initialize the round map if needed, then add the vertex\<close>
          vs0 = (if map_of (vertices d) r = None then AList.update r [] (vertices d)
                 else vertices d);
          vs1 = AList.update r
                  (AList.update h vertex (case map_of vs0 r of None \<Rightarrow> [] | Some m \<Rightarrow> m)) vs0;
          \<comment> \<open>strong edges to every parent\<close>
          strong = fold (\<lambda>(p, _) s. insert p s) (vx_parents vertex) {};
          d' = d\<lparr>vertices := vs1, strongEdges := AList.update h strong (strongEdges d)\<rparr>
      in if r > 2 then addWeakEdges d' vertex else d')"

text \<open>The two nested loops of \<open>ContainsVertices\<close>, with their early exits.\<close>

definition contains_vertex :: "dag \<Rightarrow> vertex_hash \<Rightarrow> bool" where
  "contains_vertex d hash \<longleftrightarrow> list_ex (\<lambda>(_, m). map_of m hash \<noteq> None) (vertices d)"

fun ContainsVertices :: "dag \<Rightarrow> vertex_hash list \<Rightarrow> bool" where
  "ContainsVertices d [] = True"
| "ContainsVertices d (hash # hashes) =
     (if contains_vertex d hash then ContainsVertices d hashes else False)"

definition GetVertexCountInRound :: "dag \<Rightarrow> round \<Rightarrow> nat" where
  "GetVertexCountInRound d r =
     (case map_of (vertices d) r of Some vs \<Rightarrow> length vs | None \<Rightarrow> 0)"

text \<open>
  The results below list the entries of a round's map in Go's iteration order \<open>it\<close>;
  \<open>None\<close> is the nil slice.
\<close>

type_synonym vertex_order = "(vertex_hash, vertex) gomap \<Rightarrow> (vertex_hash, vertex) gomap"

definition GetVerticesInRound :: "vertex_order \<Rightarrow> dag \<Rightarrow> round \<Rightarrow> vertex list option" where
  "GetVerticesInRound it d r =
     (case map_of (vertices d) r of Some vs \<Rightarrow> Some (map snd (it vs)) | None \<Rightarrow> None)"

definition Dag_GetStrongParents :: "vertex_order \<Rightarrow> dag \<Rightarrow> round \<Rightarrow> vertex_hash list option" where
  "Dag_GetStrongParents it d r =
     (if r \<le> 0 then None
      else case map_of (vertices d) (r - 1) of
             Some vs \<Rightarrow> Some (map (\<lambda>(_, v). vx_hash v) (it vs))
           | None \<Rightarrow> None)"

text \<open>\<open>IsLinked\<close> may add a weak edge, so it returns the DAG as well.\<close>

definition IsLinked :: "dag \<Rightarrow> vertex \<Rightarrow> vertex \<Rightarrow> bool \<times> dag" where
  "IsLinked d v1 v2 =
     (if vx_hash v2 \<in> edge_set (strongEdges d) (vx_hash v1) then (True, d)
      else if vx_hash v2 \<in> edge_set (weakEdges d) (vx_hash v1) then (True, d)
      else if vx_round v2 < vx_round v1 \<and> vx_round v1 - vx_round v2 > 2
              \<and> map_of (round_map d (vx_round v2)) (vx_hash v2) \<noteq> None then
        (True, d\<lparr>weakEdges := AList.update (vx_hash v1)
                   (insert (vx_hash v2) (edge_set (weakEdges d) (vx_hash v1))) (weakEdges d)\<rparr>)
      else (False, d))"

definition IsStronglyLinked :: "dag \<Rightarrow> vertex \<Rightarrow> vertex \<Rightarrow> bool" where
  "IsStronglyLinked d v1 v2 \<longleftrightarrow> vx_hash v2 \<in> edge_set (strongEdges d) (vx_hash v1)"

text \<open>The loop stops at the first linked vertex other than the given one.\<close>

fun linked_loop :: "dag \<Rightarrow> vertex \<Rightarrow> vertex list \<Rightarrow> bool \<times> dag" where
  "linked_loop d vertex [] = (False, d)"
| "linked_loop d vertex (v # vs) =
     (if vx_hash v \<noteq> vx_hash vertex then
        (case IsLinked d vertex v of
           (True, d') \<Rightarrow> (True, d')
         | (False, d') \<Rightarrow> linked_loop d' vertex vs)
      else linked_loop d vertex vs)"

definition IsLinkedWithOthersInRound ::
  "vertex_order \<Rightarrow> dag \<Rightarrow> vertex \<Rightarrow> round \<Rightarrow> bool \<times> dag" where
  "IsLinkedWithOthersInRound it d vertex r =
     (case map_of (vertices d) r of
        Some vs \<Rightarrow> linked_loop d vertex (map snd (it vs))
      | None \<Rightarrow> (False, d))"

definition Dag_GetWaveVertexLeader :: "vertex_order \<Rightarrow> dag \<Rightarrow> wave \<Rightarrow> vertex option" where
  "Dag_GetWaveVertexLeader it d wave =
     (let r = wave * MaxWave
      in if r = 0 then Some (genesis d)
         else case elems (GetVerticesInRound it d r) of
                [] \<Rightarrow> None
              | v # _ \<Rightarrow> Some v)"

definition GetVertices :: "dag \<Rightarrow> (round, (vertex_hash, vertex) gomap) gomap" where
  "GetVertices d = vertices d"

section \<open>The interface to the clients of the graph\<close>

text \<open>
  What the state of the consensus needs from a store of vertices: after an insertion it
  contains exactly one more hash, the inserted vertex's.
\<close>

locale vertex_store =
  fixes ins :: "'d \<Rightarrow> 'v \<Rightarrow> 'd" and has :: "'d \<Rightarrow> 'h \<Rightarrow> bool" and key :: "'v \<Rightarrow> 'h"
  assumes has_ins: "has (ins d v) h \<longleftrightarrow> h = key v \<or> has d h"
begin

lemma has_foldl: "has (foldl ins d vs) h \<longleftrightarrow> h \<in> key ` set vs \<or> has d h"
  by (induction vs arbitrary: d) (auto simp: has_ins)

lemma has_ins_same: "has (ins d v) (key v)"
  by (simp add: has_ins)

lemma has_ins_mono: "has d h \<Longrightarrow> has (ins d v) h"
  by (simp add: has_ins)

lemma has_foldl_perm:
  "mset vs = mset ws \<Longrightarrow> has (foldl ins d vs) h \<longleftrightarrow> has (foldl ins d ws) h"
  by (metis has_foldl set_mset_mset)

end

section \<open>Insertion\<close>

lemma fold_insert_fst: "fold (\<lambda>(p, _) s. insert p s) ps s = s \<union> fst ` set ps"
  by (induction ps arbitrary: s) auto

text \<open>The two updates of the rounds map are one: the round's map with the vertex added.\<close>

lemma vertices_InsertVertex:
  "vertices (InsertVertex d v)
   = AList.update (vx_round v) (AList.update (vx_hash v) v (round_map d (vx_round v))) (vertices d)"
  by (auto simp: InsertVertex_def addWeakEdges_def round_map_def Let_def update_update_same
      split: option.splits)

lemma genesis_InsertVertex [simp]: "genesis (InsertVertex d v) = genesis d"
  by (simp add: InsertVertex_def addWeakEdges_def Let_def)

lemma edges_InsertVertex [simp]: "edges (InsertVertex d v) = edges d"
  by (simp add: InsertVertex_def addWeakEdges_def Let_def)

lemma strongEdges_InsertVertex:
  "strongEdges (InsertVertex d v)
   = AList.update (vx_hash v) (fst ` set (vx_parents v)) (strongEdges d)"
  by (simp add: InsertVertex_def addWeakEdges_def Let_def fold_insert_fst)

lemma edge_set_update:
  "edge_set (AList.update k s es) h = (if h = k then s else edge_set es h)"
  by (simp add: edge_set_def)

lemma round_map_InsertVertex:
  "round_map (InsertVertex d v) r =
     (if r = vx_round v then AList.update (vx_hash v) v (round_map d r) else round_map d r)"
  by (auto simp: round_map_def vertices_InsertVertex)

lemma contains_InsertVertex:
  "contains_vertex (InsertVertex d v) h \<longleftrightarrow> h = vx_hash v \<or> contains_vertex d h"
proof (cases "map_of (vertices d) (vx_round v)")
  case None
  then show ?thesis
    by (auto simp: contains_vertex_def vertices_InsertVertex round_map_def list_ex_update_fresh)
next
  case (Some m)
  let ?Q = "\<lambda>(_ :: round, m :: (vertex_hash, vertex) gomap). map_of m h \<noteq> None"
  have "list_ex ?Q (AList.update (vx_round v) (AList.update (vx_hash v) v m) (vertices d))
        \<longleftrightarrow> ?Q (vx_round v, AList.update (vx_hash v) v m) \<or> list_ex ?Q (vertices d)"
    using Some by (rule list_ex_update) auto
  moreover have "list_ex ?Q (vertices d)" if "map_of m h \<noteq> None"
    using Some that by (fastforce simp: list_ex_iff dest: map_of_SomeD)
  ultimately show ?thesis
    using Some by (auto simp: contains_vertex_def vertices_InsertVertex round_map_def)
qed

interpretation dag_store: vertex_store InsertVertex contains_vertex vx_hash
  by unfold_locales (rule contains_InsertVertex)

lemma ContainsVertices_iff: "ContainsVertices d hs \<longleftrightarrow> (\<forall>h\<in>set hs. contains_vertex d h)"
  by (induction hs) auto

lemma contains_NewDAG: "contains_vertex (NewDAG g) h \<longleftrightarrow> h = vx_hash g"
  by (auto simp: contains_vertex_def NewDAG_def)

section \<open>Well-formed graphs\<close>

definition dag_ok :: "dag \<Rightarrow> bool" where
  "dag_ok d \<longleftrightarrow>
     gomap_ok (vertices d) \<and> gomap_ok (strongEdges d) \<and> gomap_ok (weakEdges d)
     \<and> (\<forall>r m. map_of (vertices d) r = Some m \<longrightarrow>
          gomap_ok m \<and> (\<forall>h v. map_of m h = Some v \<longrightarrow> vx_hash v = h \<and> vx_round v = r))"

lemma dag_ok_NewDAG: "vx_round g = 0 \<Longrightarrow> dag_ok (NewDAG g)"
  by (simp add: dag_ok_def NewDAG_def)

lemma gomap_ok_round_map [intro]: "dag_ok d \<Longrightarrow> gomap_ok (round_map d r)"
  by (auto simp: dag_ok_def round_map_def split: option.splits)

lemma round_map_entry:
  "dag_ok d \<Longrightarrow> map_of (round_map d r) h = Some v \<Longrightarrow> vx_hash v = h \<and> vx_round v = r"
  by (auto simp: dag_ok_def round_map_def split: option.splits)

lemma dag_ok_strongEdges_update:
  "dag_ok d \<Longrightarrow> dag_ok (d\<lparr>strongEdges := AList.update k s (strongEdges d)\<rparr>)"
  by (simp add: dag_ok_def)

lemma dag_ok_weakEdges_update:
  "dag_ok d \<Longrightarrow> dag_ok (d\<lparr>weakEdges := AList.update k s (weakEdges d)\<rparr>)"
  by (simp add: dag_ok_def)

lemma gomap_ok_weakEdges_InsertVertex:
  "gomap_ok (weakEdges d) \<Longrightarrow> gomap_ok (weakEdges (InsertVertex d v))"
  by (auto simp: InsertVertex_def addWeakEdges_def Let_def)

lemma dag_ok_InsertVertex: 
  assumes "dag_ok d" shows "dag_ok (InsertVertex d v)"
  unfolding dag_ok_def
proof (intro conjI allI impI)
  show "gomap_ok (vertices (InsertVertex d v))" "gomap_ok (strongEdges (InsertVertex d v))"
    "gomap_ok (weakEdges (InsertVertex d v))"
    using assms by (auto simp: dag_ok_def vertices_InsertVertex strongEdges_InsertVertex
        intro: gomap_ok_weakEdges_InsertVertex)
next
  fix r m assume m: "map_of (vertices (InsertVertex d v)) r = Some m"
  then have m': "m = (if r = vx_round v then AList.update (vx_hash v) v (round_map d r)
                      else round_map d r)"
    using round_map_InsertVertex [of d v r] by (simp add: round_map_def)
  then show "gomap_ok m"
    using assms by (auto split: if_splits)
  fix h w assume "map_of m h = Some w"
  then have "map_of (round_map d r) h = Some w \<or> (h = vx_hash v \<and> w = v \<and> r = vx_round v)"
    using m' by (auto split: if_splits)
  then show "vx_hash w = h" "vx_round w = r"
    using round_map_entry [OF assms] by auto
qed

lemma dag_ok_IsLinked: "dag_ok d \<Longrightarrow> dag_ok (snd (IsLinked d v1 v2))"
  by (simp add: IsLinked_def dag_ok_weakEdges_update)

text \<open>In a well-formed graph a vertex is contained exactly when it is stored at its round.\<close>

lemma contains_vertex_iff:
  assumes "dag_ok d"
  shows "contains_vertex d h \<longleftrightarrow> (\<exists>r v. map_of (round_map d r) h = Some v)"
proof
  assume "contains_vertex d h"
  then obtain r m where "(r, m) \<in> set (vertices d)" and "map_of m h \<noteq> None"
    by (auto simp: contains_vertex_def list_ex_iff)
  moreover from this(1) have "map_of (vertices d) r = Some m"
    using assms by (simp add: dag_ok_def map_of_in_iff)
  ultimately show "\<exists>r v. map_of (round_map d r) h = Some v"
    by (auto simp: round_map_def intro!: exI [of _ r])
next
  assume "\<exists>r v. map_of (round_map d r) h = Some v"
  then show "contains_vertex d h"
    by (fastforce simp: contains_vertex_def list_ex_iff round_map_def
        split: option.splits dest: map_of_SomeD)
qed

section \<open>Edges\<close>

text \<open>
  What the loop of \<open>addWeakEdges\<close> collects: the vertices of the rounds from 1 up to, but
  not including, \<open>round - 2\<close>, without those that have a strong edge.
\<close>

definition weak_targets :: "dag \<Rightarrow> vertex \<Rightarrow> round set \<Rightarrow> vertex_hash set" where
  "weak_targets d v rs =
     (\<Union>r\<in>rs. vx_hash ` snd ` set (round_map d r)) - edge_set (strongEdges d) (vx_hash v)"

lemma fold_insert_hashes:
  "fold (\<lambda>(_, w) acc. if vx_hash w \<in> S then acc else insert (vx_hash w) acc) vs acc
   = acc \<union> (vx_hash ` snd ` set vs - S)"
  by (induction vs arbitrary: acc) (auto split: if_splits)

lemma add_weak_round_eq: "add_weak_round d v r acc = acc \<union> weak_targets d v {r}"
  by (simp add: add_weak_round_def weak_targets_def round_map_def fold_insert_hashes
      split: option.split)

lemma weak_targets_union: "weak_targets d v (A \<union> B) = weak_targets d v A \<union> weak_targets d v B"
  by (auto simp: weak_targets_def)

lemma word_atLeastLessThan_step:
  "(r :: 'a :: len word) < b \<Longrightarrow> {r..<b} = {r} \<union> {r + 1..<b}"
proof -
  assume "r < b"
  then have "unat (r + 1) = unat r + 1"
    using unat_lt2p [of b] by (intro unat_Suc_no_wrap) (simp only: unat_less_iff)
  then show ?thesis
    using \<open>r < b\<close> by (auto simp: unat_less_iff unat_le_iff intro: word_unat_eq_iff [THEN iffD2])
qed

lemma weak_loop_eq: "weak_loop d v r acc = acc \<union> weak_targets d v {r..<vx_round v - 2}"
proof (induction d v r acc rule: weak_loop.induct)
  case (1 d v r acc)
  show ?case
  proof (cases "r < vx_round v - 2")
    case True
    have "weak_loop d v r acc = weak_loop d v (r + 1) (add_weak_round d v r acc)"
      using True by (subst weak_loop.simps) simp
    also have "\<dots> = acc \<union> weak_targets d v ({r} \<union> {r + 1..<vx_round v - 2})"
      using 1 True by (simp only: add_weak_round_eq weak_targets_union Un_assoc)
    finally show ?thesis by (simp only: word_atLeastLessThan_step [OF True])
  next
    case False
    then show ?thesis by (subst weak_loop.simps) (simp add: weak_targets_def)
  qed
qed

lemma weakEdges_InsertVertex:
  "weakEdges (InsertVertex d v) =
     (if vx_round v > 2
      then AList.update (vx_hash v)
             (weak_targets (InsertVertex d v) v {1..<vx_round v - 2}) (weakEdges d)
      else weakEdges d)"
proof -
  have "weak_targets (d'\<lparr>weakEdges := x\<rparr>) v rs = weak_targets d' v rs" for d' x rs
    by (simp add: weak_targets_def round_map_def)
  then show ?thesis
    by (simp add: InsertVertex_def addWeakEdges_def Let_def weak_loop_eq)
qed

lemma unat_minus_two: "(2 :: u64) < x \<Longrightarrow> unat (x - 2) = unat x - 2"
  by (simp add: unat_sub)

lemma below_minus_two: "(2 :: u64) < x \<Longrightarrow> r < x - 2 \<longleftrightarrow> unat r + 2 < unat x"
  by (auto simp: unat_less_iff unat_minus_two)

lemma stored_hashes:
  assumes "dag_ok d"
  shows "vx_hash ` snd ` set (round_map d r) = {x. \<exists>w. map_of (round_map d r) x = Some w}"
proof -
  have "x \<in> vx_hash ` snd ` set (round_map d r) \<longleftrightarrow> (\<exists>w. map_of (round_map d r) x = Some w)" for x
  proof
    assume "x \<in> vx_hash ` snd ` set (round_map d r)"
    then obtain k w where "(k, w) \<in> set (round_map d r)" and "x = vx_hash w" by auto
    then show "\<exists>w. map_of (round_map d r) x = Some w"
      using round_map_entry [OF assms, of r k w] gomap_ok_round_map [OF assms, of r]
      by (auto simp: map_of_in_iff [symmetric])
  next
    assume "\<exists>w. map_of (round_map d r) x = Some w"
    then show "x \<in> vx_hash ` snd ` set (round_map d r)"
      using round_map_entry [OF assms, of r x] by (force dest: map_of_SomeD)
  qed
  then show ?thesis by blast
qed

theorem InsertVertex_lookup:
  "map_of (round_map (InsertVertex d v) r) h =
     (if r = vx_round v \<and> h = vx_hash v then Some v else map_of (round_map d r) h)"
  by (simp add: round_map_InsertVertex)

lemma InsertVertex_edge_sets:
  assumes "dag_ok d"
  shows "edge_set (strongEdges (InsertVertex d v)) h =
           (if h = vx_hash v then fst ` set (vx_parents v) else edge_set (strongEdges d) h)
         \<and> edge_set (weakEdges (InsertVertex d v)) h =
           (if h = vx_hash v \<and> vx_round v > 2
            then {x. \<exists>r w. 1 \<le> r \<and> unat r + 2 < unat (vx_round v)
                          \<and> map_of (round_map d r) x = Some w} - fst ` set (vx_parents v)
            else edge_set (weakEdges d) h)"
proof
  show "edge_set (strongEdges (InsertVertex d v)) h =
           (if h = vx_hash v then fst ` set (vx_parents v) else edge_set (strongEdges d) h)"
    by (simp add: strongEdges_InsertVertex edge_set_update)
  have ok: "dag_ok (InsertVertex d v)" using assms by (rule dag_ok_InsertVertex)
  have "weak_targets (InsertVertex d v) v {1..<vx_round v - 2} =
      {x. \<exists>r w. 1 \<le> r \<and> unat r + 2 < unat (vx_round v) \<and> map_of (round_map d r) x = Some w}
      - fst ` set (vx_parents v)" if "vx_round v > 2"
  proof -
    have "round_map (InsertVertex d v) r = round_map d r" if "r \<in> {1..<vx_round v - 2}" for r
      using that \<open>vx_round v > 2\<close>
      by (auto simp: round_map_InsertVertex below_minus_two)
    then have "(\<Union>r\<in>{1..<vx_round v - 2}. vx_hash ` snd ` set (round_map (InsertVertex d v) r))
        = (\<Union>r\<in>{1..<vx_round v - 2}. {x. \<exists>w. map_of (round_map d r) x = Some w})"
      using stored_hashes [OF assms] by simp
    then show ?thesis
      using that unfolding weak_targets_def
      by (auto simp: strongEdges_InsertVertex edge_set_update below_minus_two)
  qed
  then show "edge_set (weakEdges (InsertVertex d v)) h =
           (if h = vx_hash v \<and> vx_round v > 2
            then {x. \<exists>r w. 1 \<le> r \<and> unat r + 2 < unat (vx_round v)
                          \<and> map_of (round_map d r) x = Some w} - fst ` set (vx_parents v)
            else edge_set (weakEdges d) h)"
    by (auto simp: weakEdges_InsertVertex edge_set_update)
qed

text \<open>
  C14. Inserting a vertex makes its strong edges its parents, and, above round 2, its weak
  edges the stored vertices of the rounds from 1 up to three before its own that are not
  parents; the edges of other vertices stay.
\<close>

theorem InsertVertex_edges:
  assumes "dag_ok d"
  shows "edge_set (strongEdges (InsertVertex d v)) h =
           (if h = vx_hash v then fst ` set (vx_parents v) else edge_set (strongEdges d) h)
         \<and> edge_set (weakEdges (InsertVertex d v)) h =
           (if h = vx_hash v \<and> vx_round v > 2
            then {x. \<exists>r w. 1 \<le> r \<and> unat r + 2 < unat (vx_round v)
                          \<and> map_of (round_map d r) x = Some w} - fst ` set (vx_parents v)
            else edge_set (weakEdges d) h)"
  using assms by (rule InsertVertex_edge_sets)

theorem IsLinked_spec:
  "fst (IsLinked d v1 v2) =
     (vx_hash v2 \<in> edge_set (strongEdges d) (vx_hash v1)
      \<or> vx_hash v2 \<in> edge_set (weakEdges d) (vx_hash v1)
      \<or> unat (vx_round v2) + 2 < unat (vx_round v1)
        \<and> map_of (round_map d (vx_round v2)) (vx_hash v2) \<noteq> None)
   \<and> vertices (snd (IsLinked d v1 v2)) = vertices d
   \<and> strongEdges (snd (IsLinked d v1 v2)) = strongEdges d
   \<and> edge_set (weakEdges (snd (IsLinked d v1 v2))) h = edge_set (weakEdges d) h \<union>
       (if h = vx_hash v1 \<and> fst (IsLinked d v1 v2) \<and> \<not> IsStronglyLinked d v1 v2
        then {vx_hash v2} else {})
   \<and> IsLinked (snd (IsLinked d v1 v2)) v1 v2 = IsLinked d v1 v2"
proof -
  have gap: "vx_round v2 < vx_round v1 \<and> vx_round v1 - vx_round v2 > 2 \<longleftrightarrow>
      unat (vx_round v2) + 2 < unat (vx_round v1)"
    by (auto simp: unat_less_iff unat_sub unat_le_iff)
  have gap': "vx_round v2 < vx_round v1 \<and> vx_round v1 - vx_round v2 > 2 \<and> P \<longleftrightarrow>
      unat (vx_round v2) + 2 < unat (vx_round v1) \<and> P" for P
    using gap by blast
  show ?thesis
    by (auto simp: IsLinked_def IsStronglyLinked_def gap' edge_set_update)
qed

text \<open>Vertices for concrete instances: a one-byte hash, a round, the parents.\<close>

definition sample_vertex :: "byte \<Rightarrow> round \<Rightarrow> (byte \<times> round) list \<Rightarrow> vertex" where
  "sample_vertex h r ps =
     \<lparr>vx_hash = array32 [h], vx_owner = zero32, vx_block = None,
      vx_parents = map (\<lambda>(p, q). (array32 [p], q)) ps, vx_round = r, vx_wave = 1,
      vx_timestamp = zero_time\<rparr>"

lemma sample_vertex_simps [simp]:
  "vx_hash (sample_vertex h r ps) = array32 [h]"
  "vx_round (sample_vertex h r ps) = r"
  "vx_parents (sample_vertex h r ps) = map (\<lambda>(p, q). (array32 [p], q)) ps"
  by (simp_all add: sample_vertex_def)

definition sample_dag :: dag where
  "sample_dag = InsertVertex (NewDAG (sample_vertex 0 0 [])) (sample_vertex 1 1 [(0, 0)])"

lemma round_map_NewDAG: "round_map (NewDAG g) r = (if r = 0 then [(vx_hash g, g)] else [])"
  by (simp add: NewDAG_def round_map_def)

text \<open>All stored vertices have a property.\<close>

definition dag_all :: "(vertex \<Rightarrow> bool) \<Rightarrow> dag \<Rightarrow> bool" where
  "dag_all P d \<longleftrightarrow> (\<forall>r h v. map_of (round_map d r) h = Some v \<longrightarrow> P v)"

lemma dag_all_NewDAG: "P g \<Longrightarrow> dag_all P (NewDAG g)"
  by (simp add: dag_all_def round_map_NewDAG)

lemma dag_all_InsertVertex: "dag_all P d \<Longrightarrow> P v \<Longrightarrow> dag_all P (InsertVertex d v)"
  by (auto simp: dag_all_def round_map_InsertVertex)

lemma round_map_sample:
  "round_map sample_dag r =
     (if r = 1 then [(array32 [1], sample_vertex 1 1 [(0, 0)])]
      else if r = 0 then [(array32 [0], sample_vertex 0 0 [])] else [])"
  by (simp add: sample_dag_def round_map_InsertVertex round_map_NewDAG)

lemma dag_ok_sample: "dag_ok sample_dag"
  by (simp add: sample_dag_def dag_ok_InsertVertex dag_ok_NewDAG)

lemma InsertVertex_edges_witness:
  "edge_set (strongEdges (InsertVertex sample_dag (sample_vertex 4 4 [(0, 0)]))) (array32 [4])
     = {array32 [0]}
   \<and> edge_set (weakEdges (InsertVertex sample_dag (sample_vertex 4 4 [(0, 0)]))) (array32 [4])
     = {array32 [1]}"
proof -
  have *: "{x. \<exists>r w. 1 \<le> r \<and> unat r + 2 < unat (4 :: u64) \<and> map_of (round_map sample_dag r) x = Some w}
      = {array32 [1]}"
  proof -
    have "1 \<le> r \<and> unat r + 2 < unat (4 :: u64) \<longleftrightarrow> r = 1" for r :: u64
      by (auto simp: unat_le_iff word_unat_eq_iff)
    then have "{x. \<exists>r w. 1 \<le> r \<and> unat r + 2 < unat (4 :: u64) \<and> map_of (round_map sample_dag r) x = Some w}
        = {x. \<exists>w. map_of (round_map sample_dag 1) x = Some w}"
      by (metis (no_types, lifting))
    then show ?thesis by (simp add: round_map_sample)
  qed
  show ?thesis
    using InsertVertex_edges [OF dag_ok_sample, of "sample_vertex 4 4 [(0, 0)]" "array32 [4]"]
    by (simp add: * [simplified])
qed

lemma linked_loop_spec:
  "fst (linked_loop d vertex vs)
     \<longleftrightarrow> (\<exists>v\<in>set vs. vx_hash v \<noteq> vx_hash vertex \<and> fst (IsLinked d vertex v))"
proof (induction vs)
  case (Cons v vs)
  have "snd (IsLinked d vertex v) = d" if "\<not> fst (IsLinked d vertex v)"
    using that by (auto simp: IsLinked_def split: if_splits)
  then show ?case
    using Cons by (cases "IsLinked d vertex v") (auto split: bool.splits)
qed simp

text \<open>
  The loop of IsLinkedWithOthersInRound, which adds weak edges as it goes, answers
  whether some other vertex of the round is linked in the graph as it was, in every
  iteration order.
\<close>

theorem IsLinkedWithOthersInRound_spec:
  assumes "iteration it"
  shows "fst (IsLinkedWithOthersInRound it d vertex r)
     \<longleftrightarrow> (\<exists>v\<in>snd ` set (round_map d r). vx_hash v \<noteq> vx_hash vertex \<and> fst (IsLinked d vertex v))"
proof (cases "map_of (vertices d) r")
  case (Some vs)
  then show ?thesis
    by (auto simp: IsLinkedWithOthersInRound_def linked_loop_spec round_map_def
        iteration_set [OF assms])
qed (simp add: IsLinkedWithOthersInRound_def round_map_def)

theorem IsLinkedWithOthersInRound_spec_witness:
  "fst (IsLinkedWithOthersInRound rev sample_dag (sample_vertex 2 2 [(1, 1)]) 1) =
   (\<exists>v\<in>snd ` set (round_map sample_dag 1). vx_hash v \<noteq> array32 [2]
      \<and> fst (IsLinked sample_dag (sample_vertex 2 2 [(1, 1)]) v))"
  using IsLinkedWithOthersInRound_spec [OF iteration_rev, of sample_dag "sample_vertex 2 2 [(1, 1)]" 1]
  by simp

theorem IsLinked_one_step_only:
  assumes "vx_hash g \<noteq> vx_hash a" "vx_hash a \<noteq> vx_hash b" "vx_hash g \<noteq> vx_hash b"
    and "vx_round a = 1" "vx_round b = 2" "vx_round g = 0"
    and "vx_parents a = [(vx_hash g, 0)]" "vx_parents b = [(vx_hash a, 1)]"
  shows "let d = InsertVertex (InsertVertex (NewDAG g) a) b
         in fst (IsLinked d b a) \<and> fst (IsLinked d a g) \<and> \<not> fst (IsLinked d b g)"
  using assms
  by (simp add: IsLinked_def Let_def strongEdges_InsertVertex weakEdges_InsertVertex
      edge_set_update) (simp add: edge_set_def NewDAG_def)

theorem IsLinked_one_step_only_witness:
  "let d = InsertVertex (InsertVertex (NewDAG (sample_vertex 0 0 [])) (sample_vertex 1 1 [(0, 0)]))
             (sample_vertex 2 2 [(1, 1)])
   in fst (IsLinked d (sample_vertex 2 2 [(1, 1)]) (sample_vertex 1 1 [(0, 0)]))
      \<and> fst (IsLinked d (sample_vertex 1 1 [(0, 0)]) (sample_vertex 0 0 []))
      \<and> \<not> fst (IsLinked d (sample_vertex 2 2 [(1, 1)]) (sample_vertex 0 0 []))"
  by (rule IsLinked_one_step_only) simp_all

section \<open>Every run of the graph's operations\<close>

datatype dag_op = InsertOp vertex | LinkOp vertex vertex

fun dag_step :: "dag \<Rightarrow> dag_op \<Rightarrow> dag" where
  "dag_step d (InsertOp v) = InsertVertex d v"
| "dag_step d (LinkOp v1 v2) = snd (IsLinked d v1 v2)"

fun inserted :: "dag_op list \<Rightarrow> vertex_hash set" where
  "inserted [] = {}"
| "inserted (InsertOp v # ops) = insert (vx_hash v) (inserted ops)"
| "inserted (LinkOp _ _ # ops) = inserted ops"

interpretation dag_wf: inductive_invariant "\<lambda>d. \<exists>g. vx_round g = 0 \<and> d = NewDAG g"
    "\<lambda>d d'. \<exists>x. d' = dag_step d x" dag_ok
proof
  fix d d' assume "dag_ok d" and "\<exists>x. d' = dag_step d x"
  then obtain x where "d' = dag_step d x" by blast
  with \<open>dag_ok d\<close> show "dag_ok d'"
    by (cases x) (simp_all add: dag_ok_InsertVertex dag_ok_IsLinked)
qed (auto simp: dag_ok_NewDAG)

lemma vertices_IsLinked [simp]: "vertices (snd (IsLinked d v1 v2)) = vertices d"
  by (simp add: IsLinked_def)

lemma dag_run_ok: "dag_ok d \<Longrightarrow> dag_ok (run_ops dag_step d ops)"
  by (rule run_ops_invariant) (auto intro: dag_wf.step_inv)

lemma contains_dag_run:
  "contains_vertex (run_ops dag_step d ops) h \<longleftrightarrow> h \<in> inserted ops \<or> contains_vertex d h"
proof (induction ops arbitrary: d)
  case (Cons x ops)
  then show ?case
    by (cases x) (auto simp: dag_store.has_ins contains_vertex_def [of "snd _"]
        contains_vertex_def [of d])
qed simp

text \<open>
  Any run of insertions and link queries keeps the graph well formed, and
  ContainsVertices answers exactly whether all asked hashes are the genesis or were
  inserted.
\<close>

theorem dag_run_invariant:
  assumes "vx_round g = 0"
  shows "dag_ok (run_ops dag_step (NewDAG g) ops)
     \<and> (ContainsVertices (run_ops dag_step (NewDAG g) ops) hs
          \<longleftrightarrow> set hs \<subseteq> insert (vx_hash g) (inserted ops))"
  using dag_run_ok [OF dag_ok_NewDAG [OF assms]]
  by (auto simp: ContainsVertices_iff contains_dag_run contains_NewDAG)

theorem dag_run_invariant_witness:
  "dag_ok (run_ops dag_step (NewDAG (sample_vertex 0 0 [])) [InsertOp (sample_vertex 1 1 [(0, 0)])])
   \<and> ContainsVertices
       (run_ops dag_step (NewDAG (sample_vertex 0 0 [])) [InsertOp (sample_vertex 1 1 [(0, 0)])])
       [array32 [1], array32 [0]]"
  using dag_run_invariant [of "sample_vertex 0 0 []" "[InsertOp (sample_vertex 1 1 [(0, 0)])]"
      "[array32 [1], array32 [0]]"]
  by (simp del: ContainsVertices.simps)

section \<open>Rounds and leaders\<close>

lemma GetVertexCountInRound_round_map: "GetVertexCountInRound d r = length (round_map d r)"
  by (simp add: GetVertexCountInRound_def round_map_def split: option.split)

lemma set_GetVerticesInRound:
  "iteration it \<Longrightarrow> set (elems (GetVerticesInRound it d r)) = snd ` set (round_map d r)"
  by (simp add: GetVerticesInRound_def round_map_def iteration_set split: option.split)

lemma GetVerticesInRound_count:
  "iteration it \<Longrightarrow> length (elems (GetVerticesInRound it d r)) = GetVertexCountInRound d r"
  by (simp add: GetVerticesInRound_def GetVertexCountInRound_def iteration_length
      split: option.split)

text \<open>
  For a round above 0 the strong parents of the graph are the hashes of all vertices
  of the round before, each once.
\<close>

theorem GetStrongParents_previous_round:
  assumes "iteration it" and "dag_ok d" and "r \<noteq> 0"
  shows "set (elems (Dag_GetStrongParents it d r))
           = {h. \<exists>v. map_of (round_map d (r - 1)) h = Some v}
       \<and> length (elems (Dag_GetStrongParents it d r)) = GetVertexCountInRound d (r - 1)"
proof -
  have "set (elems (Dag_GetStrongParents it d r)) = vx_hash ` snd ` set (round_map d (r - 1))"
    using assms(3) by (force simp: Dag_GetStrongParents_def round_map_def
        iteration_set [OF assms(1)] split: option.splits)
  moreover have "length (elems (Dag_GetStrongParents it d r)) = GetVertexCountInRound d (r - 1)"
    using assms(3) by (simp add: Dag_GetStrongParents_def GetVertexCountInRound_def
        iteration_length [OF assms(1)] split: option.split)
  ultimately show ?thesis
    by (simp add: stored_hashes [OF assms(2)])
qed

theorem GetStrongParents_previous_round_witness:
  "set (elems (Dag_GetStrongParents rev sample_dag 1))
     = {h. \<exists>v. map_of (round_map sample_dag 0) h = Some v}
   \<and> length (elems (Dag_GetStrongParents rev sample_dag 1)) = GetVertexCountInRound sample_dag 0"
  using GetStrongParents_previous_round [OF iteration_rev dag_ok_sample, of 1] by simp

end
