(* ===== verification/Go_Channel.thy ===== *)
theory Go_Channel
  imports Go_Prelude
begin

text \<open>
  Buffered Go channels, and the interface of a queue.  None of the program's channels is
  ever closed, so a channel is its capacity and the values in it.  A send in a
  \<open>select\<close> can proceed when there is room (\<open>chan_send\<close> is \<open>Some\<close>), a receive when
  there is a value; an operation that can not proceed blocks, or takes the \<open>default\<close>
  branch where the source has one.
\<close>

section \<open>Queues\<close>

fun puts :: "('q \<Rightarrow> 'a \<Rightarrow> 'q option) \<Rightarrow> 'q \<Rightarrow> 'a list \<Rightarrow> 'q option" where
  "puts put q [] = Some q"
| "puts put q (x # xs) = (case put q x of None \<Rightarrow> None | Some q' \<Rightarrow> puts put q' xs)"

fun takes :: "('q \<Rightarrow> ('a \<times> 'q) option) \<Rightarrow> nat \<Rightarrow> 'q \<Rightarrow> 'a list \<times> 'q" where
  "takes get 0 q = ([], q)"
| "takes get (Suc n) q =
     (case get q of
        None \<Rightarrow> ([], q)
      | Some (x, q') \<Rightarrow> (case takes get n q' of (xs, q'') \<Rightarrow> (x # xs, q'')))"

locale fifo_queue =
  fixes put :: "'q \<Rightarrow> 'a \<Rightarrow> 'q option" and get :: "'q \<Rightarrow> ('a \<times> 'q) option"
    and contents :: "'q \<Rightarrow> 'a list"
  assumes contents_put: "put q x = Some q' \<Longrightarrow> contents q' = contents q @ [x]"
    and get_None: "get q = None \<longleftrightarrow> contents q = []"
    and contents_get: "get q = Some (x, q') \<Longrightarrow> contents q = x # contents q'"
begin

lemma contents_puts: "puts put q xs = Some q' \<Longrightarrow> contents q' = contents q @ xs"
  by (induction xs arbitrary: q) (auto simp: contents_put split: option.splits)

lemma takes_prefix:
  "fst (takes get n q) = take n (contents q) \<and> contents (snd (takes get n q)) = drop n (contents q)"
proof (induction n arbitrary: q)
  case (Suc n)
  show ?case
  proof (cases "get q")
    case None
    then have "contents q = []" using get_None by blast
    then show ?thesis using None by simp
  next
    case (Some p)
    obtain x q' where p: "p = (x, q')" by (cases p)
    then have "contents q = x # contents q'" using Some contents_get by simp
    then show ?thesis using Some p Suc [of q'] by (auto split: prod.split)
  qed
qed simp

lemma fifo_order:
  "contents q = [] \<Longrightarrow> puts put q xs = Some q' \<Longrightarrow> fst (takes get (length xs) q') = xs"
  by (simp add: takes_prefix contents_puts)

end

locale bounded_queue = fifo_queue +
  fixes capacity :: "'a \<Rightarrow> nat"
  assumes put_None: "put q x = None \<longleftrightarrow> capacity q \<le> length (contents q)"
    and capacity_put: "put q x = Some q' \<Longrightarrow> capacity q' = capacity q"
    and capacity_get: "get q = Some (x, q') \<Longrightarrow> capacity q' = capacity q"
begin

lemma put_within:
  "length (contents q) \<le> capacity q \<Longrightarrow> put q x = Some q' \<Longrightarrow> length (contents q') \<le> capacity q'"
  using put_None [of q x] by (auto simp: contents_put capacity_put)

lemma get_within:
  "length (contents q) \<le> capacity q \<Longrightarrow> get q = Some (x, q') \<Longrightarrow> length (contents q') \<le> capacity q'"
  by (auto simp: capacity_get dest: contents_get)

lemma puts_room:
  "length (contents q) + length xs \<le> capacity q \<Longrightarrow> \<exists>q'. puts put q xs = Some q'"
proof (induction xs arbitrary: q)
  case (Cons x xs)
  then obtain q1 where "put q x = Some q1" using put_None [of q x] by (cases "put q x") auto
  then show ?case using Cons by (simp add: contents_put capacity_put)
qed simp

end

section \<open>Channels\<close>

record 'a chan =
  ch_values :: "'a list"
  ch_cap :: nat

definition make_chan :: "nat \<Rightarrow> 'a chan" where
  "make_chan n = \<lparr>ch_values = [], ch_cap = n\<rparr>"

definition chan_send :: "'a chan \<Rightarrow> 'a \<Rightarrow> 'a chan option" where
  "chan_send c x =
     (if length (ch_values c) < ch_cap c then Some (c\<lparr>ch_values := ch_values c @ [x]\<rparr>) else None)"

definition chan_recv :: "'a chan \<Rightarrow> ('a \<times> 'a chan) option" where
  "chan_recv c =
     (case ch_values c of [] \<Rightarrow> None | x # xs \<Rightarrow> Some (x, c\<lparr>ch_values := xs\<rparr>))"

interpretation chan: bounded_queue chan_send chan_recv ch_values ch_cap
  by unfold_locales (auto simp: chan_send_def chan_recv_def split: if_splits list.splits)

definition chan_ok :: "'a chan \<Rightarrow> bool" where
  "chan_ok c \<longleftrightarrow> length (ch_values c) \<le> ch_cap c"

lemma chan_ok_make [simp, intro]: "chan_ok (make_chan n)"
  by (simp add: chan_ok_def make_chan_def)

lemma chan_ok_send: "chan_ok c \<Longrightarrow> chan_send c x = Some c' \<Longrightarrow> chan_ok c'"
  unfolding chan_ok_def by (rule chan.put_within)

lemma chan_ok_recv: "chan_ok c \<Longrightarrow> chan_recv c = Some (x, c') \<Longrightarrow> chan_ok c'"
  unfolding chan_ok_def by (rule chan.get_within)

text \<open>All values in a channel have a property.\<close>

definition chan_all :: "('a \<Rightarrow> bool) \<Rightarrow> 'a chan \<Rightarrow> bool" where
  "chan_all P c \<longleftrightarrow> list_all P (ch_values c)"

lemma chan_all_make [simp, intro]: "chan_all P (make_chan n)"
  by (simp add: chan_all_def make_chan_def)

lemma chan_all_send: "chan_all P c \<Longrightarrow> chan_send c x = Some c' \<Longrightarrow> P x \<Longrightarrow> chan_all P c'"
  by (auto simp: chan_all_def chan_send_def split: if_splits)

lemma chan_all_recv: "chan_all P c \<Longrightarrow> chan_recv c = Some (x, c') \<Longrightarrow> P x \<and> chan_all P c'"
  by (auto simp: chan_all_def chan_recv_def split: list.splits)

lemma make_chan_simps [simp]: "ch_values (make_chan n) = []" "ch_cap (make_chan n) = n"
  by (simp_all add: make_chan_def)

end
