(* ===== verification/Consensus_State.thy ===== *)
theory Consensus_State
  imports Consensus_Dag Go_Channel
begin

text \<open>
  pkg/consensus/state.go: the consensus state, which buffers a vertex until its round is
  reached and its parents are in the graph, and then delivers it.

  Every exported method holds the state's mutex from its first to its last line, so each is
  one atomic operation here.  The order in which Go ranges over a parents map cannot be seen
  by \<open>ContainsVertices\<close> (a conjunction), so the parents are taken in the list's order.
\<close>

section \<open>State and operations\<close>

record state =
  s_dag :: dag
  currentRound :: round
  deliveredVertices :: "vertex_hash set"
  buffer :: "vertex list"
  blocksToPropose :: "block list"

definition NewState :: "vertex \<Rightarrow> state" where
  "NewState g =
     \<lparr>s_dag = NewDAG g, currentRound = 0, deliveredVertices = {vx_hash g}, buffer = [],
      blocksToPropose = []\<rparr>"

definition GetCurrentRound :: "state \<Rightarrow> round" where
  "GetCurrentRound s = currentRound s"

definition parent_hashes :: "vertex \<Rightarrow> vertex_hash list" where
  "parent_hashes v = map fst (vx_parents v)"

text \<open>
  One pass of \<open>processBuffer\<close> over the buffer: the graph, the delivered set, the vertices
  that remain and the flag \<open>processed\<close>.
\<close>

fun buffer_pass ::
  "round \<Rightarrow> vertex list \<Rightarrow> dag \<times> vertex_hash set \<times> vertex list \<times> bool
   \<Rightarrow> dag \<times> vertex_hash set \<times> vertex list \<times> bool" where
  "buffer_pass cr [] acc = acc"
| "buffer_pass cr (v # vs) (d, delivered, remaining, processed) =
     (if vx_round v \<le> cr \<and> ContainsVertices d (parent_hashes v)
      then buffer_pass cr vs (InsertVertex d v, insert (vx_hash v) delivered, remaining, True)
      else buffer_pass cr vs (d, delivered, remaining @ [v], processed))"

text \<open>A pass that processed a vertex leaves a shorter buffer, so the outer loop ends.\<close>

lemma buffer_pass_shrinks:
  "buffer_pass cr vs (d, dl, rm, p) = (d', dl', rm', p') \<Longrightarrow>
     length rm' \<le> length rm + length vs \<and> (p' \<longrightarrow> p \<or> length rm' < length rm + length vs)"
  by (induction cr vs "(d, dl, rm, p)" arbitrary: d dl rm p rule: buffer_pass.induct)
     (fastforce split: if_splits)+

function processBuffer :: "state \<Rightarrow> state" where
  "processBuffer s =
     (case buffer_pass (currentRound s) (buffer s) (s_dag s, deliveredVertices s, [], False) of
        (d, delivered, remaining, processed) \<Rightarrow>
          (let s' = s\<lparr>s_dag := d, deliveredVertices := delivered, buffer := remaining\<rparr>
           in if processed then processBuffer s' else s'))"
  by pat_completeness auto
termination
  by (relation "measure (\<lambda>s. length (buffer s))") (auto dest!: buffer_pass_shrinks [OF sym])

declare processBuffer.simps [simp del]

definition AdvanceRound :: "state \<Rightarrow> state" where
  "AdvanceRound s = processBuffer (s\<lparr>currentRound := currentRound s + 1\<rparr>)"

definition AddVertex :: "state \<Rightarrow> vertex \<Rightarrow> state" where
  "AddVertex s vertex =
     (if vx_hash vertex \<in> deliveredVertices s then s
      else if vx_round vertex \<le> currentRound s \<and> ContainsVertices (s_dag s) (parent_hashes vertex)
      then processBuffer
             (s\<lparr>s_dag := InsertVertex (s_dag s) vertex,
                deliveredVertices := insert (vx_hash vertex) (deliveredVertices s)\<rparr>)
      else s\<lparr>buffer := buffer s @ [vertex]\<rparr>)"

definition State_GetVertexCountInRound :: "state \<Rightarrow> round \<Rightarrow> nat" where
  "State_GetVertexCountInRound s r = GetVertexCountInRound (s_dag s) r"

definition State_GetVerticesInRound :: "vertex_order \<Rightarrow> state \<Rightarrow> round \<Rightarrow> vertex list option" where
  "State_GetVerticesInRound it s r = GetVerticesInRound it (s_dag s) r"

definition State_GetStrongParents :: "vertex_order \<Rightarrow> state \<Rightarrow> vertex_hash list option" where
  "State_GetStrongParents it s = Dag_GetStrongParents it (s_dag s) (currentRound s)"

definition AddBlockToPropose :: "state \<Rightarrow> block \<Rightarrow> state" where
  "AddBlockToPropose s b = s\<lparr>blocksToPropose := blocksToPropose s @ [b]\<rparr>"

definition GetNextBlockToPropose :: "state \<Rightarrow> block option \<times> state" where
  "GetNextBlockToPropose s =
     (case blocksToPropose s of
        [] \<Rightarrow> (None, s)
      | b # bs \<Rightarrow> (Some b, s\<lparr>blocksToPropose := bs\<rparr>))"

definition HasBlocksToPropose :: "state \<Rightarrow> bool" where
  "HasBlocksToPropose s \<longleftrightarrow> length (blocksToPropose s) > 0"

definition IsVertexDelivered :: "state \<Rightarrow> vertex_hash \<Rightarrow> bool" where
  "IsVertexDelivered s h \<longleftrightarrow> h \<in> deliveredVertices s"

definition MarkVertexDelivered :: "state \<Rightarrow> vertex_hash \<Rightarrow> state" where
  "MarkVertexDelivered s h = s\<lparr>deliveredVertices := insert h (deliveredVertices s)\<rparr>"

text \<open>\<open>model.Round(wave * MaxWave)\<close>: the product is on \<open>uint64\<close>.\<close>

definition GetRoundForWave :: "wave \<Rightarrow> round" where
  "GetRoundForWave w = w * MaxWave"

definition State_GetWaveVertexLeader :: "vertex_order \<Rightarrow> state \<Rightarrow> wave \<Rightarrow> vertex option" where
  "State_GetWaveVertexLeader it s w =
     (case elems (GetVerticesInRound it (s_dag s) (GetRoundForWave w)) of
        [] \<Rightarrow> None
      | v # _ \<Rightarrow> Some v)"

definition IsLastRoundInWave :: "state \<Rightarrow> bool" where
  "IsLastRoundInWave s \<longleftrightarrow> currentRound s mod MaxWave = MaxWave - 1"

text \<open>
  The loop \<open>for round := startRound; round <= endRound; round++\<close> of
  \<open>GetOrderedVertices\<close>.  It need not end (\<open>round++\<close> wraps around), so it is a partial
  function: \<open>None\<close> is "does not return".
\<close>

partial_function (option) ordered_loop ::
  "vertex_order \<Rightarrow> dag \<Rightarrow> round \<Rightarrow> round \<Rightarrow> vertex list \<Rightarrow> vertex list option" where
  "ordered_loop it d r endRound result =
     (if r \<le> endRound
      then ordered_loop it d (r + 1) endRound (result @ elems (GetVerticesInRound it d r))
      else Some result)"

definition GetOrderedVertices :: "vertex_order \<Rightarrow> state \<Rightarrow> wave \<Rightarrow> vertex list option" where
  "GetOrderedVertices it s w =
     (let startRound = GetRoundForWave w; endRound = startRound + MaxWave - 1
      in ordered_loop it (s_dag s) startRound endRound [])"

section \<open>Delivery in causal order\<close>

definition ready :: "round \<Rightarrow> dag \<Rightarrow> vertex \<Rightarrow> bool" where
  "ready cr d v \<longleftrightarrow> vx_round v \<le> cr \<and> (\<forall>p\<in>fst ` set (vx_parents v). contains_vertex d p)"

lemma ready_iff:
  "vx_round v \<le> cr \<and> ContainsVertices d (parent_hashes v) \<longleftrightarrow> ready cr d v"
  by (simp add: ready_def ContainsVertices_iff parent_hashes_def)

lemma ready_mono:
  "ready cr d v \<Longrightarrow> (\<And>h. contains_vertex d h \<Longrightarrow> contains_vertex d' h) \<Longrightarrow> cr \<le> cr' \<Longrightarrow> ready cr' d' v"
  by (auto simp: ready_def)

text \<open>A list of vertices each of which is ready when its turn comes.\<close>

fun causal :: "round \<Rightarrow> dag \<Rightarrow> vertex list \<Rightarrow> bool" where
  "causal cr d [] = True"
| "causal cr d (v # vs) = (ready cr d v \<and> causal cr (InsertVertex d v) vs)"

lemma causal_append:
  "causal cr d (xs @ ys) \<longleftrightarrow> causal cr d xs \<and> causal cr (foldl InsertVertex d xs) ys"
  by (induction xs arbitrary: d) auto

lemma causal_mono: "causal cr d vs \<Longrightarrow> cr \<le> cr' \<Longrightarrow> causal cr' d vs"
  by (induction vs arbitrary: d) (auto intro: ready_mono)

text \<open>
  What one pass does: it inserts, in causal order, the vertices it takes out of the buffer;
  the flag says whether there were any; without any, nothing in the buffer was ready.
\<close>

lemma buffer_pass_spec:
  "buffer_pass cr vs (d, dl, rm, p) = (d', dl', rm', p') \<Longrightarrow>
     \<exists>ins. d' = foldl InsertVertex d ins \<and> dl' = dl \<union> vx_hash ` set ins
       \<and> mset rm + mset vs = mset rm' + mset ins \<and> causal cr d ins
       \<and> p' = (p \<or> ins \<noteq> []) \<and> (ins = [] \<longrightarrow> (\<forall>v\<in>set vs. \<not> ready cr d v))"
proof (induction cr vs "(d, dl, rm, p)" arbitrary: d dl rm p rule: buffer_pass.induct)
  case (1 cr d dl rm p)
  then show ?case by (intro exI [of _ "[]"]) auto
next
  case (2 cr v vs d dl rm p)
  show ?case
  proof (cases "ready cr d v")
    case True
    then have "buffer_pass cr vs (InsertVertex d v, insert (vx_hash v) dl, rm, True) = (d', dl', rm', p')"
      using "2.prems" by (simp add: ready_iff)
    then obtain ins where ins: "d' = foldl InsertVertex (InsertVertex d v) ins"
      "dl' = insert (vx_hash v) dl \<union> vx_hash ` set ins" "mset rm + mset vs = mset rm' + mset ins"
      "causal cr (InsertVertex d v) ins" "p'"
      using "2.hyps"(1) [OF True [folded ready_iff]] by blast
    then show ?thesis
      using True by (intro exI [of _ "v # ins"]) auto
  next
    case False
    then have "buffer_pass cr vs (d, dl, rm @ [v], p) = (d', dl', rm', p')"
      using "2.prems" by (simp add: ready_iff)
    then obtain ins where ins: "d' = foldl InsertVertex d ins"
      "dl' = dl \<union> vx_hash ` set ins" "mset (rm @ [v]) + mset vs = mset rm' + mset ins"
      "causal cr d ins" "p' = (p \<or> ins \<noteq> [])" "ins = [] \<longrightarrow> (\<forall>v\<in>set vs. \<not> ready cr d v)"
      using "2.hyps"(2) [OF False [folded ready_iff]] by blast
    then show ?thesis
      using False by (intro exI [of _ ins]) (auto simp: ac_simps)
  qed
qed

text \<open>The whole of \<open>processBuffer\<close>, as a relation between the states before and after.\<close>

lemma processBuffer_spec:
  "\<exists>ins. s_dag (processBuffer s) = foldl InsertVertex (s_dag s) ins
     \<and> deliveredVertices (processBuffer s) = deliveredVertices s \<union> vx_hash ` set ins
     \<and> mset (buffer s) = mset (buffer (processBuffer s)) + mset ins
     \<and> causal (currentRound s) (s_dag s) ins
     \<and> currentRound (processBuffer s) = currentRound s
     \<and> blocksToPropose (processBuffer s) = blocksToPropose s
     \<and> (\<forall>v\<in>set (buffer (processBuffer s)). \<not> ready (currentRound s) (s_dag (processBuffer s)) v)"
proof (induction s rule: processBuffer.induct)
  case (1 s)
  obtain d dl rm p where pass:
    "buffer_pass (currentRound s) (buffer s) (s_dag s, deliveredVertices s, [], False) = (d, dl, rm, p)"
    by (metis prod_cases4)
  let ?s = "s\<lparr>s_dag := d, deliveredVertices := dl, buffer := rm\<rparr>"
  have unfold: "processBuffer s = (if p then processBuffer ?s else ?s)"
    by (subst processBuffer.simps) (simp add: pass Let_def)
  obtain ins where ins: "d = foldl InsertVertex (s_dag s) ins"
    "dl = deliveredVertices s \<union> vx_hash ` set ins" "mset (buffer s) = mset rm + mset ins"
    "causal (currentRound s) (s_dag s) ins" "p = (ins \<noteq> [])"
    "ins = [] \<longrightarrow> (\<forall>v\<in>set (buffer s). \<not> ready (currentRound s) (s_dag s) v)"
    using buffer_pass_spec [OF pass] by auto
  show ?case
  proof (cases p)
    case True
    obtain ins' where ins': "s_dag (processBuffer ?s) = foldl InsertVertex d ins'"
      "deliveredVertices (processBuffer ?s) = dl \<union> vx_hash ` set ins'"
      "mset rm = mset (buffer (processBuffer ?s)) + mset ins'"
      "causal (currentRound s) d ins'" "currentRound (processBuffer ?s) = currentRound s"
      "blocksToPropose (processBuffer ?s) = blocksToPropose s"
      "\<forall>v\<in>set (buffer (processBuffer ?s)). \<not> ready (currentRound s) (s_dag (processBuffer ?s)) v"
      using "1.IH" [OF pass [symmetric] refl refl refl True] by auto
    show ?thesis
      unfolding unfold using True ins ins'
      by (intro exI [of _ "ins @ ins'"]) (auto simp: causal_append)
  next
    case False
    then have "mset rm = mset (buffer s)" and "ins = []" using ins by simp_all
    then have "set rm = set (buffer s)" by (metis set_mset_mset)
    then show ?thesis
      unfolding unfold using False ins \<open>ins = []\<close> by (intro exI [of _ "[]"]) auto
  qed
qed

section \<open>The specification: the least set of deliverable vertices\<close>

text \<open>
  The abstract view of the state: which vertices have arrived and which round it is.  From
  those alone follows what has to be delivered: the least set of hashes that contains the
  ones in the graph at the start and every arrived vertex of an admissible round whose
  parents are in it.
\<close>

inductive deliverable :: "vertex_hash set \<Rightarrow> vertex set \<Rightarrow> round \<Rightarrow> vertex_hash \<Rightarrow> bool"
  for H :: "vertex_hash set" and A :: "vertex set" and cr :: round where
  deliverable_start: "h \<in> H \<Longrightarrow> deliverable H A cr h"
| deliverable_vertex: "v \<in> A \<Longrightarrow> vx_round v \<le> cr
    \<Longrightarrow> \<forall>p\<in>fst ` set (vx_parents v). deliverable H A cr p
    \<Longrightarrow> deliverable H A cr (vx_hash v)"

text \<open>
  Continuing from what is already delivered, with the vertices that are not, gives the same
  set as starting afresh with every vertex that has arrived.
\<close>

lemma deliverable_resume:
  assumes H: "\<And>h. h \<in> H \<Longrightarrow> deliverable G A cr h" and G: "G \<subseteq> H" and B: "B \<subseteq> A"
    and rest: "\<And>v. v \<in> A \<Longrightarrow> vx_hash v \<in> H \<or> v \<in> B"
  shows "deliverable H B cr h \<longleftrightarrow> deliverable G A cr h"
proof
  show "deliverable H B cr h \<Longrightarrow> deliverable G A cr h"
    by (induction rule: deliverable.induct) (use H B in \<open>auto intro: deliverable_vertex\<close>)
  show "deliverable G A cr h \<Longrightarrow> deliverable H B cr h"
  proof (induction rule: deliverable.induct)
    case (deliverable_start h)
    then show ?case using G by (auto intro: deliverable.deliverable_start)
  next
    case (deliverable_vertex v)
    then show ?case using rest [of v] by (auto intro: deliverable.intros)
  qed
qed

lemma deliverable_mono:
  "deliverable H A cr h \<Longrightarrow> A \<subseteq> A' \<Longrightarrow> cr \<le> cr' \<Longrightarrow> deliverable H A' cr' h"
  by (induction rule: deliverable.induct) (auto intro: deliverable.intros)

lemma causal_deliverable:
  "causal cr d vs \<Longrightarrow> set vs \<subseteq> B \<Longrightarrow> v \<in> set vs
    \<Longrightarrow> deliverable {h. contains_vertex d h} B cr (vx_hash v)"
proof (induction vs arbitrary: v rule: rev_induct)
  case (snoc w vs)
  have *: "deliverable {h. contains_vertex d h} B cr p"
    if "contains_vertex (foldl InsertVertex d vs) p" for p
    using that snoc.prems snoc.IH
    by (auto simp: dag_store.has_foldl causal_append intro: deliverable_start)
  then have "deliverable {h. contains_vertex d h} B cr (vx_hash w)"
    using snoc.prems by (intro deliverable_vertex) (auto simp: causal_append ready_def)
  then show ?case using snoc by (auto simp: causal_append)
qed simp

text \<open>\<open>processBuffer\<close> delivers exactly the deliverable vertices.\<close>

lemma processBuffer_contains:
  "contains_vertex (s_dag (processBuffer s)) h \<longleftrightarrow>
     deliverable {h. contains_vertex (s_dag s) h} (set (buffer s)) (currentRound s) h"
proof -
  obtain ins where ins: "s_dag (processBuffer s) = foldl InsertVertex (s_dag s) ins"
    "mset (buffer s) = mset (buffer (processBuffer s)) + mset ins"
    "causal (currentRound s) (s_dag s) ins"
    "\<forall>v\<in>set (buffer (processBuffer s)). \<not> ready (currentRound s) (s_dag (processBuffer s)) v"
    using processBuffer_spec [of s] by blast
  have sets: "set (buffer s) = set (buffer (processBuffer s)) \<union> set ins"
    using arg_cong [OF ins(2), of set_mset] by simp
  have has: "contains_vertex (s_dag (processBuffer s)) h
      \<longleftrightarrow> h \<in> vx_hash ` set ins \<or> contains_vertex (s_dag s) h" for h
    by (simp add: ins(1) dag_store.has_foldl)
  show ?thesis
  proof
    assume "contains_vertex (s_dag (processBuffer s)) h"
    then show "deliverable {h. contains_vertex (s_dag s) h} (set (buffer s)) (currentRound s) h"
      using causal_deliverable [OF ins(3), of "set (buffer s)"] sets
      by (auto simp: has intro: deliverable_start)
  next
    assume "deliverable {h. contains_vertex (s_dag s) h} (set (buffer s)) (currentRound s) h"
    then show "contains_vertex (s_dag (processBuffer s)) h"
    proof (induction rule: deliverable.induct)
      case (deliverable_vertex v)
      then have "ready (currentRound s) (s_dag (processBuffer s)) v" by (auto simp: ready_def)
      then show ?case using deliverable_vertex(1) sets ins(4) has by blast
    qed (simp add: has)
  qed
qed

section \<open>Runs of the state\<close>

datatype state_op =
    AddVertexOp vertex
  | AdvanceRoundOp
  | AddBlockOp block
  | NextBlockOp

fun state_step :: "state \<Rightarrow> state_op \<Rightarrow> state" where
  "state_step s (AddVertexOp v) = AddVertex s v"
| "state_step s AdvanceRoundOp = AdvanceRound s"
| "state_step s (AddBlockOp b) = AddBlockToPropose s b"
| "state_step s NextBlockOp = snd (GetNextBlockToPropose s)"

definition arrivals :: "state_op list \<Rightarrow> vertex set" where
  "arrivals ops = {v. AddVertexOp v \<in> set ops}"

definition advances :: "state_op list \<Rightarrow> nat" where
  "advances ops = length (filter (\<lambda>x. x = AdvanceRoundOp) ops)"

text \<open>
  The relation between a state and its abstract view: the vertices \<open>A\<close> that arrived and the
  genesis \<open>g\<close>.  \<open>log\<close> is the order in which the vertices entered the graph.
\<close>

definition state_rel :: "vertex \<Rightarrow> vertex set \<Rightarrow> state \<Rightarrow> bool" where
  "state_rel g A s \<longleftrightarrow>
     (\<forall>h. contains_vertex (s_dag s) h \<longleftrightarrow> deliverable {vx_hash g} A (currentRound s) h)
   \<and> deliveredVertices s = {h. contains_vertex (s_dag s) h}
   \<and> set (buffer s) \<subseteq> A
   \<and> (\<forall>v\<in>A. contains_vertex (s_dag s) (vx_hash v) \<or> v \<in> set (buffer s))
   \<and> (\<forall>v\<in>set (buffer s). \<not> ready (currentRound s) (s_dag s) v)
   \<and> vx_hash g \<notin> vx_hash ` set (buffer s)
   \<and> (\<exists>log. s_dag s = foldl InsertVertex (NewDAG g) log \<and> set log \<subseteq> A
        \<and> causal (currentRound s) (NewDAG g) log \<and> vx_hash g \<notin> vx_hash ` set log)"

lemma state_rel_NewState: "state_rel g {} (NewState g)"
proof -
  have "deliverable {vx_hash g} {} 0 h \<longleftrightarrow> h = vx_hash g" for h
    by (auto intro: deliverable_start elim: deliverable.cases)
  moreover have "\<exists>log. NewDAG g = foldl InsertVertex (NewDAG g) log \<and> set log \<subseteq> {}
      \<and> causal 0 (NewDAG g) log \<and> vx_hash g \<notin> vx_hash ` set log"
    by (intro exI [of _ "[]"]) simp
  ultimately show ?thesis
    by (simp add: state_rel_def NewState_def contains_NewDAG)
qed

text \<open>
  The step both \<open>AddVertex\<close> and \<open>AdvanceRound\<close> end with: the graph was extended by
  \<open>new\<close> (in causal order), the buffer holds every arrived vertex that is not in the graph,
  and \<open>processBuffer\<close> re-establishes the relation.
\<close>

lemma state_rel_processBuffer:
  assumes has: "\<And>h. contains_vertex (s_dag s) h \<Longrightarrow> deliverable {vx_hash g} A (currentRound s) h"
    and dl: "deliveredVertices s = {h. contains_vertex (s_dag s) h}"
    and buf: "set (buffer s) \<subseteq> A"
    and rest: "\<And>v. v \<in> A \<Longrightarrow> contains_vertex (s_dag s) (vx_hash v) \<or> v \<in> set (buffer s)"
    and fresh: "vx_hash g \<notin> vx_hash ` set (buffer s)"
    and log: "s_dag s = foldl InsertVertex (NewDAG g) log" "set log \<subseteq> A"
      "causal (currentRound s) (NewDAG g) log" "vx_hash g \<notin> vx_hash ` set log"
  shows "state_rel g A (processBuffer s)"
proof -
  obtain ins where ins: "s_dag (processBuffer s) = foldl InsertVertex (s_dag s) ins"
    "deliveredVertices (processBuffer s) = deliveredVertices s \<union> vx_hash ` set ins"
    "mset (buffer s) = mset (buffer (processBuffer s)) + mset ins"
    "causal (currentRound s) (s_dag s) ins" "currentRound (processBuffer s) = currentRound s"
    "\<forall>v\<in>set (buffer (processBuffer s)). \<not> ready (currentRound s) (s_dag (processBuffer s)) v"
    using processBuffer_spec [of s] by blast
  have sets: "set (buffer s) = set (buffer (processBuffer s)) \<union> set ins"
    using arg_cong [OF ins(3), of set_mset] by simp
  have has': "contains_vertex (s_dag (processBuffer s)) h
      \<longleftrightarrow> h \<in> vx_hash ` set ins \<or> contains_vertex (s_dag s) h" for h
    by (simp add: ins(1) dag_store.has_foldl)
  have gen: "contains_vertex (s_dag s) (vx_hash g)"
    by (simp add: log(1) dag_store.has_foldl contains_NewDAG)
  have "contains_vertex (s_dag (processBuffer s)) h
      \<longleftrightarrow> deliverable {vx_hash g} A (currentRound s) h" for h
    unfolding processBuffer_contains
    by (rule deliverable_resume) (use has gen buf rest in auto)
  moreover have "\<exists>log. s_dag (processBuffer s) = foldl InsertVertex (NewDAG g) log \<and> set log \<subseteq> A
      \<and> causal (currentRound s) (NewDAG g) log \<and> vx_hash g \<notin> vx_hash ` set log"
    using ins(1,4) log buf fresh sets
    by (intro exI [of _ "log @ ins"]) (auto simp: causal_append)
  moreover have "deliveredVertices (processBuffer s) = {h. contains_vertex (s_dag (processBuffer s)) h}"
    using ins(2) dl by (auto simp: has')
  moreover have "\<forall>v\<in>A. contains_vertex (s_dag (processBuffer s)) (vx_hash v)
      \<or> v \<in> set (buffer (processBuffer s))"
    using rest sets has' by blast
  moreover have "set (buffer (processBuffer s)) \<subseteq> A"
    "vx_hash g \<notin> vx_hash ` set (buffer (processBuffer s))"
    using sets buf fresh by auto
  ultimately show ?thesis
    using ins(6) by (simp add: state_rel_def ins(5))
qed

text \<open>A vertex that was delivered before, or is not ready, delivers nothing.\<close>

lemma deliverable_known:
  assumes rel: "state_rel g A s" and "vx_hash v \<in> deliveredVertices s"
  shows "deliverable {vx_hash g} (insert v A) (currentRound s) h \<longleftrightarrow> deliverable {vx_hash g} A (currentRound s) h"
proof -
  have "deliverable {h. contains_vertex (s_dag s) h} A (currentRound s) h
      \<longleftrightarrow> deliverable {vx_hash g} (insert v A) (currentRound s) h"
    by (rule deliverable_resume)
       (use assms in \<open>auto simp: state_rel_def intro: deliverable_mono deliverable_start\<close>)
  moreover have "deliverable {h. contains_vertex (s_dag s) h} A (currentRound s) h
      \<longleftrightarrow> deliverable {vx_hash g} A (currentRound s) h"
    by (rule deliverable_resume)
       (use rel in \<open>auto simp: state_rel_def intro: deliverable_start\<close>)
  ultimately show ?thesis by simp
qed

lemma deliverable_not_ready:
  assumes rel: "state_rel g A s" and "\<not> ready (currentRound s) (s_dag s) v"
  shows "deliverable {vx_hash g} (insert v A) (currentRound s) h \<longleftrightarrow> deliverable {vx_hash g} A (currentRound s) h"
proof
  show "deliverable {vx_hash g} (insert v A) (currentRound s) h \<Longrightarrow> deliverable {vx_hash g} A (currentRound s) h"
    by (induction rule: deliverable.induct)
       (use assms in \<open>auto simp: state_rel_def ready_def intro: deliverable.intros\<close>)
qed (auto intro: deliverable_mono)

lemma state_rel_AddVertex:
  assumes rel: "state_rel g A s"
  shows "state_rel g (insert v A) (AddVertex s v)"
proof (cases "vx_hash v \<in> deliveredVertices s")
  case True
  then show ?thesis
    using rel deliverable_known [OF rel True] by (auto simp: state_rel_def AddVertex_def)
next
  case new: False
  obtain log where log: "s_dag s = foldl InsertVertex (NewDAG g) log" "set log \<subseteq> A"
      "causal (currentRound s) (NewDAG g) log" "vx_hash g \<notin> vx_hash ` set log"
    using rel by (auto simp: state_rel_def)
  have "contains_vertex (s_dag s) (vx_hash g)"
    by (simp add: log(1) dag_store.has_foldl contains_NewDAG)
  with new rel have ng: "vx_hash v \<noteq> vx_hash g" by (auto simp: state_rel_def)
  show ?thesis
  proof (cases "ready (currentRound s) (s_dag s) v")
    case True
    let ?s = "s\<lparr>s_dag := InsertVertex (s_dag s) v,
                deliveredVertices := insert (vx_hash v) (deliveredVertices s)\<rparr>"
    have dv: "deliverable {vx_hash g} (insert v A) (currentRound s) (vx_hash v)"
      using True rel by (intro deliverable_vertex)
        (auto simp: ready_def state_rel_def intro: deliverable_mono)
    have "state_rel g (insert v A) (processBuffer ?s)"
    proof (rule state_rel_processBuffer [where log = "log @ [v]"])
      fix h assume "contains_vertex (s_dag ?s) h"
      then show "deliverable {vx_hash g} (insert v A) (currentRound ?s) h"
        using rel dv by (auto simp: dag_store.has_ins state_rel_def intro: deliverable_mono)
    qed (use rel log True ng in
        \<open>auto simp: dag_store.has_ins state_rel_def causal_append\<close>)
    then show ?thesis using new True by (simp add: AddVertex_def ready_iff)
  next
    case False
    then show ?thesis
      using rel new ng log deliverable_not_ready [OF rel False] by (fastforce simp: state_rel_def AddVertex_def ready_iff)
  qed
qed

lemma state_rel_AdvanceRound:
  assumes rel: "state_rel g A s" and no_wrap: "currentRound s \<noteq> - 1"
  shows "state_rel g A (AdvanceRound s)"
proof -
  obtain log where log: "s_dag s = foldl InsertVertex (NewDAG g) log" "set log \<subseteq> A"
      "causal (currentRound s) (NewDAG g) log" "vx_hash g \<notin> vx_hash ` set log"
    using rel by (auto simp: state_rel_def)
  have le: "currentRound s \<le> currentRound s + 1"
    using no_wrap by (rule word_le_Suc)
  show ?thesis
    unfolding AdvanceRound_def
    by (rule state_rel_processBuffer [where log = log])
       (use rel log le in \<open>auto simp: state_rel_def intro: deliverable_mono causal_mono\<close>)
qed

section \<open>Every reachable state\<close>

lemma dag_ok_foldl: "dag_ok d \<Longrightarrow> dag_ok (foldl InsertVertex d vs)"
  by (induction vs arbitrary: d) (auto intro: dag_ok_InsertVertex)

text \<open>
  The graph is well-formed, the delivered hashes are the hashes in the graph, and nothing in
  the buffer could be delivered.  No step breaks this, not even the one that wraps the round
  counter around.
\<close>

definition state_ok :: "state \<Rightarrow> bool" where
  "state_ok s \<longleftrightarrow> dag_ok (s_dag s)
     \<and> deliveredVertices s = {h. contains_vertex (s_dag s) h}
     \<and> (\<forall>v\<in>set (buffer s). \<not> ready (currentRound s) (s_dag s) v)"

lemma state_ok_processBuffer:
  assumes "dag_ok (s_dag s)" and "deliveredVertices s = {h. contains_vertex (s_dag s) h}"
  shows "state_ok (processBuffer s)"
  using processBuffer_spec [of s] assms
  by (auto simp: state_ok_def dag_store.has_foldl intro: dag_ok_foldl)

lemma state_ok_NewState: "vx_round g = 0 \<Longrightarrow> state_ok (NewState g)"
  by (simp add: state_ok_def NewState_def dag_ok_NewDAG contains_NewDAG)

lemma state_ok_AddVertex: "state_ok s \<Longrightarrow> state_ok (AddVertex s v)"
  by (auto simp: AddVertex_def ready_iff state_ok_def [of s] dag_store.has_ins
      intro!: state_ok_processBuffer dag_ok_InsertVertex) (simp add: state_ok_def)

lemma state_ok_AdvanceRound: "state_ok s \<Longrightarrow> state_ok (AdvanceRound s)"
  by (auto simp: AdvanceRound_def state_ok_def [of s] intro!: state_ok_processBuffer)

lemma state_ok_frame:
  "state_ok (s\<lparr>blocksToPropose := bs\<rparr>) = state_ok s"
  by (simp add: state_ok_def)

lemma state_ok_step: "state_ok s \<Longrightarrow> state_ok (state_step s x)"
  by (cases x) (simp_all add: state_ok_AddVertex state_ok_AdvanceRound AddBlockToPropose_def
      GetNextBlockToPropose_def state_ok_frame split: list.split)

interpretation state_inv: inductive_invariant
    "\<lambda>s. \<exists>g. vx_round g = 0 \<and> s = NewState g" "\<lambda>s t. \<exists>x. t = state_step s x" state_ok
  by unfold_locales (auto intro: state_ok_NewState state_ok_step)

theorem state_reachable_ok:
  assumes "vx_round g = 0"
  shows "state_ok (run_ops state_step (NewState g) ops)"
proof (rule run_ops_invariant)
  show "state_ok (NewState g)" using assms by (auto intro: state_inv.init_inv)
qed (auto intro: state_inv.step_inv)

theorem state_reachable_ok_witness:
  "state_ok (run_ops state_step (NewState (sample_vertex 0 0 []))
     [AddVertexOp (sample_vertex 2 2 [(1, 1)]), AdvanceRoundOp, AddVertexOp (sample_vertex 1 1 [(0, 0)])])"
  by (rule state_reachable_ok) simp

lemma state_rel_frame: "state_rel g A (s\<lparr>blocksToPropose := bs\<rparr>) = state_rel g A s"
  by (simp add: state_rel_def)

lemma currentRound_processBuffer [simp]: "currentRound (processBuffer s) = currentRound s"
  using processBuffer_spec [of s] by blast

lemma currentRound_step:
  "currentRound (state_step s x) = (if x = AdvanceRoundOp then currentRound s + 1 else currentRound s)"
  by (cases x) (simp_all add: AdvanceRound_def AddVertex_def AddBlockToPropose_def
      GetNextBlockToPropose_def split: list.split)

lemma state_rel_step:
  assumes "state_rel g A s" and "x = AdvanceRoundOp \<Longrightarrow> currentRound s \<noteq> - 1"
  shows "state_rel g (A \<union> arrivals [x]) (state_step s x)"
  using assms state_rel_AddVertex [OF assms(1)] state_rel_AdvanceRound [OF assms(1)]
  by (cases x) (auto simp: arrivals_def AddBlockToPropose_def GetNextBlockToPropose_def
      state_rel_frame split: list.split)

lemma state_rel_run:
  "state_rel g A s \<Longrightarrow> unat (currentRound s) + advances ops < 2 ^ 64
    \<Longrightarrow> state_rel g (A \<union> arrivals ops) (run_ops state_step s ops)
      \<and> unat (currentRound (run_ops state_step s ops)) = unat (currentRound s) + advances ops"
proof (induction ops arbitrary: A s)
  case Nil
  then show ?case by (simp add: arrivals_def advances_def)
next
  case (Cons x ops)
  have nw: "currentRound s \<noteq> - 1" if "x = AdvanceRoundOp"
    using Cons.prems(2) that by (auto simp: advances_def unat_max64)
  have rel: "state_rel g (A \<union> arrivals [x]) (state_step s x)"
    using Cons.prems(1) nw by (rule state_rel_step)
  have round: "unat (currentRound (state_step s x)) + advances ops = unat (currentRound s) + advances (x # ops)"
    using nw by (simp add: currentRound_step advances_def unat_Suc)
  have "A \<union> arrivals [x] \<union> arrivals ops = A \<union> arrivals (x # ops)"
    by (auto simp: arrivals_def)
  then show ?case
    using Cons.IH [OF rel] Cons.prems(2) round by simp
qed

lemma delivered_iff_deliverable:
  assumes "advances ops < 2 ^ 64"
  shows "IsVertexDelivered (run_ops state_step (NewState g) ops) h
           \<longleftrightarrow> deliverable {vx_hash g} (arrivals ops) (of_nat (advances ops)) h"
proof -
  let ?s = "run_ops state_step (NewState g) ops"
  have rel: "state_rel g (arrivals ops) ?s" and "unat (currentRound ?s) = advances ops"
    using state_rel_run [OF state_rel_NewState, of g ops] assms by (simp_all add: NewState_def)
  then have "currentRound ?s = of_nat (advances ops)" by (simp add: of_nat_of_unat)
  with rel show ?thesis by (simp add: state_rel_def IsVertexDelivered_def)
qed

text \<open>
  C1. After any sequence of operations on a fresh consensus state (vertices added, rounds
  advanced, blocks queued), the delivered vertices are exactly those the abstract
  specification deliverable allows: the least set with the genesis vertex and every
  arrived vertex whose round has been reached and whose parents are all in it.
\<close>

theorem state_delivers_closure:
  assumes "advances ops < 2 ^ 64"
  shows "IsVertexDelivered (run_ops state_step (NewState g) ops) h
           \<longleftrightarrow> deliverable {vx_hash g} (arrivals ops) (of_nat (advances ops)) h"
  using assms by (rule delivered_iff_deliverable)

text \<open>
  C2. Two runs of the consensus state that saw the same vertices and the same number of
  rounds, in whatever order, have delivered the same set of vertices.
\<close>

theorem delivery_order_irrelevant:
  assumes "arrivals ops = arrivals ops'" and "advances ops = advances ops'"
    and "advances ops < 2 ^ 64"
  shows "deliveredVertices (run_ops state_step (NewState g) ops)
       = deliveredVertices (run_ops state_step (NewState g) ops')"
  using delivered_iff_deliverable [of ops g] delivered_iff_deliverable [of ops' g] assms
  by (auto simp: IsVertexDelivered_def)

theorem state_delivers_closure_witness:
  "IsVertexDelivered (run_ops state_step (NewState (sample_vertex 0 0 []))
      [AddVertexOp (sample_vertex 1 1 [(0, 0)]), AdvanceRoundOp]) (array32 [1])"
proof -
  let ?ops = "[AddVertexOp (sample_vertex 1 1 [(0, 0)]), AdvanceRoundOp]"
  have adv: "advances ?ops = 1" by (simp add: advances_def)
  have "deliverable {array32 [0]} (arrivals ?ops) 1 (vx_hash (sample_vertex 1 1 [(0, 0)]))"
    by (rule deliverable_vertex) (auto simp: arrivals_def intro: deliverable_start)
  then show ?thesis
    using state_delivers_closure [of ?ops "sample_vertex 0 0 []" "array32 [1]"] by (simp add: adv)
qed

theorem delivery_order_irrelevant_witness:
  "deliveredVertices (run_ops state_step (NewState (sample_vertex 0 0 []))
      [AddVertexOp (sample_vertex 2 1 [(1, 1)]), AddVertexOp (sample_vertex 1 1 [(0, 0)]), AdvanceRoundOp])
   = deliveredVertices (run_ops state_step (NewState (sample_vertex 0 0 []))
      [AdvanceRoundOp, AddVertexOp (sample_vertex 1 1 [(0, 0)]), AddVertexOp (sample_vertex 2 1 [(1, 1)])])"
  by (rule delivery_order_irrelevant) (auto simp: arrivals_def advances_def)

section \<open>The strong edges form no cycle\<close>

lemma strongEdges_foldl:
  "p \<in> edge_set (strongEdges (foldl InsertVertex (NewDAG g) vs)) h
    \<Longrightarrow> \<exists>v\<in>set vs. vx_hash v = h \<and> p \<in> fst ` set (vx_parents v)"
proof (induction vs rule: rev_induct)
  case Nil
  then show ?case by (simp add: edge_set_def NewDAG_def)
next
  case (snoc v vs)
  then show ?case by (auto simp: strongEdges_InsertVertex edge_set_update split: if_splits)
qed

lemma causal_parents:
  assumes "causal cr d (vs @ [v])" and "w \<in> set (vs @ [v])" and "p \<in> fst ` set (vx_parents w)"
  shows "p \<in> vx_hash ` set vs \<or> contains_vertex d p"
proof -
  obtain us ws where split: "vs @ [v] = us @ w # ws" using assms(2) by (metis split_list)
  then have "set us \<subseteq> set vs" by (cases ws rule: rev_cases) auto
  moreover have "p \<in> vx_hash ` set us \<or> contains_vertex d p"
    using assms(1,3) unfolding split
    by (auto simp: causal_append ready_def dag_store.has_foldl)
  ultimately show ?thesis by blast
qed

text \<open>A rank that every parent edge lowers: the place of a vertex in the causal order.\<close>

lemma causal_rank:
  assumes "causal cr (NewDAG g) vs" and "inj_on vx_hash (set vs)" and "vx_hash g \<notin> vx_hash ` set vs"
  shows "\<exists>rank :: vertex_hash \<Rightarrow> nat.
           \<forall>v\<in>set vs. \<forall>p\<in>fst ` set (vx_parents v). rank p < rank (vx_hash v)"
  using assms
proof (induction vs rule: rev_induct)
  case (snoc v vs)
  then obtain rank :: "vertex_hash \<Rightarrow> nat" where
    rank: "\<forall>w\<in>set vs. \<forall>p\<in>fst ` set (vx_parents w). rank p < rank (vx_hash w)"
    by (auto simp: causal_append)
  have parents: "fst ` set (vx_parents w) \<subseteq> insert (vx_hash g) (vx_hash ` set vs)"
    if "w \<in> set (vs @ [v])" for w
    using causal_parents [OF snoc.prems(1) that] by (auto simp: contains_NewDAG)
  show ?case
  proof (cases "vx_hash v \<in> vx_hash ` set vs")
    case True
    then have "v \<in> set vs" using snoc.prems(2) by (auto simp: inj_on_def)
    then show ?thesis using rank by auto
  next
    case False
    let ?r = "rank(vx_hash v := Suc (\<Sum>p\<in>fst ` set (vx_parents v). rank p))"
    have new: "vx_hash v \<notin> insert (vx_hash g) (vx_hash ` set vs)"
      using False snoc.prems(3) by auto
    have "?r p < ?r (vx_hash w)" if "w \<in> set (vs @ [v])" "p \<in> fst ` set (vx_parents w)" for w p
    proof -
      have p: "?r p = rank p" using parents [OF that(1)] that(2) new by auto
      show ?thesis
      proof (cases "w = v")
        case True
        then have "rank p \<le> (\<Sum>p\<in>fst ` set (vx_parents v). rank p)"
          using that(2) by (intro member_le_sum) auto
        then show ?thesis unfolding p using True by simp
      next
        case other: False
        then have "w \<in> set vs" using that(1) by simp
        moreover have "vx_hash w \<noteq> vx_hash v" using False calculation by (metis imageI)
        ultimately show ?thesis unfolding p using rank that(2) by auto
      qed
    qed
    then show ?thesis by blast
  qed
qed simp

text \<open>
  C4. When no two arriving vertices share a hash, the strong edges of the graph of a
  consensus state never form a cycle, whatever parents the vertices name.
\<close>

theorem strong_edges_acyclic:
  assumes "inj_on vx_hash (arrivals ops)" and "advances ops < 2 ^ 64"
  shows "acyclic {(h, p). p \<in> edge_set (strongEdges (s_dag (run_ops state_step (NewState g) ops))) h}"
proof -
  let ?s = "run_ops state_step (NewState g) ops"
  have "state_rel g (arrivals ops) ?s"
    using state_rel_run [OF state_rel_NewState, of g ops] assms(2) by (simp add: NewState_def)
  then obtain log where log: "s_dag ?s = foldl InsertVertex (NewDAG g) log"
    "set log \<subseteq> arrivals ops" "causal (currentRound ?s) (NewDAG g) log"
    "vx_hash g \<notin> vx_hash ` set log"
    by (auto simp: state_rel_def)
  obtain rank :: "vertex_hash \<Rightarrow> nat" where
    "\<forall>v\<in>set log. \<forall>p\<in>fst ` set (vx_parents v). rank p < rank (vx_hash v)"
    using causal_rank [OF log(3) inj_on_subset [OF assms(1) log(2)] log(4)] by blast
  then show ?thesis
    by (intro acyclicI_order [where f = rank]) (auto simp: log(1) dest!: strongEdges_foldl)
qed

theorem strong_edges_acyclic_witness:
  "acyclic {(h, p). p \<in> edge_set (strongEdges (s_dag (run_ops state_step (NewState (sample_vertex 0 0 []))
      [AdvanceRoundOp, AddVertexOp (sample_vertex 1 1 [(0, 0)]), AddVertexOp (sample_vertex 2 1 [(1, 1)])]))) h}"
  by (rule strong_edges_acyclic) (auto simp: arrivals_def advances_def inj_on_def)

section \<open>Waves\<close>

lemma unat_minus_4: "unat (- 4 :: u64) = 2 ^ 64 - 4"
  by simp

lemma wave_leader_spec:
  assumes "iteration it"
  shows "State_GetWaveVertexLeader it s w = None \<longleftrightarrow> round_map (s_dag s) (GetRoundForWave w) = []"
    and "State_GetWaveVertexLeader it s w = Some v
           \<Longrightarrow> v \<in> snd ` set (round_map (s_dag s) (GetRoundForWave w))"
  using set_GetVerticesInRound [OF assms, of "s_dag s" "GetRoundForWave w"]
  by (auto simp: State_GetWaveVertexLeader_def split: list.splits)

definition bring_first :: "'a \<Rightarrow> 'a list \<Rightarrow> 'a list" where
  "bring_first x xs = (if x \<in> set xs then x # remove1 x xs else xs)"

lemma iteration_bring_first: "iteration (bring_first x)"
  by (simp add: iteration_def bring_first_def)

theorem wave_leader_any:
  "(\<exists>it. iteration it \<and> State_GetWaveVertexLeader it s w = Some v)
     \<longleftrightarrow> v \<in> snd ` set (round_map (s_dag s) (GetRoundForWave w))"
proof
  assume "v \<in> snd ` set (round_map (s_dag s) (GetRoundForWave w))"
  then obtain h m where "map_of (vertices (s_dag s)) (GetRoundForWave w) = Some m"
    and "(h, v) \<in> set m"
    by (cases "map_of (vertices (s_dag s)) (GetRoundForWave w)") (auto simp: round_map_def)
  then have "State_GetWaveVertexLeader (bring_first (h, v)) s w = Some v"
    by (simp add: State_GetWaveVertexLeader_def GetVerticesInRound_def bring_first_def)
  then show "\<exists>it. iteration it \<and> State_GetWaveVertexLeader it s w = Some v"
    by (intro exI conjI) (rule iteration_bring_first)
next
  assume "\<exists>it. iteration it \<and> State_GetWaveVertexLeader it s w = Some v"
  then show "v \<in> snd ` set (round_map (s_dag s) (GetRoundForWave w))"
    by (elim exE conjE) (rule wave_leader_spec(2))
qed

lemma ordered_loop_result:
  "unat r \<le> unat e + 1 \<Longrightarrow> e \<noteq> - 1 \<Longrightarrow>
     ordered_loop it d r e acc
     = Some (acc @ concat (map (\<lambda>i. elems (GetVerticesInRound it d (r + of_nat i)))
                               [0..<unat e + 1 - unat r]))"
proof (induction "unat e + 1 - unat r" arbitrary: r acc)
  case 0
  then have "\<not> r \<le> e" by (simp add: unat_le_iff)
  then show ?case using 0 by (subst ordered_loop.simps) simp
next
  case (Suc n)
  then have le: "r \<le> e" by (simp add: unat_le_iff)
  have "r \<noteq> - 1" using le Suc.prems(2) by (metis word_order.extremum_unique)
  then have r1: "unat (r + 1) = unat r + 1" by (rule unat_Suc)
  have range: "[0..<unat e + 1 - unat r] = 0 # map Suc [0..<unat e + 1 - unat (r + 1)]"
  proof -
    have "unat e + 1 - unat r = Suc (unat e + 1 - unat (r + 1))"
      using Suc.hyps(2) r1 by simp
    then show ?thesis by (simp only: map_Suc_upt upt_conv_Cons zero_less_Suc)
  qed
  have "ordered_loop it d r e acc
      = ordered_loop it d (r + 1) e (acc @ elems (GetVerticesInRound it d r))"
    using le by (subst ordered_loop.simps) simp
  also have "\<dots> = Some ((acc @ elems (GetVerticesInRound it d r))
      @ concat (map (\<lambda>i. elems (GetVerticesInRound it d (r + 1 + of_nat i)))
                    [0..<unat e + 1 - unat (r + 1)]))"
    using Suc.hyps(2) Suc.prems le r1 by (intro Suc.hyps(1)) (simp_all add: unat_le_iff)
  finally show ?case unfolding range by (simp add: comp_def add.assoc)
qed

lemma ordered_loop_diverges: "ordered_loop it d r (- 1) acc = None"
proof -
  have "e \<noteq> - 1" if "ordered_loop it d r e acc = Some y" for e y
    by (rule ordered_loop.raw_induct [where P = "\<lambda>it d r e acc y. e \<noteq> - 1", OF _ that])
       (auto split: if_splits)
  then show ?thesis by (cases "ordered_loop it d r (- 1) acc") blast+
qed

lemma GetOrderedVertices_result:
  assumes "GetRoundForWave w \<noteq> - 4"
  shows "GetOrderedVertices it s w =
     Some (concat (map (\<lambda>i. elems (GetVerticesInRound it (s_dag s) (GetRoundForWave w + of_nat i)))
                       [0..<4]))"
proof -
  let ?r = "GetRoundForWave w"
  have "unat ?r = unat w * 4 mod 2 ^ 64"
    by (simp add: GetRoundForWave_def MaxWave_def unat_word_ariths)
  then have "unat ?r mod 4 = 0" by (simp add: mod_mod_cancel)
  moreover have "unat ?r \<noteq> 2 ^ 64 - 4" using assms unat_minus_4 by (metis word_unat_eq_iff)
  ultimately have r: "unat ?r + 3 < 2 ^ 64 - 1" using unat_lt2p [of ?r] by simp presburger
  then have e: "unat (?r + MaxWave - 1) = unat ?r + 3"
    by (simp add: MaxWave_def unat_word_ariths)
  then have "?r + MaxWave - 1 \<noteq> - 1" using r unat_max64 by auto
  then show ?thesis
    using e by (simp add: GetOrderedVertices_def Let_def ordered_loop_result)
qed

text \<open>
  C15. For every wave but the last one the 64 bits can hold, GetOrderedVertices returns
  the vertices of the four rounds of the wave, round by round.
\<close>

theorem GetOrderedVertices_wave:
  assumes "GetRoundForWave w \<noteq> - 4"
  shows "GetOrderedVertices it s w =
     Some (concat (map (\<lambda>i. elems (GetVerticesInRound it (s_dag s) (GetRoundForWave w + of_nat i)))
                       [0..<4]))"
  using assms by (rule GetOrderedVertices_result)

text \<open>
  C16. For the waves whose first round is the largest multiple of 4 in 64 bits
  GetOrderedVertices does not return: its round counter wraps around below the end round,
  with the read lock held.
\<close>

theorem GetOrderedVertices_last_wave:
  assumes "GetRoundForWave w = - 4"
  shows "GetOrderedVertices it s w = None"
  using assms by (simp add: GetOrderedVertices_def MaxWave_def ordered_loop_diverges)

theorem GetOrderedVertices_wave_witness:
  "GetOrderedVertices rev (NewState (sample_vertex 0 0 [])) 0 = Some [sample_vertex 0 0 []]"
proof -
  have "GetRoundForWave 0 = 0" by (simp add: GetRoundForWave_def)
  moreover from this have "GetRoundForWave 0 \<noteq> - 4" by simp
  moreover have "[0..<4] = [0, 1, 2, 3]" by (simp add: upt_rec)
  ultimately show ?thesis
    using GetOrderedVertices_wave [of 0 rev "NewState (sample_vertex 0 0 [])"]
    by (simp add: NewState_def NewDAG_def GetVerticesInRound_def)
qed

theorem GetOrderedVertices_last_wave_witness:
  "GetOrderedVertices rev (NewState (sample_vertex 0 0 [])) 4611686018427387903 = None"
  by (rule GetOrderedVertices_last_wave) (simp add: GetRoundForWave_def MaxWave_def)

section \<open>Blocks to propose: a queue\<close>

text \<open>
  \<open>AddBlockToPropose\<close> and \<open>GetNextBlockToPropose\<close>, as the operations of a queue.
\<close>

definition propose_put :: "state \<Rightarrow> block \<Rightarrow> state option" where
  "propose_put s b = Some (AddBlockToPropose s b)"

definition propose_get :: "state \<Rightarrow> (block \<times> state) option" where
  "propose_get s = (case GetNextBlockToPropose s of (None, _) \<Rightarrow> None | (Some b, s') \<Rightarrow> Some (b, s'))"

interpretation proposals: fifo_queue propose_put propose_get blocksToPropose
  by unfold_locales
     (auto simp: propose_put_def propose_get_def AddBlockToPropose_def GetNextBlockToPropose_def
       split: list.splits)

lemma puts_proposals: "puts propose_put s bs = Some (foldl AddBlockToPropose s bs)"
  by (induction bs arbitrary: s) (auto simp: propose_put_def)

theorem proposals_in_order:
  assumes "\<not> HasBlocksToPropose s"
  shows "fst (takes propose_get (length bs) (foldl AddBlockToPropose s bs)) = bs
     \<and> (HasBlocksToPropose (foldl AddBlockToPropose s bs) \<longleftrightarrow> bs \<noteq> [])"
proof -
  have empty: "blocksToPropose s = []" using assms by (simp add: HasBlocksToPropose_def)
  show ?thesis
    using proposals.fifo_order [OF empty puts_proposals, of bs]
      proposals.contents_puts [OF puts_proposals, of s bs] empty
    by (simp add: HasBlocksToPropose_def)
qed

theorem proposals_in_order_witness:
  "fst (takes propose_get 2 (foldl AddBlockToPropose (NewState (sample_vertex 0 0 []))
       [NewBlock (\<lambda>x. x) zero_time 1 None, NewBlock (\<lambda>x. x) zero_time 2 None]))
   = [NewBlock (\<lambda>x. x) zero_time 1 None, NewBlock (\<lambda>x. x) zero_time 2 None]"
  using proposals_in_order [of "NewState (sample_vertex 0 0 [])"
      "[NewBlock (\<lambda>x. x) zero_time 1 None, NewBlock (\<lambda>x. x) zero_time 2 None]"]
  by (simp add: HasBlocksToPropose_def NewState_def eval_nat_numeral)

section \<open>Marked but never inserted\<close>

text \<open>
  A vertex marked as delivered by hand is not taken any more, and neither is a vertex that
  has it as a parent.
\<close>

theorem mark_without_insert_blocks:
  assumes "vx_hash v = h" and "contains_vertex (s_dag s) h = False"
    and "h \<in> fst ` set (vx_parents w)" and "vx_hash w \<notin> deliveredVertices s" and "vx_hash w \<noteq> h"
  shows "AddVertex (MarkVertexDelivered s h) v = MarkVertexDelivered s h
     \<and> AddVertex (MarkVertexDelivered s h) w
         = (MarkVertexDelivered s h)\<lparr>buffer := buffer s @ [w]\<rparr>"
  using assms by (auto simp: AddVertex_def MarkVertexDelivered_def ready_iff ready_def)

end
