(* ===== verification/Model_Committee.thy ===== *)
theory Model_Committee
  imports Model_Types Go_Encoding
begin

text \<open>
  pkg/model/committee.go: validators and the committee.

  ed25519 and blake3 are not part of the repository: \<open>pub\<close> is the parameter that maps a
  seed to the public key of its key pair, \<open>blake\<close> the hash.  An address is what
  \<open>net.ResolveTCPAddr\<close> makes of a literal IP address and a port; for these arguments it
  never fails.  A function that returns a \<open>net.Addr\<close> or pointer that may be nil returns an
  option.
\<close>

section \<open>State and operations\<close>

record net_addr =
  ip :: "byte list"
  port :: u16

definition addr_network :: "net_addr \<Rightarrow> byte list" where
  "addr_network a = str ''tcp''"

definition addr_string :: "net_addr \<Rightarrow> byte list" where
  "addr_string a = ip a @ str '':'' @ dec_digits (unat (port a))"

definition resolve_tcp :: "u16 \<Rightarrow> net_addr" where
  "resolve_tcp p = \<lparr>ip = str ''0.0.0.0'', port = p\<rparr>"

record validator =
  Address :: net_addr
  TxAddress :: net_addr
  BlockAddress :: net_addr
  VertexAddress :: net_addr
  PublicKey :: node_public_key

text \<open>
  The key bytes are sliced to 32, which panics on a shorter key; so does the slice of the
  hash (blake3 sums have 32 bytes).
\<close>

definition NewValidator ::
  "(byte list \<Rightarrow> byte list) \<Rightarrow> (byte list \<Rightarrow> byte list) \<Rightarrow> byte list
   \<Rightarrow> u16 \<Rightarrow> u16 \<Rightarrow> u16 \<Rightarrow> u16 \<Rightarrow> (hex_error, validator) outcome" where
  "NewValidator pub blake keypairHex p txPort blockPort vertexPort =
     (case hex_decode keypairHex of
        Inl e \<Rightarrow> Err e
      | Inr keypairBytes \<Rightarrow>
          (if length keypairBytes < 32 then Panic
           else
             (let publicKeyHash = blake (pub (take 32 keypairBytes))
              in if length publicKeyHash < 32 then Panic
                 else Ok \<lparr>Address = resolve_tcp p, TxAddress = resolve_tcp txPort,
                          BlockAddress = resolve_tcp blockPort,
                          VertexAddress = resolve_tcp vertexPort,
                          PublicKey = array32 (take 32 publicKeyHash)\<rparr>)))"

record committee =
  Validators :: "(node_id, validator) gomap"

text \<open>
  The loop \<open>for i := 1; i <= numValidators; i++\<close>, here over the list of the numbers.
  \<open>rnd i\<close> is the seed read from \<open>crypto/rand\<close> for validator \<open>i\<close>; \<open>None\<close> is a
  failed read.  Every error in the loop is a panic.
\<close>

fun committee_loop ::
  "(byte list \<Rightarrow> byte list) \<Rightarrow> (byte list \<Rightarrow> byte list) \<Rightarrow> (nat \<Rightarrow> byte list option)
   \<Rightarrow> nat list \<Rightarrow> committee \<Rightarrow> (unit, committee) outcome" where
  "committee_loop pub blake rnd [] c = Ok c"
| "committee_loop pub blake rnd (i # is) c =
     (case rnd i of
        None \<Rightarrow> Panic
      | Some seed \<Rightarrow>
          (case NewValidator pub blake (hex_encode seed @ hex_encode (replicate 32 0)) 0 0 0 0 of
             Ok v \<Rightarrow>
               committee_loop pub blake rnd is
                 (c\<lparr>Validators := AList.update (of_nat i) v (Validators c)\<rparr>)
           | _ \<Rightarrow> Panic))"

definition numValidators :: nat where
  "numValidators = 7"

definition NewCommittee ::
  "(byte list \<Rightarrow> byte list) \<Rightarrow> (byte list \<Rightarrow> byte list) \<Rightarrow> (nat \<Rightarrow> byte list option)
   \<Rightarrow> (unit, committee) outcome" where
  "NewCommittee pub blake rnd =
     committee_loop pub blake rnd [1..<numValidators + 1] \<lparr>Validators = []\<rparr>"

definition Size :: "committee \<Rightarrow> nat" where
  "Size c = length (Validators c)"

text \<open>An \<open>int\<close>: an empty committee has threshold -1.\<close>

definition QuorumThreshold :: "committee \<Rightarrow> int" where
  "QuorumThreshold c = int (Size c) - 1"

type_synonym validator_order =
  "(node_id, validator) gomap \<Rightarrow> (node_id, validator) gomap"

definition GetNodeAddress :: "committee \<Rightarrow> node_id \<Rightarrow> net_addr option" where
  "GetNodeAddress c nid = (case map_of (Validators c) nid of Some v \<Rightarrow> Some (Address v) | None \<Rightarrow> None)"

definition GetNodeAddresses :: "validator_order \<Rightarrow> committee \<Rightarrow> net_addr list" where
  "GetNodeAddresses it c = map (\<lambda>(_, v). Address v) (it (Validators c))"

definition GetTxReceiverAddress :: "committee \<Rightarrow> node_id \<Rightarrow> net_addr option" where
  "GetTxReceiverAddress c nid =
     (case map_of (Validators c) nid of Some v \<Rightarrow> Some (TxAddress v) | None \<Rightarrow> None)"

definition GetTxReceiverAddresses :: "validator_order \<Rightarrow> committee \<Rightarrow> net_addr list" where
  "GetTxReceiverAddresses it c = map (\<lambda>(_, v). TxAddress v) (it (Validators c))"

definition GetBlockReceiverAddress :: "committee \<Rightarrow> node_id \<Rightarrow> net_addr option" where
  "GetBlockReceiverAddress c nid =
     (case map_of (Validators c) nid of Some v \<Rightarrow> Some (BlockAddress v) | None \<Rightarrow> None)"

definition GetBlockReceiverAddresses :: "validator_order \<Rightarrow> committee \<Rightarrow> net_addr list" where
  "GetBlockReceiverAddresses it c = map (\<lambda>(_, v). BlockAddress v) (it (Validators c))"

text \<open>
  \<open>make([]net.Addr, 0, len(c.Validators)-1)\<close> panics when the committee is empty: the
  capacity is negative.
\<close>

definition GetNodeAddressesButMe ::
  "validator_order \<Rightarrow> committee \<Rightarrow> node_id \<Rightarrow> (unit, net_addr list) outcome" where
  "GetNodeAddressesButMe it c nid =
     (if int (length (Validators c)) - 1 < 0 then Panic
      else Ok (map (\<lambda>(_, v). Address v) (filter (\<lambda>(vid, _). vid \<noteq> nid) (it (Validators c)))))"

definition GetNodesKeys :: "validator_order \<Rightarrow> committee \<Rightarrow> node_public_key list" where
  "GetNodesKeys it c = map (\<lambda>(_, v). PublicKey v) (it (Validators c))"

definition GetNodeKey :: "committee \<Rightarrow> node_id \<Rightarrow> node_public_key option" where
  "GetNodeKey c nid =
     (case map_of (Validators c) nid of Some v \<Rightarrow> Some (PublicKey v) | None \<Rightarrow> None)"

definition GetVertexReceiverAddress :: "committee \<Rightarrow> node_id \<Rightarrow> net_addr option" where
  "GetVertexReceiverAddress c nid =
     (case map_of (Validators c) nid of Some v \<Rightarrow> Some (VertexAddress v) | None \<Rightarrow> None)"

definition GetVertexReceiverAddresses :: "validator_order \<Rightarrow> committee \<Rightarrow> net_addr list" where
  "GetVertexReceiverAddresses it c = map (\<lambda>(_, v). VertexAddress v) (it (Validators c))"

section \<open>The committee the program starts with\<close>

definition committee_ok :: "committee \<Rightarrow> bool" where
  "committee_ok c \<longleftrightarrow> gomap_ok (Validators c)"

text \<open>The validator that the loop makes from a seed.\<close>

definition genesis_validator ::
  "(byte list \<Rightarrow> byte list) \<Rightarrow> (byte list \<Rightarrow> byte list) \<Rightarrow> byte list \<Rightarrow> validator" where
  "genesis_validator pub blake seed =
     \<lparr>Address = resolve_tcp 0, TxAddress = resolve_tcp 0, BlockAddress = resolve_tcp 0,
      VertexAddress = resolve_tcp 0, PublicKey = array32 (blake (pub seed))\<rparr>"

lemma NewValidator_seed:
  assumes "length seed = 32" and "length (blake (pub seed)) = 32"
  shows "NewValidator pub blake (hex_encode seed @ hex_encode (replicate 32 0)) p tx bl vx
       = Ok \<lparr>Address = resolve_tcp p, TxAddress = resolve_tcp tx, BlockAddress = resolve_tcp bl,
             VertexAddress = resolve_tcp vx, PublicKey = array32 (blake (pub seed))\<rparr>"
  using assms
  by (simp add: NewValidator_def hex_encode_append [symmetric] Let_def del: hex_encode.simps)

lemma NewValidator_padded_seed:
  assumes "length seed = 32" and "length (blake (pub seed)) = 32"
  shows "NewValidator pub blake (hex_encode seed @ hex_encode (replicate 32 0)) 0 0 0 0
       = Ok (genesis_validator pub blake seed)"
  using assms by (simp add: NewValidator_seed genesis_validator_def del: hex_encode.simps)

lemma committee_loop_ok:
  assumes "\<And>i. i \<in> set is \<Longrightarrow> \<exists>seed. rnd i = Some seed \<and> length seed = 32"
    and "\<And>bs. length (blake bs) = 32"
  shows "committee_loop pub blake rnd is c =
     Ok (c\<lparr>Validators :=
            foldl (\<lambda>vs i. AList.update (of_nat i) (genesis_validator pub blake (the (rnd i))) vs)
                  (Validators c) is\<rparr>)"
  using assms
proof (induction "is" arbitrary: c)
  case (Cons i "is")
  obtain seed where "rnd i = Some seed" and "length seed = 32" using Cons.prems(1) [of i] by auto
  then show ?case
    using Cons.IH Cons.prems by (simp add: NewValidator_padded_seed)
qed simp

definition genesis_committee ::
  "(byte list \<Rightarrow> byte list) \<Rightarrow> (byte list \<Rightarrow> byte list) \<Rightarrow> (nat \<Rightarrow> byte list option) \<Rightarrow> committee" where
  "genesis_committee pub blake rnd =
     \<lparr>Validators = map (\<lambda>i. (of_nat i, genesis_validator pub blake (the (rnd i)))) [1, 2, 3, 4, 5, 6, 7]\<rparr>"

lemma NewCommittee_value:
  assumes "\<And>i. i \<in> {1..7} \<Longrightarrow> \<exists>seed. rnd i = Some seed \<and> length seed = 32"
    and "\<And>bs. length (blake bs) = 32"
  shows "NewCommittee pub blake rnd = Ok (genesis_committee pub blake rnd)"
proof -
  have upt: "[1..<numValidators + 1] = [1, 2, 3, 4, 5, 6, 7]"
    by (simp add: numValidators_def upt_rec)
  show ?thesis
    unfolding NewCommittee_def upt genesis_committee_def using assms by (subst committee_loop_ok) auto
qed

lemma word_1_to_7: "0 < nid \<and> nid \<le> 7 \<longleftrightarrow> nid \<in> {1, 2, 3, 4, 5, 6, 7 :: node_id}"
proof -
  have "unat nid \<in> {1, 2, 3, 4, 5, 6, 7}" if "0 < nid \<and> nid \<le> 7"
    using that by (auto simp: word_less_nat_alt word_le_nat_alt)
  then have "0 < nid \<and> nid \<le> 7 \<Longrightarrow> nid \<in> {1, 2, 3, 4, 5, 6, 7}"
    by (auto dest: of_nat_of_unat)
  then show ?thesis by auto
qed

lemma genesis_committee_member:
  "map_of (Validators (genesis_committee pub blake rnd)) nid
     = (if 0 < nid \<and> nid \<le> 7 then Some (genesis_validator pub blake (the (rnd (unat nid)))) else None)"
  unfolding word_1_to_7 by (auto simp: genesis_committee_def)

lemma genesis_addresses:
  "GetNodeAddress (genesis_committee pub blake rnd) nid = (if 0 < nid \<and> nid \<le> 7 then Some (resolve_tcp 0) else None)"
  "GetTxReceiverAddress (genesis_committee pub blake rnd) nid = (if 0 < nid \<and> nid \<le> 7 then Some (resolve_tcp 0) else None)"
  "GetBlockReceiverAddress (genesis_committee pub blake rnd) nid = (if 0 < nid \<and> nid \<le> 7 then Some (resolve_tcp 0) else None)"
  "GetVertexReceiverAddress (genesis_committee pub blake rnd) nid = (if 0 < nid \<and> nid \<le> 7 then Some (resolve_tcp 0) else None)"
  by (simp_all add: GetNodeAddress_def GetTxReceiverAddress_def GetBlockReceiverAddress_def
      GetVertexReceiverAddress_def genesis_committee_member genesis_validator_def)

text \<open>
  C35. With a random source that does not fail NewCommittee makes seven validators with
  the numbers 1 to 7, keys that are the hashes of their public keys, port 0 in all four
  addresses, and a quorum threshold of 6; other numbers have no key and no address of any
  kind. NewValidator itself puts each of its four ports in the address that the port is
  for.
\<close>

theorem NewCommittee_seven:
  assumes "\<And>i. i \<in> {1..7} \<Longrightarrow> \<exists>seed. rnd i = Some seed \<and> length seed = 32"
    and "\<And>bs. length (blake bs) = 32"
  shows "\<exists>c. NewCommittee pub blake rnd = Ok c \<and> committee_ok c \<and> Size c = 7 \<and> QuorumThreshold c = 6
     \<and> (\<forall>nid. GetNodeKey c nid = (if 0 < nid \<and> nid \<le> 7
                                    then Some (array32 (blake (pub (the (rnd (unat nid)))))) else None)
           \<and> (let a = (if 0 < nid \<and> nid \<le> 7 then Some (resolve_tcp 0) else None)
              in GetNodeAddress c nid = a \<and> GetTxReceiverAddress c nid = a
                \<and> GetBlockReceiverAddress c nid = a \<and> GetVertexReceiverAddress c nid = a))
     \<and> (\<forall>i p tx bl vx. i \<in> {1..7} \<longrightarrow>
           NewValidator pub blake (hex_encode (the (rnd i)) @ hex_encode (replicate 32 0)) p tx bl vx
             = Ok \<lparr>Address = resolve_tcp p, TxAddress = resolve_tcp tx, BlockAddress = resolve_tcp bl,
                   VertexAddress = resolve_tcp vx, PublicKey = array32 (blake (pub (the (rnd i))))\<rparr>)"
proof -
  let ?c = "genesis_committee pub blake rnd"
  have "NewCommittee pub blake rnd = Ok ?c" using assms by (rule NewCommittee_value)
  moreover have "committee_ok ?c" "Size ?c = 7" "QuorumThreshold ?c = 6"
    by (simp_all add: committee_ok_def gomap_ok_def Size_def QuorumThreshold_def genesis_committee_def)
  moreover have "GetNodeKey ?c nid = (if 0 < nid \<and> nid \<le> 7
         then Some (array32 (blake (pub (the (rnd (unat nid)))))) else None)"
    "let a = (if 0 < nid \<and> nid \<le> 7 then Some (resolve_tcp 0) else None)
     in GetNodeAddress ?c nid = a \<and> GetTxReceiverAddress ?c nid = a
       \<and> GetBlockReceiverAddress ?c nid = a \<and> GetVertexReceiverAddress ?c nid = a" for nid
    by (simp_all add: GetNodeKey_def genesis_committee_member genesis_validator_def genesis_addresses)
  moreover have "NewValidator pub blake (hex_encode (the (rnd i)) @ hex_encode (replicate 32 0)) p tx bl vx
      = Ok \<lparr>Address = resolve_tcp p, TxAddress = resolve_tcp tx, BlockAddress = resolve_tcp bl,
            VertexAddress = resolve_tcp vx, PublicKey = array32 (blake (pub (the (rnd i))))\<rparr>"
    if "i \<in> {1..7}" for i p tx bl vx
    using assms(1) [OF that] assms(2) by (auto intro: NewValidator_seed)
  ultimately show ?thesis by (intro exI [of _ ?c]) blast
qed

text \<open>Seeds and a 32-byte hash for instances.\<close>

definition sample_seeds :: "nat \<Rightarrow> byte list option" where
  "sample_seeds i = Some (replicate 32 (of_nat i))"

definition pad32 :: "byte list \<Rightarrow> byte list" where
  "pad32 bs = take 32 (bs @ replicate 32 0)"

lemma sample_seeds_ok: "\<exists>seed. sample_seeds i = Some seed \<and> length seed = 32"
  unfolding sample_seeds_def by (intro exI conjI, rule refl, rule length_replicate)

lemma length_pad32: "length (pad32 bs) = 32"
  unfolding pad32_def by (simp only: length_take length_append length_replicate)

lemma pad32_long: "length xs = 32 \<Longrightarrow> pad32 (xs @ ys) = xs"
  by (simp add: pad32_def)

theorem NewCommittee_seven_witness:
  "\<exists>c. NewCommittee (\<lambda>x. x) pad32 sample_seeds = Ok c
     \<and> Size c = 7 \<and> GetNodeKey c 3 = Some (array32 (pad32 (replicate 32 3))) \<and> GetNodeKey c 8 = None
     \<and> GetVertexReceiverAddress c 3 = Some (resolve_tcp 0)"
proof -
  obtain c where c: "NewCommittee (\<lambda>x. x) pad32 sample_seeds = Ok c" "Size c = 7"
    and key: "\<And>nid. GetNodeKey c nid = (if 0 < nid \<and> nid \<le> 7
         then Some (array32 (pad32 (the (sample_seeds (unat nid))))) else None)"
    and address: "\<And>nid. GetVertexReceiverAddress c nid
         = (if 0 < nid \<and> nid \<le> 7 then Some (resolve_tcp 0) else None)"
    using NewCommittee_seven [of sample_seeds pad32 "\<lambda>x. x", OF sample_seeds_ok length_pad32]
    unfolding Let_def by blast
  have "GetNodeKey c 3 = Some (array32 (pad32 (replicate 32 3)))"
    unfolding key [of 3] sample_seeds_def by simp
  moreover have "GetNodeKey c 8 = None" unfolding key [of 8] by simp
  moreover have "GetVertexReceiverAddress c 3 = Some (resolve_tcp 0)" unfolding address [of 3] by simp
  ultimately show ?thesis using c by blast
qed

end
