(* ===== verification/Network_Receiver.thy ===== *)
theory Network_Receiver
  imports Go_Encoding Go_Channel Model_Committee
begin

text \<open>
  pkg/network/network.go, the receiving half: the wire format (a 4-byte big-endian length,
  then the payload), \<open>io.ReadFull\<close>, the loop of \<open>handleConnection\<close> and the set of
  active connections.
\<close>

section \<open>The wire format\<close>

definition MaxMessageSize :: nat where
  "MaxMessageSize = 1024 * 1024"

text \<open>What \<open>Send\<close> writes: the length converted to \<open>uint32\<close>, then the data.\<close>

definition frame :: "byte list \<Rightarrow> byte list" where
  "frame data = put_u32 (of_nat (length data)) @ data"

text \<open>
  A connection as its reader sees it: the bytes and the errors that reads deliver, in order
  (an error is a deadline that passed, or the reset of the connection by its peer), and what
  follows: the end of the stream, after the peer has closed or reset the connection (a
  reset is reported by one read, and the reads after it see the end), or a deadline that
  passes in every further read, when the peer keeps the connection open and writes nothing.
\<close>

datatype conn_event = Byte byte | Fail

datatype conn_end = Eof_forever | Timeout_forever

record conn =
  c_events :: "conn_event list"
  c_end :: conn_end

datatype read_error = EOF | UnexpectedEOF | OtherError

text \<open>
  \<open>io.ReadFull\<close> for \<open>n\<close> bytes, \<open>acc\<close> those read so far.  \<open>EOF\<close> only when
  nothing was read.  Bytes read before an error are lost to the caller, which reuses its
  buffer from the start.
\<close>

fun read_full :: "conn_end \<Rightarrow> nat \<Rightarrow> byte list \<Rightarrow> conn_event list
    \<Rightarrow> (read_error + byte list) \<times> conn_event list" where
  "read_full e 0 acc es = (Inr acc, es)"
| "read_full e (Suc n) acc [] =
     (Inl (case e of Eof_forever \<Rightarrow> (if acc = [] then EOF else UnexpectedEOF)
                   | Timeout_forever \<Rightarrow> OtherError), [])"
| "read_full e (Suc n) acc (Byte b # es) = read_full e n (acc @ [b]) es"
| "read_full e (Suc n) acc (Fail # es) = (Inl OtherError, es)"

definition ReadFull :: "nat \<Rightarrow> conn \<Rightarrow> (read_error + byte list) \<times> conn" where
  "ReadFull n c =
     (case read_full (c_end c) n [] (c_events c) of (r, es) \<Rightarrow> (r, c\<lparr>c_events := es\<rparr>))"

section \<open>The loop of a connection\<close>

text \<open>
  One turn of the loop: it returns, goes on without a message, or goes on with the payload
  it hands to the message handler.
\<close>

datatype turn = Return | Continue conn | Deliver "byte list" conn

definition conn_turn :: "conn \<Rightarrow> turn" where
  "conn_turn c =
     (case ReadFull 4 c of
        (Inl err, c1) \<Rightarrow> (if err \<noteq> EOF then Continue c1 else Return)
      | (Inr header, c1) \<Rightarrow>
          (let len = get_u32 header
           in if unat len > MaxMessageSize then Continue c1
              else case ReadFull (unat len) c1 of
                     (Inl err, c2) \<Rightarrow> Continue c2
                   | (Inr buf, c2) \<Rightarrow> Deliver buf c2))"

text \<open>
  The loop, with the messages it hands over.  It may run for ever: then the value is
  \<open>None\<close>.
\<close>

partial_function (option) conn_loop :: "conn \<Rightarrow> byte list list \<Rightarrow> (byte list list) option" where
  "conn_loop c msgs =
     (case conn_turn c of
        Return \<Rightarrow> Some msgs
      | Continue c' \<Rightarrow> conn_loop c' msgs
      | Deliver m c' \<Rightarrow> conn_loop c' (msgs @ [m]))"

section \<open>Reading\<close>

lemma read_full_enough:
  "read_full e (length bs) acc (map Byte bs @ es) = (Inr (acc @ bs), es)"
  by (induction bs arbitrary: acc) auto

lemma ReadFull_enough:
  "c_events c = map Byte bs @ es \<Longrightarrow> ReadFull (length bs) c = (Inr bs, c\<lparr>c_events := es\<rparr>)"
  using read_full_enough [of "c_end c" bs "[]" es] by (simp add: ReadFull_def)

lemma read_full_rest: "read_full e n acc es = (r, es') \<Longrightarrow> \<exists>k. es' = drop k es"
proof (induction e n acc es rule: read_full.induct)
  case (3 e n acc b es)
  then obtain k where "es' = drop k es" by auto
  then show ?case by (intro exI [of _ "Suc k"]) simp
next
  case (4 e n acc es)
  then show ?case by (intro exI [of _ 1]) simp
qed (auto intro: exI [of _ 0])

lemma read_full_progress:
  "read_full e n acc es = (r, es') \<Longrightarrow> 0 < n \<Longrightarrow> es \<noteq> [] \<Longrightarrow> length es' < length es"
  using read_full_rest
  by (cases "(e, n, acc, es)" rule: read_full.cases; simp)
    (metis diff_le_self length_drop less_Suc_eq_le)

lemma read_full_len: "read_full e n acc es = (Inr bs, es') \<Longrightarrow> length bs = length acc + n"
  by (induction e n acc es rule: read_full.induct) auto

lemma read_full_shorter: "read_full e n acc es = (r, es') \<Longrightarrow> length es' \<le> length es"
  using read_full_rest by fastforce

lemma ReadFull_end: "ReadFull n c = (r, c') \<Longrightarrow> c_end c' = c_end c"
  by (auto simp: ReadFull_def split: prod.splits)

lemma conn_turn_end:
  "conn_turn c = Continue c' \<Longrightarrow> c_end c' = c_end c"
  "conn_turn c = Deliver m c' \<Longrightarrow> c_end c' = c_end c"
  by (auto simp: conn_turn_def Let_def dest!: ReadFull_end split: prod.splits sum.splits if_splits)

text \<open>A turn uses up events, unless there are none left.\<close>

lemma ReadFull_shorter:
  "ReadFull n c = (r, c') \<Longrightarrow> length (c_events c') \<le> length (c_events c)"
  by (auto simp: ReadFull_def split: prod.splits dest: read_full_shorter)

lemma ReadFull_progress:
  "ReadFull n c = (r, c') \<Longrightarrow> 0 < n \<Longrightarrow> c_events c \<noteq> [] \<Longrightarrow> length (c_events c') < length (c_events c)"
  by (auto simp: ReadFull_def split: prod.splits dest: read_full_progress)

lemma conn_turn_progress:
  assumes "c_events c \<noteq> []"
  shows "conn_turn c = Continue c' \<Longrightarrow> length (c_events c') < length (c_events c)"
    and "conn_turn c = Deliver m c' \<Longrightarrow> length (c_events c') < length (c_events c)"
proof -
  obtain r c1 where h: "ReadFull 4 c = (r, c1)" by (cases "ReadFull 4 c")
  have lt: "length (c_events c1) < length (c_events c)" using ReadFull_progress [OF h] assms by simp
  have le: "length (c_events c2) < length (c_events c)" if "ReadFull k c1 = (q, c2)" for k q c2
    using ReadFull_shorter [OF that] lt by simp
  show "conn_turn c = Continue c' \<Longrightarrow> length (c_events c') < length (c_events c)"
    using h lt by (auto simp: conn_turn_def Let_def split: prod.splits sum.splits if_splits dest: le)
  show "conn_turn c = Deliver m c' \<Longrightarrow> length (c_events c') < length (c_events c)"
    using h lt by (auto simp: conn_turn_def Let_def split: prod.splits sum.splits if_splits dest: le)
qed

lemma conn_turn_Nil:
  "c_events c = [] \<Longrightarrow> conn_turn c = (if c_end c = Eof_forever then Return else Continue c)"
  by (auto simp: conn_turn_def ReadFull_def numeral_eq_Suc split: conn_end.splits)

text \<open>
  The handler of a connection returns exactly when the stream ends; it does not return while
  a silent peer keeps the connection open, not even when the receiver is stopped.
\<close>

lemma conn_loop_returns: "c_end c = Eof_forever \<Longrightarrow> \<exists>out. conn_loop c msgs = Some out"
proof (induction "length (c_events c)" arbitrary: c msgs rule: less_induct)
  case less
  show ?case
  proof (cases "c_events c = []")
    case True
    then show ?thesis using less.prems
      by (subst conn_loop.simps) (simp add: conn_turn_Nil)
  next
    case False
    show ?thesis
    proof (cases "conn_turn c")
      case Return
      then show ?thesis by (subst conn_loop.simps) simp
    next
      case (Continue c')
      then show ?thesis
        using less.hyps [of c'] conn_turn_progress(1) [OF False] conn_turn_end(1) less.prems
        by (subst conn_loop.simps) simp
    next
      case (Deliver m c')
      then show ?thesis
        using less.hyps [of c'] conn_turn_progress(2) [OF False] conn_turn_end(2) less.prems
        by (subst conn_loop.simps) simp
    qed
  qed
qed

lemma conn_turn_no_return: "c_end c = Timeout_forever \<Longrightarrow> conn_turn c \<noteq> Return"
proof -
  have "read_full Timeout_forever n acc es \<noteq> (Inl EOF, es')" for n acc es es'
    by (induction Timeout_forever n acc es rule: read_full.induct) auto
  then show "c_end c = Timeout_forever \<Longrightarrow> conn_turn c \<noteq> Return"
    by (auto simp: conn_turn_def ReadFull_def Let_def split: prod.splits sum.splits if_splits)
qed

lemma conn_loop_only_eof:
  assumes "conn_loop c msgs = Some out"
  shows "c_end c = Eof_forever"
proof (induction rule: conn_loop.raw_induct [OF _ assms])
  case (1 loop c msgs out)
  show ?case
  proof (cases "conn_turn c")
    case Return
    then show ?thesis using conn_turn_no_return by (cases "c_end c") auto
  next
    case (Continue c')
    then show ?thesis using 1 conn_turn_end(1) by fastforce
  next
    case (Deliver m c')
    then show ?thesis using 1 conn_turn_end(2) by fastforce
  qed
qed

text \<open>
  A peer of which \<open>bs\<close> arrives before it resets the connection, and one of which \<open>bs\<close> arrives
  and which then stays connected and silent.
\<close>

definition reset_conn :: "byte list \<Rightarrow> conn" where
  "reset_conn bs = \<lparr>c_events = map Byte bs @ [Fail], c_end = Eof_forever\<rparr>"

definition idle_conn :: "byte list \<Rightarrow> conn" where
  "idle_conn bs = \<lparr>c_events = map Byte bs, c_end = Timeout_forever\<rparr>"

text \<open>
  C30. The loop of a connection returns if and only if its stream comes to an end; it does
  when the peer closes or resets the connection, and runs for ever while a peer stays
  connected and silent, since a read deadline that passes is only tried again.
\<close>

theorem connection_returns_iff_ended:
  "((\<exists>out. conn_loop c msgs = Some out) \<longleftrightarrow> c_end c = Eof_forever)
     \<and> (\<exists>out. conn_loop (reset_conn bs) msgs = Some out) \<and> conn_loop (idle_conn bs) msgs = None"
proof -
  have iff: "(\<exists>out. conn_loop c msgs = Some out) \<longleftrightarrow> c_end c = Eof_forever" for c
    using conn_loop_returns conn_loop_only_eof by blast
  show ?thesis
    using iff [of c] iff [of "reset_conn bs"] iff [of "idle_conn bs"]
    by (auto simp: reset_conn_def idle_conn_def)
qed

section \<open>Framing\<close>

text \<open>The reference decoder of one message.\<close>

definition get_frame :: "byte list \<Rightarrow> (byte list \<times> byte list) option" where
  "get_frame bs =
     (let n = unat (get_u32 (take 4 bs)); rest = drop 4 bs
      in if length bs < 4 \<or> MaxMessageSize < n \<or> length rest < n then None
         else Some (take n rest, drop n rest))"

lemma frame_length_field:
  "length d \<le> MaxMessageSize \<Longrightarrow> unat (of_nat (length d) :: u32) = length d"
  by (simp add: unat_of_nat MaxMessageSize_def)

interpretation frames: stream_codec frame get_frame "\<lambda>d. length d \<le> MaxMessageSize"
  by unfold_locales (simp add: get_frame_def frame_def frame_length_field)

lemma conn_turn_header:
  assumes "c_events c = map Byte (put_u32 n) @ es"
  shows "conn_turn c =
     (if unat n > MaxMessageSize then Continue (c\<lparr>c_events := es\<rparr>)
      else case ReadFull (unat n) (c\<lparr>c_events := es\<rparr>) of
             (Inl err, c2) \<Rightarrow> Continue c2
           | (Inr buf, c2) \<Rightarrow> Deliver buf c2)"
  using ReadFull_enough [OF assms] by (simp add: conn_turn_def Let_def)

lemma conn_turn_frame:
  assumes "c_events c = map Byte (frame d) @ es" and "length d \<le> MaxMessageSize"
  shows "conn_turn c = Deliver d (c\<lparr>c_events := es\<rparr>)"
proof -
  have "c_events c = map Byte (put_u32 (of_nat (length d))) @ map Byte d @ es"
    using assms(1) by (simp add: frame_def)
  from conn_turn_header [OF this] show ?thesis
    using assms(2) ReadFull_enough [of "c\<lparr>c_events := map Byte d @ es\<rparr>" d es]
    by (simp add: frame_length_field)
qed

lemma conn_loop_frames:
  "\<forall>d\<in>set ds. length d \<le> MaxMessageSize \<Longrightarrow> c_events c = map Byte (concat (map frame ds)) @ es
    \<Longrightarrow> conn_loop c msgs = conn_loop (c\<lparr>c_events := es\<rparr>) (msgs @ ds)"
proof (induction ds arbitrary: c msgs)
  case (Cons d ds)
  have "conn_turn c = Deliver d (c\<lparr>c_events := map Byte (concat (map frame ds)) @ es\<rparr>)"
    using Cons.prems by (intro conn_turn_frame) auto
  then show ?case
    using Cons.IH [of "c\<lparr>c_events := map Byte (concat (map frame ds)) @ es\<rparr>" "msgs @ [d]"] Cons.prems(1)
    by (subst conn_loop.simps) simp
next
  case Nil
  then show ?case by (cases c) simp
qed

text \<open>The bytes of a peer that writes \<open>bs\<close> and closes.\<close>

definition clean_conn :: "byte list \<Rightarrow> conn" where
  "clean_conn bs = \<lparr>c_events = map Byte bs, c_end = Eof_forever\<rparr>"

lemma conn_loop_Nil: "conn_loop \<lparr>c_events = [], c_end = Eof_forever\<rparr> msgs = Some msgs"
  by (subst conn_loop.simps) (simp add: conn_turn_Nil)

theorem frames_received_in_order:
  assumes "\<forall>d\<in>set ds. length d \<le> MaxMessageSize"
  shows "conn_loop (clean_conn (concat (map frame ds))) [] = Some ds"
  using conn_loop_frames [OF assms, of "clean_conn (concat (map frame ds))" "[]" "[]"]
  by (simp add: clean_conn_def conn_loop_Nil)

theorem frames_received_in_order_witness:
  "conn_loop (clean_conn (frame [1, 2] @ frame [] @ frame [3])) [] = Some [[1, 2], [], [3]]"
  using frames_received_in_order [of "[[1, 2], [], [3]]"] by (simp add: MaxMessageSize_def)

text \<open>
  C31. The payload of a message above the size limit is not skipped: it is read as
  messages, so its sender chooses what the receiver handles.
\<close>

theorem oversize_payload_is_parsed:
  assumes "MaxMessageSize < length d" and "length d < 2 ^ 32"
    and "d = concat (map frame ds)" and "\<forall>x\<in>set ds. length x \<le> MaxMessageSize"
  shows "conn_loop (clean_conn (frame d)) [] = Some ds"
proof -
  have len: "unat (of_nat (length d) :: u32) = length d" using assms(2) by (simp add: unat_of_nat)
  have "c_events (clean_conn (frame d)) = map Byte (put_u32 (of_nat (length d))) @ map Byte d"
    by (simp add: clean_conn_def frame_def)
  from conn_turn_header [OF this] have "conn_turn (clean_conn (frame d)) = Continue (clean_conn d)"
    using assms(1) by (simp add: len clean_conn_def)
  then have "conn_loop (clean_conn (frame d)) [] = conn_loop (clean_conn d) []"
    by (subst conn_loop.simps) simp
  also have "\<dots> = Some ds"
    using conn_loop_frames [OF assms(4), of "clean_conn d" "[]" "[]"] assms(3)
    by (simp add: clean_conn_def conn_loop_Nil)
  finally show ?thesis .
qed

lemma frame_length [simp]: "length (frame d) = length d + 4"
  by (simp add: frame_def)

theorem oversize_payload_is_parsed_witness:
  "conn_loop (clean_conn (frame (frame (replicate 700000 0) @ frame (replicate 700000 1)))) []
     = Some [replicate 700000 0, replicate 700000 1]"
proof -
  have *: "conn_loop (clean_conn (frame (frame a @ frame b))) [] = Some [a, b]"
    if len: "length a = 700000" "length b = 700000" for a b
  proof (rule oversize_payload_is_parsed)
    show "MaxMessageSize < length (frame a @ frame b)" using len by (simp add: MaxMessageSize_def)
    show "length (frame a @ frame b) < 2 ^ 32" using len by simp
    show "\<forall>x\<in>set [a, b]. length x \<le> MaxMessageSize" using len by (simp add: MaxMessageSize_def)
  qed simp
  show ?thesis by (rule *) (rule length_replicate)+
qed

text \<open>
  An error in the middle of a message (a deadline, for instance) loses the bytes read so
  far, and the loop takes the next bytes, from the middle of the message, for a header.
\<close>

lemma read_full_fail:
  "length bs < n \<Longrightarrow> read_full e n acc (map Byte bs @ Fail # es) = (Inl OtherError, es)"
proof (induction bs arbitrary: n acc)
  case Nil
  then show ?case by (cases n) auto
next
  case (Cons b bs)
  then show ?case by (cases n) auto
qed

theorem error_loses_position:
  assumes "length d \<le> MaxMessageSize" and "d = p @ q" and "q \<noteq> []"
    and "c_events c = map Byte (put_u32 (of_nat (length d)) @ p) @ Fail # map Byte q @ es"
  shows "conn_loop c msgs = conn_loop (c\<lparr>c_events := map Byte q @ es\<rparr>) msgs"
proof -
  have shorter: "length p < length d" using assms(2,3) by simp
  have "c_events c = map Byte (put_u32 (of_nat (length d))) @ map Byte p @ Fail # map Byte q @ es"
    using assms(4) by simp
  from conn_turn_header [OF this] have "conn_turn c = Continue (c\<lparr>c_events := map Byte q @ es\<rparr>)"
    using assms(1) read_full_fail [of p "length d"] shorter
    by (simp add: frame_length_field ReadFull_def)
  then show ?thesis by (subst conn_loop.simps) simp
qed


lemma put_u32_one: "put_u32 1 = [0, 0, 0, 1]"
  by code_simp

theorem error_loses_position_witness:
  "conn_loop \<lparr>c_events = map Byte (put_u32 6 @ [9]) @ Fail # map Byte [0, 0, 0, 1, 7], c_end = Eof_forever\<rparr> []
     = Some [[7]]"
proof -
  let ?q = "[0, 0, 0, 1, 7] :: byte list"
  let ?c = "\<lparr>c_events = map Byte (put_u32 6 @ [9]) @ Fail # map Byte ?q, c_end = Eof_forever\<rparr>"
  have len: "length (9 # ?q) \<le> MaxMessageSize" by (simp add: MaxMessageSize_def)
  have ev: "c_events ?c = map Byte (put_u32 (of_nat (length (9 # ?q))) @ [9]) @ Fail # map Byte ?q @ []"
    by simp
  have split: "9 # ?q = [9] @ ?q" and ne: "?q \<noteq> []" by simp_all
  have "conn_loop ?c [] = conn_loop (?c\<lparr>c_events := map Byte ?q @ []\<rparr>) []"
    by (rule error_loses_position [OF len split ne ev])
  moreover have "?c\<lparr>c_events := map Byte ?q @ []\<rparr> = clean_conn (concat (map frame [[7]]))"
    by (simp add: frame_def clean_conn_def put_u32_one)
  moreover have "\<forall>x\<in>set [[7 :: byte]]. length x \<le> MaxMessageSize" by (simp add: MaxMessageSize_def)
  ultimately show ?thesis by (simp only: frames_received_in_order)
qed

section \<open>The receiver\<close>

text \<open>\<open>activeConnections\<close> is an \<open>int64\<close>; only 1 is added and subtracted, so its bits do.\<close>

record receiver =
  r_address :: net_addr
  r_listening :: bool
  r_conns :: "(byte list, conn) gomap"
  r_workerPool :: "unit chan"
  activeConnections :: u64

definition NewReceiver :: "net_addr \<Rightarrow> receiver" where
  "NewReceiver address =
     \<lparr>r_address = address, r_listening = False, r_conns = [], r_workerPool = make_chan 20,
      activeConnections = 0\<rparr>"

text \<open>The first argument is the result of \<open>net.Listen\<close>.\<close>

definition Receiver_Start :: "bool \<Rightarrow> receiver \<Rightarrow> bool \<times> receiver" where
  "Receiver_Start listen_ok r = (if listen_ok then (True, r\<lparr>r_listening := True\<rparr>) else (False, r))"

definition addConnection :: "byte list \<Rightarrow> conn \<Rightarrow> receiver \<Rightarrow> receiver" where
  "addConnection remote c r = r\<lparr>r_conns := AList.update remote c (r_conns r)\<rparr>"

definition removeConnection :: "byte list \<Rightarrow> receiver \<Rightarrow> receiver" where
  "removeConnection remote r = r\<lparr>r_conns := AList.delete remote (r_conns r)\<rparr>"

text \<open>
  A message is handled by a new goroutine when a worker is free, by the goroutine of the
  connection otherwise.
\<close>

datatype dispatch = InWorker | InConnection

definition dispatch_message :: "receiver \<Rightarrow> dispatch \<times> receiver" where
  "dispatch_message r =
     (case chan_send (r_workerPool r) () of
        Some ch \<Rightarrow> (InWorker, r\<lparr>r_workerPool := ch\<rparr>)
      | None \<Rightarrow> (InConnection, r))"

definition release_worker :: "receiver \<Rightarrow> receiver option" where
  "release_worker r =
     (case chan_recv (r_workerPool r) of
        None \<Rightarrow> None
      | Some (_, ch) \<Rightarrow> Some (r\<lparr>r_workerPool := ch\<rparr>))"

text \<open>
  A connection from start to end: the entry, the loop, the exit.  The two halves are
  separate because other connections come and go in between.
\<close>

definition conn_enter :: "byte list \<Rightarrow> conn \<Rightarrow> receiver \<Rightarrow> receiver" where
  "conn_enter remote c r =
     (let r = addConnection remote c r in r\<lparr>activeConnections := activeConnections r + 1\<rparr>)"

definition conn_exit :: "byte list \<Rightarrow> receiver \<Rightarrow> receiver" where
  "conn_exit remote r =
     (let r = removeConnection remote r in r\<lparr>activeConnections := activeConnections r - 1\<rparr>)"

definition handleConnection ::
  "byte list \<Rightarrow> conn \<Rightarrow> receiver \<Rightarrow> (byte list list \<times> receiver) option" where
  "handleConnection remote c r =
     (let r = conn_enter remote c r
      in case conn_loop c [] of
           None \<Rightarrow> None
         | Some msgs \<Rightarrow> Some (msgs, conn_exit remote r))"

text \<open>
  The accept loop over what \<open>Accept\<close> returns: the connections it starts, and whether it
  has returned (it waits when the list is used up).
\<close>

datatype accept_event = Accepted "byte list" conn | AcceptError | ListenerClosed

fun acceptLoop :: "accept_event list \<Rightarrow> (byte list \<times> conn) list \<times> bool" where
  "acceptLoop [] = ([], False)"
| "acceptLoop (Accepted remote c # es) = (case acceptLoop es of (cs, done) \<Rightarrow> ((remote, c) # cs, done))"
| "acceptLoop (AcceptError # es) = acceptLoop es"
| "acceptLoop (ListenerClosed # es) = ([], True)"

text \<open>
  \<open>Stop\<close> closes the listener, then waits for the accept loop (which the closed listener
  ends) and for the goroutine of every connection.
\<close>

datatype stop_result = Stopped | StopFailed | StopWaits

definition Receiver_Stop :: "bool \<Rightarrow> conn list \<Rightarrow> receiver \<Rightarrow> stop_result" where
  "Receiver_Stop close_ok running r =
     (if r_listening r \<and> \<not> close_ok then StopFailed
      else if list_all (\<lambda>c. conn_loop c [] \<noteq> None) running then Stopped
      else StopWaits)"

theorem Receiver_Stop_waits_for_peers:
  "Receiver_Stop True running r = (if \<forall>c\<in>set running. c_end c = Eof_forever then Stopped else StopWaits)"
  using conn_loop_returns [of _ "[]"] conn_loop_only_eof [of _ "[]"]
  by (fastforce simp: Receiver_Stop_def list_all_iff)

text \<open>
  Whether \<open>Stop\<close> returns to a coordinator that has a receiver; its error is dropped there.  The
  environment is the result of closing the listener and the connections that still run.
\<close>

type_synonym stop_env = "bool \<times> conn list"

definition stop_receiver :: "stop_env \<Rightarrow> receiver option \<Rightarrow> bool" where
  "stop_receiver env receiver =
     (case receiver of None \<Rightarrow> True | Some r \<Rightarrow> Receiver_Stop (fst env) (snd env) r \<noteq> StopWaits)"

text \<open>
  Of a receiver that listens: the call returns when closing the listener fails, or all peers have
  closed their connections.
\<close>

definition stop_returns :: "stop_env \<Rightarrow> bool" where
  "stop_returns env \<longleftrightarrow> \<not> fst env \<or> list_all (\<lambda>c. c_end c = Eof_forever) (snd env)"

lemma conn_loop_None_iff: "conn_loop c msgs = None \<longleftrightarrow> c_end c \<noteq> Eof_forever"
  using conn_loop_returns [of c msgs] conn_loop_only_eof [of c msgs] by fastforce

lemma stop_receiver_listening [simp]: "r_listening r \<Longrightarrow> stop_receiver env (Some r) = stop_returns env"
  by (simp add: stop_receiver_def stop_returns_def Receiver_Stop_def conn_loop_None_iff)

lemma stop_receiver_None [simp]: "stop_receiver env None"
  by (simp add: stop_receiver_def)

text \<open>Entries and exits: the number of active connections counts the map.\<close>

definition receiver_ok :: "receiver \<Rightarrow> bool" where
  "receiver_ok r \<longleftrightarrow> gomap_ok (r_conns r) \<and> activeConnections r = of_nat (length (r_conns r))
     \<and> chan_ok (r_workerPool r) \<and> ch_cap (r_workerPool r) = 20"

lemma length_delete_present:
  "gomap_ok m \<Longrightarrow> map_of m k = Some v \<Longrightarrow> Suc (length (AList.delete k m)) = length m"
proof (induction m)
  case (Cons p m)
  then show ?case
  proof (cases "fst p = k")
    case True
    then have "k \<notin> fst ` set m" using Cons.prems(1) by (auto simp: gomap_ok_def)
    then have "AList.delete k m = m" by (rule delete_id)
    then show ?thesis using True by (cases p) simp
  qed (use Cons in \<open>auto simp: gomap_ok_def split: if_splits\<close>)
qed simp

lemma receiver_ok_new: "receiver_ok (NewReceiver a)"
  by (simp add: receiver_ok_def NewReceiver_def)

lemma receiver_ok_enter:
  "receiver_ok r \<Longrightarrow> map_of (r_conns r) remote = None \<Longrightarrow> receiver_ok (conn_enter remote c r)"
  by (simp add: receiver_ok_def conn_enter_def addConnection_def Let_def length_update_fresh)

lemma receiver_ok_exit:
  assumes "receiver_ok r" and "map_of (r_conns r) remote = Some c"
  shows "receiver_ok (conn_exit remote r)"
proof -
  have "length (r_conns r) = Suc (length (AList.delete remote (r_conns r)))"
    using assms length_delete_present [of "r_conns r" remote c] by (simp add: receiver_ok_def)
  then have "of_nat (length (r_conns r)) - 1 = (of_nat (length (AList.delete remote (r_conns r))) :: u64)"
    by simp
  then show ?thesis
    using assms(1) by (simp add: receiver_ok_def conn_exit_def removeConnection_def Let_def)
qed

lemma receiver_ok_dispatch:
  "receiver_ok r \<Longrightarrow> dispatch_message r = (d, r') \<Longrightarrow> receiver_ok r'"
  by (auto simp: receiver_ok_def dispatch_message_def split: option.splits
      dest: chan_ok_send chan.capacity_put)

lemma receiver_ok_release:
  "receiver_ok r \<Longrightarrow> release_worker r = Some r' \<Longrightarrow> receiver_ok r'"
  by (auto simp: receiver_ok_def release_worker_def split: option.splits
      dest: chan_ok_recv chan.capacity_get)

text \<open>
  Everything that happens to a receiver after its start.  The remote address of a new
  connection is that of no other active connection.
\<close>

inductive receiver_step :: "receiver \<Rightarrow> receiver \<Rightarrow> bool" where
  step_conn_enter: "map_of (r_conns r) remote = None \<Longrightarrow> receiver_step r (conn_enter remote c r)"
| step_conn_exit: "map_of (r_conns r) remote = Some c \<Longrightarrow> receiver_step r (conn_exit remote r)"
| step_dispatch: "dispatch_message r = (d, r') \<Longrightarrow> receiver_step r r'"
| step_release: "release_worker r = Some r' \<Longrightarrow> receiver_step r r'"

definition receiver_init :: "net_addr \<Rightarrow> receiver \<Rightarrow> bool" where
  "receiver_init a r \<longleftrightarrow> r = snd (Receiver_Start True (NewReceiver a))"

interpretation receiver_inv: inductive_invariant "receiver_init a" receiver_step receiver_ok
proof
  show "receiver_ok r" if "receiver_init a r" for r
    using that receiver_ok_new [of a] by (simp add: receiver_init_def Receiver_Start_def receiver_ok_def)
  show "receiver_ok t" if "receiver_ok s" "receiver_step s t" for s t
    using that(2,1) by (cases rule: receiver_step.cases)
      (blast intro: receiver_ok_enter receiver_ok_exit receiver_ok_dispatch receiver_ok_release)+
qed

theorem receiver_reachable_ok:
  assumes "reach (receiver_init a) receiver_step r"
  shows "activeConnections r = of_nat (length (r_conns r)) \<and> length (ch_values (r_workerPool r)) \<le> 20
     \<and> (fst (dispatch_message r) = InConnection \<longleftrightarrow> length (ch_values (r_workerPool r)) = 20)"
proof -
  have "receiver_ok r" using assms by (rule receiver_inv.reach_inv)
  then show ?thesis
    by (auto simp: receiver_ok_def dispatch_message_def chan_ok_def chan_send_def)
qed

theorem receiver_reachable_ok_witness:
  "activeConnections (conn_enter (str ''peer'') (clean_conn []) (snd (Receiver_Start True (NewReceiver (resolve_tcp 0))))) = 1"
proof -
  let ?r = "snd (Receiver_Start True (NewReceiver (resolve_tcp 0)))"
  have "reach (receiver_init (resolve_tcp 0)) receiver_step (conn_enter (str ''peer'') (clean_conn []) ?r)"
  proof (rule reach_step)
    show "reach (receiver_init (resolve_tcp 0)) receiver_step ?r"
      by (rule reach_init) (simp add: receiver_init_def)
    show "receiver_step ?r (conn_enter (str ''peer'') (clean_conn []) ?r)"
      by (rule step_conn_enter) (simp add: Receiver_Start_def NewReceiver_def)
  qed
  from receiver_reachable_ok [OF this] show ?thesis
    by (simp add: conn_enter_def addConnection_def Let_def Receiver_Start_def NewReceiver_def)
qed

end
