(* ===== verification/Network_Sender.thy ===== *)
theory Network_Sender
  imports Network_Receiver
begin

text \<open>
  pkg/network/network.go, the sending half: the map of open connections, \<open>Send\<close>,
  \<open>Broadcast\<close>, \<open>Close\<close> and the clean-up of idle connections.

  A connection is a number; \<open>s_wire\<close> is what was written to it so far and
  \<open>s_closed\<close> the connections that were closed.  What the network answers (is the
  connection alive, does the dial succeed, does a write fail and after how many bytes) is the
  argument \<open>env\<close>.
\<close>

section \<open>State\<close>

record sender =
  s_conns :: "(byte list, nat) gomap"
  s_workerPool :: "unit chan"
  s_idleConns :: "(byte list, nat list) gomap"
  s_wire :: "nat \<Rightarrow> byte list"
  s_closed :: "nat list"

definition NewSender :: sender where
  "NewSender = \<lparr>s_conns = [], s_workerPool = make_chan 20, s_idleConns = [], s_wire = (\<lambda>_. []),
                s_closed = []\<rparr>"

definition maxIdle :: nat where
  "maxIdle = 5"

record net_env =
  alive_fast :: bool
  alive_locked :: bool
  dialed :: "nat option"
  header_fails :: "nat option"
  data_fails :: "nat option"

datatype send_error = DialFailed | HeaderFailed | DataFailed

section \<open>Connections\<close>

definition closeConnection :: "net_addr \<Rightarrow> sender \<Rightarrow> sender" where
  "closeConnection address s =
     (case map_of (s_conns s) (addr_string address) of
        None \<Rightarrow> s
      | Some c \<Rightarrow> s\<lparr>s_closed := s_closed s @ [c],
                    s_conns := AList.delete (addr_string address) (s_conns s)\<rparr>)"

text \<open>
  \<open>getConnection\<close> up to the point where it takes the write lock: a connection that is
  there and alive is the result, one that is not is closed.
\<close>

definition get_fast :: "net_addr \<Rightarrow> net_env \<Rightarrow> sender \<Rightarrow> nat option \<times> sender" where
  "get_fast address env s =
     (case map_of (s_conns s) (addr_string address) of
        None \<Rightarrow> (None, s)
      | Some c \<Rightarrow> if alive_fast env then (Some c, s) else (None, closeConnection address s))"

text \<open>
  The part under the write lock.  When \<open>SetWriteDeadline\<close> fails on the connection in the map
  (\<open>alive_locked\<close> is its answer) it calls \<open>closeConnection\<close>, which asks for the lock that is
  already held: the goroutine waits for ever, with the lock.  The sender closes a connection only
  when it takes it out of the map, so that on a TCP connection the call would have to fail for
  another reason; the branch is there in the code, and its answer stays a parameter.
\<close>

datatype conn_result = GotConn nat | NoConn | SelfDeadlock

definition get_locked :: "net_addr \<Rightarrow> net_env \<Rightarrow> sender \<Rightarrow> conn_result \<times> sender" where
  "get_locked address env s =
     (case map_of (s_conns s) (addr_string address) of
        Some c \<Rightarrow> if alive_locked env then (GotConn c, s) else (SelfDeadlock, s)
      | None \<Rightarrow>
          (case dialed env of
             None \<Rightarrow> (NoConn, s)
           | Some c \<Rightarrow>
               (GotConn c, s\<lparr>s_conns := AList.update (addr_string address) c (s_conns s)\<rparr>)))"

definition getConnection :: "net_addr \<Rightarrow> net_env \<Rightarrow> sender \<Rightarrow> conn_result \<times> sender" where
  "getConnection address env s =
     (case get_fast address env s of
        (Some c, s') \<Rightarrow> (GotConn c, s')
      | (None, s') \<Rightarrow> get_locked address env s')"

section \<open>Sending\<close>

text \<open>A write appends all bytes, or fails after \<open>k\<close> of them.\<close>

definition conn_write :: "nat \<Rightarrow> byte list \<Rightarrow> nat option \<Rightarrow> sender \<Rightarrow> bool \<times> sender" where
  "conn_write c bs fails s =
     (case fails of
        None \<Rightarrow> (True, s\<lparr>s_wire := (s_wire s)(c := s_wire s c @ bs)\<rparr>)
      | Some k \<Rightarrow> (False, s\<lparr>s_wire := (s_wire s)(c := s_wire s c @ take k bs)\<rparr>))"

datatype send_result = Sent | SendError send_error | SendHangs

definition Send :: "net_addr \<Rightarrow> byte list \<Rightarrow> net_env \<Rightarrow> sender \<Rightarrow> send_result \<times> sender" where
  "Send address data env s =
     (case getConnection address env s of
        (SelfDeadlock, s1) \<Rightarrow> (SendHangs, s1)
      | (NoConn, s1) \<Rightarrow> (SendError DialFailed, s1)
      | (GotConn c, s1) \<Rightarrow>
          (case conn_write c (put_u32 (of_nat (length data))) (header_fails env) s1 of
             (False, s2) \<Rightarrow> (SendError HeaderFailed, closeConnection address s2)
           | (True, s2) \<Rightarrow>
               (case conn_write c data (data_fails env) s2 of
                  (False, s3) \<Rightarrow> (SendError DataFailed, closeConnection address s3)
                | (True, s3) \<Rightarrow> (Sent, s3))))"

text \<open>
  \<open>Broadcast\<close>: one goroutine per address, here in the order they run (\<open>jobs\<close>), each with
  the answers it gets.  A goroutine takes a worker when one is free and gives it back; with or
  without one it sends.  Errors go to a channel with room for one per address.  The value is
  \<open>None\<close> when a goroutine never ends.
\<close>

definition broadcast_send ::
  "net_addr \<Rightarrow> byte list \<Rightarrow> net_env \<Rightarrow> sender \<Rightarrow> send_result \<times> sender" where
  "broadcast_send addr data env s =
     (case chan_send (s_workerPool s) () of
        Some pool \<Rightarrow>
          (case Send addr data env (s\<lparr>s_workerPool := pool\<rparr>) of
             (SendHangs, s') \<Rightarrow> (SendHangs, s')
           | (res, s') \<Rightarrow>
               (case chan_recv (s_workerPool s') of
                  None \<Rightarrow> (SendHangs, s')
                | Some (_, pool') \<Rightarrow> (res, s'\<lparr>s_workerPool := pool'\<rparr>)))
      | None \<Rightarrow> Send addr data env s)"

fun broadcast_jobs ::
  "(net_addr \<times> net_env) list \<Rightarrow> byte list \<Rightarrow> send_error chan \<Rightarrow> sender
   \<Rightarrow> (send_error chan \<times> sender) option" where
  "broadcast_jobs [] data errCh s = Some (errCh, s)"
| "broadcast_jobs ((addr, env) # jobs) data errCh s =
     (case broadcast_send addr data env s of
        (Sent, s') \<Rightarrow> broadcast_jobs jobs data errCh s'
      | (SendHangs, s') \<Rightarrow> None
      | (SendError err, s') \<Rightarrow>
          (case chan_send errCh err of
             None \<Rightarrow> None
           | Some errCh' \<Rightarrow> broadcast_jobs jobs data errCh' s'))"

definition Broadcast ::
  "net_addr list \<Rightarrow> byte list \<Rightarrow> (net_addr \<times> net_env) list \<Rightarrow> sender
   \<Rightarrow> (send_error list option \<times> sender) option" where
  "Broadcast addresses data jobs s =
     (case broadcast_jobs jobs data (make_chan (length addresses)) s of
        None \<Rightarrow> None
      | Some (errCh, s') \<Rightarrow>
          (let errs = ch_values errCh
           in Some (if length errs > 0 then Some errs else None, s')))"

section \<open>Closing\<close>

definition Sender_Close :: "sender \<Rightarrow> sender" where
  "Sender_Close s = s\<lparr>s_closed := s_closed s @ map snd (s_conns s), s_conns := []\<rparr>"

text \<open>
  One tick of \<open>cleanupIdleConnections\<close>, on one entry of the map: the connections it keeps
  and those it closes.  Nothing in the program puts an entry in the map.
\<close>

definition cleanup_entry :: "(nat \<Rightarrow> bool) \<Rightarrow> nat list \<Rightarrow> nat list \<times> nat list" where
  "cleanup_entry alive conns =
     (let remaining = filter alive conns; dead = filter (\<lambda>c. \<not> alive c) conns
      in if length remaining > maxIdle
         then (take maxIdle remaining, dead @ drop maxIdle remaining)
         else (remaining, dead))"

definition cleanup_tick :: "(nat \<Rightarrow> bool) \<Rightarrow> sender \<Rightarrow> sender" where
  "cleanup_tick alive s =
     s\<lparr>s_idleConns := filter (\<lambda>(addr, remaining). length remaining \<noteq> 0)
                        (map (\<lambda>(addr, conns). (addr, fst (cleanup_entry alive conns))) (s_idleConns s)),
       s_closed := s_closed s @ concat (map (\<lambda>(addr, conns). snd (cleanup_entry alive conns)) (s_idleConns s))\<rparr>"

section \<open>What a call of Send does\<close>

definition sender_ok :: "sender \<Rightarrow> bool" where
  "sender_ok s \<longleftrightarrow> gomap_ok (s_conns s)"

lemma getConnection_conn:
  "getConnection address env s = (GotConn c, s') \<Longrightarrow>
     map_of (s_conns s') (addr_string address) = Some c \<and> s_wire s' = s_wire s
     \<and> s_workerPool s' = s_workerPool s"
  by (auto simp: getConnection_def get_fast_def get_locked_def closeConnection_def
      split: option.splits if_splits prod.splits)

lemma getConnection_wire:
  "getConnection address env s = (res, s') \<Longrightarrow> s_wire s' = s_wire s \<and> s_workerPool s' = s_workerPool s"
  by (auto simp: getConnection_def get_fast_def get_locked_def closeConnection_def
      split: option.splits if_splits prod.splits)

text \<open>One caller alone never deadlocks: the first check has removed a dead connection.\<close>

lemma getConnection_alone: "fst (getConnection address env s) \<noteq> SelfDeadlock"
  by (auto simp: getConnection_def get_fast_def get_locked_def closeConnection_def
      split: option.splits if_splits prod.splits)

lemma closeConnection_simps [simp]:
  "s_wire (closeConnection a s) = s_wire s"
  "s_workerPool (closeConnection a s) = s_workerPool s"
  "map_of (s_conns (closeConnection a s)) (addr_string a) = None"
  by (auto simp: closeConnection_def split: option.splits)

lemma conn_write_simps:
  "s_workerPool (snd (conn_write c bs f s)) = s_workerPool s"
  "s_conns (snd (conn_write c bs f s)) = s_conns s"
  "fst (conn_write c bs f s) \<longleftrightarrow> f = None"
  "s_wire (snd (conn_write c bs f s)) =
     (s_wire s)(c := s_wire s c @ (case f of None \<Rightarrow> bs | Some k \<Rightarrow> take k bs))"
  by (auto simp: conn_write_def split: option.splits)

lemma Send_cases:
  obtains (hangs) "getConnection a env s = (SelfDeadlock, snd (Send a data env s))"
      "fst (Send a data env s) = SendHangs"
  | (nodial) "getConnection a env s = (NoConn, snd (Send a data env s))"
      "fst (Send a data env s) = SendError DialFailed"
  | (header) c s1 k where "getConnection a env s = (GotConn c, s1)" "header_fails env = Some k"
      "fst (Send a data env s) = SendError HeaderFailed"
      "s_wire (snd (Send a data env s)) = (s_wire s)(c := s_wire s c @ take k (put_u32 (of_nat (length data))))"
      "map_of (s_conns (snd (Send a data env s))) (addr_string a) = None"
  | (data) c s1 k where "getConnection a env s = (GotConn c, s1)" "data_fails env = Some k"
      "fst (Send a data env s) = SendError DataFailed"
      "s_wire (snd (Send a data env s)) = (s_wire s)(c := s_wire s c @ take (4 + k) (frame data))"
      "map_of (s_conns (snd (Send a data env s))) (addr_string a) = None"
  | (sent) c s1 where "getConnection a env s = (GotConn c, s1)"
      "fst (Send a data env s) = Sent"
      "s_wire (snd (Send a data env s)) = (s_wire s)(c := s_wire s c @ frame data)"
      "s_conns (snd (Send a data env s)) = s_conns s1"
proof -
  obtain r s1 where g: "getConnection a env s = (r, s1)" by (cases "getConnection a env s")
  have w: "s_wire s1 = s_wire s" using getConnection_wire [OF g] by simp
  show thesis
  proof (cases r)
    case SelfDeadlock
    then show thesis using g by (intro hangs) (simp_all add: Send_def)
  next
    case NoConn
    then show thesis using g by (intro nodial) (simp_all add: Send_def)
  next
    case (GotConn c)
    show thesis
    proof (cases "header_fails env")
      case (Some k)
      show thesis
        by (rule header [of c s1 k]) (use g w GotConn Some in \<open>simp_all add: Send_def conn_write_def\<close>)
    next
      case hdr: None
      show thesis
      proof (cases "data_fails env")
        case None
        show thesis
          by (rule sent [of c s1])
            (use g w GotConn hdr None in \<open>simp_all add: Send_def conn_write_def frame_def\<close>)
      next
        case (Some k)
        show thesis
          by (rule data [of c s1 k])
            (use g w GotConn hdr Some in \<open>simp_all add: Send_def conn_write_def frame_def\<close>)
      qed
    qed
  qed
qed

lemma Send_pool: "s_workerPool (snd (Send a data env s)) = s_workerPool s"
  by (auto simp: Send_def conn_write_def dest!: getConnection_wire
      split: conn_result.splits prod.splits option.splits bool.splits)

lemma Send_never_hangs: "fst (Send a data env s) \<noteq> SendHangs"
  using getConnection_alone [of a env s] by (cases rule: Send_cases [of a env s data]) auto

lemma put_u32_nonempty [simp]: "put_u32 w \<noteq> []"
  by (metis length_put_u32 list.size(3) zero_neq_numeral)

text \<open>
  A failed \<open>Send\<close> has written a prefix of the frame and dropped the connection; a receiver
  then handles the whole message or nothing.
\<close>

lemma conn_loop_partial:
  assumes "k < length (frame d)" and "length d \<le> MaxMessageSize"
  shows "conn_loop (clean_conn (take k (frame d))) msgs = Some msgs"
proof -
  have short: "read_full Eof_forever n acc (map Byte bs) = (Inl (if acc @ bs = [] then EOF else UnexpectedEOF), [])"
    if "length bs < n" for n acc bs
    using that
  proof (induction bs arbitrary: n acc)
    case Nil
    then show ?case by (cases n) auto
  next
    case (Cons b bs)
    then show ?case by (cases n) auto
  qed
  have "conn_turn (clean_conn (take k (frame d))) = (if k = 0 then Return else Continue (clean_conn []))"
  proof (cases "k < 4")
    case True
    then show ?thesis
      using short [of "take k (frame d)" 4 "[]"]
      by (auto simp: conn_turn_def ReadFull_def clean_conn_def frame_def)
  next
    case False
    then have "c_events (clean_conn (take k (frame d)))
        = map Byte (put_u32 (of_nat (length d))) @ map Byte (take (k - 4) d)"
      by (simp add: clean_conn_def frame_def)
    from conn_turn_header [OF this] show ?thesis
      using assms False short [of "take (k - 4) d" "length d" "[]"]
      by (auto simp: frame_length_field ReadFull_def clean_conn_def)
  qed
  then show ?thesis
    using conn_loop_Nil by (subst conn_loop.simps) (simp add: clean_conn_def)
qed

text \<open>
  C27. A Send that fails after it got a connection removes the connection from the map,
  and the receiver at its other end then handles the whole message or nothing of it after
  the messages sent before.
\<close>

theorem failed_send_whole_or_nothing:
  assumes "getConnection a env s = (GotConn c, s1)" and "fst (Send a d env s) = SendError err"
    and "length d \<le> MaxMessageSize" and "\<forall>x\<in>set ds. length x \<le> MaxMessageSize"
    and "s_wire s c = concat (map frame ds)"
  shows "map_of (s_conns (snd (Send a d env s))) (addr_string a) = None
     \<and> conn_loop (clean_conn (s_wire (snd (Send a d env s)) c)) [] \<in> {Some ds, Some (ds @ [d])}"
proof -
  obtain k where w: "s_wire (snd (Send a d env s)) c = concat (map frame ds) @ take k (frame d)"
    and gone: "map_of (s_conns (snd (Send a d env s))) (addr_string a) = None"
  proof (cases rule: Send_cases [of a env s d])
    case (header c' s1' k)
    have "take k (put_u32 (of_nat (length d))) = take (min k 4) (frame d)"
      by (cases "k \<le> 4") (simp_all add: frame_def min_def)
    then show ?thesis using header assms(1,5) by (intro that [of "min k 4"]) auto
  next
    case (data c' s1' k)
    then show ?thesis using assms(1,5) by (intro that [of "4 + k"]) auto
  qed (use assms(1,2) in auto)
  let ?ev = "map Byte (concat (map frame ds) @ take k (frame d))"
  have "conn_loop \<lparr>c_events = ?ev, c_end = Eof_forever\<rparr> [] = conn_loop (clean_conn (take k (frame d))) ds"
    using conn_loop_frames [OF assms(4), of "\<lparr>c_events = ?ev, c_end = Eof_forever\<rparr>"]
    by (simp add: clean_conn_def)
  moreover have "conn_loop (clean_conn (take k (frame d))) ds \<in> {Some ds, Some (ds @ [d])}"
  proof (cases "k < length (frame d)")
    case True
    then show ?thesis using conn_loop_partial assms(3) by simp
  next
    case False
    then show ?thesis
      using conn_loop_frames [of "[d]" "clean_conn (frame d)" "[]" ds] assms(3)
      by (simp add: clean_conn_def conn_loop_Nil)
  qed
  ultimately show ?thesis using w gone by (simp add: clean_conn_def)
qed


text \<open>A run of calls with the same sender, one after the other.\<close>

fun sends :: "(net_addr \<times> byte list \<times> net_env) list \<Rightarrow> sender \<Rightarrow> send_result list \<times> sender" where
  "sends [] s = ([], s)"
| "sends ((a, d, env) # jobs) s =
     (case Send a d env s of (r, s') \<Rightarrow> (case sends jobs s' of (rs, s'') \<Rightarrow> (r # rs, s'')))"

definition sent_data :: "net_addr \<times> byte list \<times> net_env \<Rightarrow> byte list" where
  "sent_data job = fst (snd job)"

lemma sent_data_simp [simp]: "sent_data (a, d, env) = d"
  by (simp add: sent_data_def)

lemma addr_string_sends_conn:
  "getConnection a env s = (GotConn c, s1) \<Longrightarrow> map_of (s_conns s) (addr_string a) = Some c0
    \<Longrightarrow> alive_fast env \<Longrightarrow> c = c0 \<and> s1 = s"
  by (auto simp: getConnection_def get_fast_def)

lemma sends_wire:
  assumes "list_all (\<lambda>(a', d, env). a' = a \<and> alive_fast env) jobs"
    and "list_all (\<lambda>r. r = Sent) (fst (sends jobs s))"
    and "map_of (s_conns s) (addr_string a) = Some c"
  shows "s_wire (snd (sends jobs s)) c = s_wire s c @ concat (map frame (map sent_data jobs))
     \<and> map_of (s_conns (snd (sends jobs s))) (addr_string a) = Some c"
  using assms
proof (induction jobs arbitrary: s)
  case (Cons job jobs)
  obtain d env where job: "job = (a, d, env)" and alive: "alive_fast env"
    using Cons.prems(1) by (cases job) auto
  obtain r s1 where run: "Send a d env s = (r, s1)" by (cases "Send a d env s")
  have r: "r = Sent" using Cons.prems(2) run job by (auto split: prod.splits)
  obtain c1 s0 where sent: "getConnection a env s = (GotConn c1, s0)"
    "s_wire s1 = (s_wire s)(c1 := s_wire s c1 @ frame d)" "s_conns s1 = s_conns s0"
    using run r by (cases rule: Send_cases [of a env s d]) auto
  have same: "c1 = c" "s0 = s" using addr_string_sends_conn [OF sent(1) Cons.prems(3) alive] by auto
  have "s_wire (snd (sends jobs s1)) c = s_wire s1 c @ concat (map frame (map sent_data jobs))
     \<and> map_of (s_conns (snd (sends jobs s1))) (addr_string a) = Some c"
    using Cons.IH [of s1] Cons.prems run job same sent(3) by (auto split: prod.splits)
  then show ?case using run job same sent(2) by (auto split: prod.splits)
qed simp

text \<open>
  C13. Messages of at most 1 MiB that are sent without error to one address, one after the
  other over the connection the first opens, are read by the receiver as the same messages
  in the same order.
\<close>

theorem sends_are_received:
  assumes "map_of (s_conns s) (addr_string a) = None" and "\<forall>c. s_wire s c = []"
    and "list_all (\<lambda>(a', d, env). a' = a \<and> alive_fast env \<and> length d \<le> MaxMessageSize) jobs"
    and "jobs \<noteq> []" and "list_all (\<lambda>r. r = Sent) (fst (sends jobs s))"
  shows "\<exists>c. map_of (s_conns (snd (sends jobs s))) (addr_string a) = Some c
     \<and> conn_loop (clean_conn (s_wire (snd (sends jobs s)) c)) [] = Some (map sent_data jobs)"
proof -
  obtain d env jobs' where jobs: "jobs = (a, d, env) # jobs'" using assms(3,4) by (cases jobs) auto
  obtain r s1 where run: "Send a d env s = (r, s1)" by (cases "Send a d env s")
  have r: "r = Sent" using assms(5) run jobs by (auto split: prod.splits)
  obtain c s0 where sent: "getConnection a env s = (GotConn c, s0)"
    "s_wire s1 = (s_wire s)(c := s_wire s c @ frame d)" "s_conns s1 = s_conns s0"
    using run r by (cases rule: Send_cases [of a env s d]) auto
  have here: "map_of (s_conns s1) (addr_string a) = Some c"
    using getConnection_conn [OF sent(1)] sent(3) by simp
  have "s_wire (snd (sends jobs' s1)) c = s_wire s1 c @ concat (map frame (map sent_data jobs'))
     \<and> map_of (s_conns (snd (sends jobs' s1))) (addr_string a) = Some c"
  proof (rule sends_wire [OF _ _ here])
    show "list_all (\<lambda>(a', d, env). a' = a \<and> alive_fast env) jobs'"
      using assms(3) jobs by (auto simp: list_all_iff)
    show "list_all (\<lambda>r. r = Sent) (fst (sends jobs' s1))"
      using assms(5) jobs run by (auto split: prod.splits)
  qed
  then have "s_wire (snd (sends jobs s)) c = concat (map frame (map sent_data jobs))"
    and "map_of (s_conns (snd (sends jobs s))) (addr_string a) = Some c"
    using jobs run sent(2) assms(2) by (auto split: prod.splits)
  moreover have "\<forall>x\<in>set (map sent_data jobs). length x \<le> MaxMessageSize"
    using assms(3) by (auto simp: list_all_iff)
  ultimately show ?thesis using conn_loop_frames [of "map sent_data jobs"
      "clean_conn (concat (map frame (map sent_data jobs)))" "[]" "[]"]
    by (simp add: clean_conn_def conn_loop_Nil)
qed

section \<open>Two callers at once\<close>

text \<open>
  Nothing keeps two calls of \<open>Send\<close> on one connection apart.  When both headers are
  written before both payloads, the first message the receiver handles is the second header
  followed by most of the first payload.
\<close>

definition interleaved_writes :: "nat \<Rightarrow> byte list \<Rightarrow> byte list \<Rightarrow> sender \<Rightarrow> sender" where
  "interleaved_writes c a b s =
     snd (conn_write c b None (snd (conn_write c a None
       (snd (conn_write c (put_u32 (of_nat (length b))) None
         (snd (conn_write c (put_u32 (of_nat (length a))) None s)))))))"

text \<open>
  Two concurrent sends on one connection whose headers are both written before their
  data make the receiver handle a message that neither of them sent.
\<close>

theorem concurrent_sends_mix_messages:
  assumes "s_wire s c = []" and "4 \<le> length a" and "length a \<le> MaxMessageSize"
  shows "conn_turn (clean_conn (s_wire (interleaved_writes c a b s) c))
     = Deliver (put_u32 (of_nat (length b)) @ take (length a - 4) a)
         (clean_conn (drop (length a - 4) a @ b))"
proof -
  let ?m = "put_u32 (of_nat (length b)) @ take (length a - 4) a"
  have len: "length ?m = length a" using assms(2) by simp
  have "s_wire (interleaved_writes c a b s) c = put_u32 (of_nat (length a)) @ ?m @ drop (length a - 4) a @ b"
    using assms(1) by (simp add: interleaved_writes_def conn_write_simps)
  then have "c_events (clean_conn (s_wire (interleaved_writes c a b s) c))
      = map Byte (frame ?m) @ map Byte (drop (length a - 4) a @ b)"
    using len by (simp add: clean_conn_def frame_def)
  from conn_turn_frame [OF this] show ?thesis
    using len assms(3) by (simp add: clean_conn_def)
qed

text \<open>
  A getConnection that finds no connection before it takes the write lock, and a dead
  one that another call put there meanwhile, calls closeConnection with the lock held and
  waits for itself for ever.
\<close>

theorem getConnection_self_deadlock:
  assumes "map_of (s_conns s) (addr_string a) = None" and "\<not> alive_locked env1" and "dialed env2 = Some c"
  shows "let (found1, s1) = get_fast a env1 s; (res2, s2) = getConnection a env2 s1
         in found1 = None \<and> res2 = GotConn c \<and> fst (get_locked a env1 s2) = SelfDeadlock"
  using assms by (simp add: getConnection_def get_fast_def get_locked_def)

section \<open>Broadcast\<close>

lemma Send_pool_update:
  "Send a d env (s\<lparr>s_workerPool := p\<rparr>) = (case Send a d env s of (r, s') \<Rightarrow> (r, s'\<lparr>s_workerPool := p\<rparr>))"
  by (auto simp: Send_def getConnection_def get_fast_def get_locked_def closeConnection_def
      conn_write_def split: option.splits)

lemma unit_chan_eq: "length (ch_values c) = length (ch_values d) \<Longrightarrow> ch_cap c = ch_cap d \<Longrightarrow> c = (d :: unit chan)"
  by (rule chan.equality) (auto simp: list_eq_iff_nth_eq)

lemma broadcast_send_is_Send: "broadcast_send a d env s = Send a d env s"
proof (cases "chan_send (s_workerPool s) ()")
  case (Some pool)
  then have vals: "ch_values pool = ch_values (s_workerPool s) @ [()]" and cap: "ch_cap pool = ch_cap (s_workerPool s)"
    by (simp_all add: chan.contents_put chan.capacity_put)
  obtain r s' where run: "Send a d env s = (r, s')" by (cases "Send a d env s")
  obtain u pool' where recv: "chan_recv pool = Some (u, pool')"
    using vals chan.get_None [of pool] by (cases "chan_recv pool") auto
  have "length (ch_values pool') = length (ch_values (s_workerPool s))" "ch_cap pool' = ch_cap (s_workerPool s)"
    using chan.contents_get [OF recv] chan.capacity_get [OF recv] vals cap
    by (auto dest!: arg_cong [of _ _ length])
  then have "pool' = s_workerPool s" by (rule unit_chan_eq)
  moreover have "s_workerPool s' = s_workerPool s" using Send_pool [of a d env s] run by simp
  ultimately show ?thesis
    using Some run recv Send_never_hangs [of a d env s]
    by (simp add: broadcast_send_def Send_pool_update split: send_result.splits)
qed (simp add: broadcast_send_def)

definition send_errors :: "send_result list \<Rightarrow> send_error list" where
  "send_errors rs = List.map_filter (\<lambda>r. case r of SendError e \<Rightarrow> Some e | _ \<Rightarrow> None) rs"

lemma send_errors_simps [simp]:
  "send_errors [] = []" "send_errors (Sent # rs) = send_errors rs"
  "send_errors (SendError e # rs) = e # send_errors rs"
  by (simp_all add: send_errors_def map_filter_def)

lemma broadcast_jobs_spec:
  "length (ch_values ch) + length jobs \<le> ch_cap ch \<Longrightarrow>
     \<exists>ch'. broadcast_jobs jobs data ch s = Some (ch', snd (sends (map (\<lambda>(a, env). (a, data, env)) jobs) s))
       \<and> ch_values ch' = ch_values ch @ send_errors (fst (sends (map (\<lambda>(a, env). (a, data, env)) jobs) s))"
proof (induction jobs arbitrary: ch s)
  case (Cons job jobs)
  obtain a env where job: "job = (a, env)" by (cases job)
  obtain r s1 where run: "Send a data env s = (r, s1)" by (cases "Send a data env s")
  show ?case
  proof (cases r)
    case Sent
    then show ?thesis
      using Cons.IH [of ch s1] Cons.prems run job by (auto simp: broadcast_send_is_Send split: prod.splits)
  next
    case (SendError e)
    then obtain ch1 where ch1: "chan_send ch e = Some ch1"
      using Cons.prems chan.put_None [of ch e] by (cases "chan_send ch e") auto
    then have "ch_values ch1 = ch_values ch @ [e]" "ch_cap ch1 = ch_cap ch"
      by (simp_all add: chan.contents_put chan.capacity_put)
    then show ?thesis
      using Cons.IH [of ch1 s1] Cons.prems run job SendError ch1
      by (auto simp: broadcast_send_is_Send split: prod.splits)
  next
    case SendHangs
    then show ?thesis using Send_never_hangs [of a data env s] run by simp
  qed
qed simp

text \<open>
  Broadcast does what the sends to its addresses do one after the other, whatever the
  order of its goroutines and whether or not workers are free, and reports exactly their
  errors.
\<close>

theorem Broadcast_is_sends:
  assumes "mset (map fst jobs) = mset addresses"
  shows "\<exists>results s'. sends (map (\<lambda>(a, env). (a, data, env)) jobs) s = (results, s')
     \<and> Broadcast addresses data jobs s
         = Some (if send_errors results = [] then None else Some (send_errors results), s')"
proof -
  have "length jobs = length addresses" using arg_cong [OF assms, of size] by simp
  moreover obtain results s' where "sends (map (\<lambda>(a, env). (a, data, env)) jobs) s = (results, s')"
    by (cases "sends (map (\<lambda>(a, env). (a, data, env)) jobs) s")
  ultimately show ?thesis
    using broadcast_jobs_spec [of "make_chan (length addresses)" jobs data s]
    by (auto simp: Broadcast_def Let_def)
qed

theorem Broadcast_is_sends_witness:
  "\<exists>s'. Broadcast [resolve_tcp 1, resolve_tcp 2] [7]
      [(resolve_tcp 2, \<lparr>alive_fast = True, alive_locked = True, dialed = Some 0, header_fails = None, data_fails = None\<rparr>),
       (resolve_tcp 1, \<lparr>alive_fast = True, alive_locked = True, dialed = None, header_fails = None, data_fails = None\<rparr>)]
      NewSender = Some (Some [DialFailed], s')"
  (is "\<exists>s'. Broadcast ?as ?d ?jobs _ = _")
proof -
  have "mset (map fst ?jobs) = mset ?as" by simp
  from Broadcast_is_sends [OF this, of ?d NewSender] show ?thesis
    by (auto simp: Send_def getConnection_def get_fast_def get_locked_def NewSender_def
        closeConnection_def conn_write_def addr_string_def resolve_tcp_def
        dec_digits.simps split: option.splits if_splits)
qed

section \<open>Closing and clean-up\<close>

lemma Sender_Close_all:
  "s_conns (Sender_Close s) = [] \<and> set (s_closed (Sender_Close s)) = set (s_closed s) \<union> snd ` set (s_conns s)"
  by (simp add: Sender_Close_def)

lemma cleanup_entry_kept: "fst (cleanup_entry alive conns) = take maxIdle (filter alive conns)"
  by (simp add: cleanup_entry_def Let_def)

lemma cleanup_entry_mset:
  "mset (fst (cleanup_entry alive conns)) + mset (snd (cleanup_entry alive conns)) = mset conns"
proof -
  let ?live = "filter alive conns" and ?dead = "filter (\<lambda>c. \<not> alive c) conns"
  have "mset ?live + mset ?dead = mset conns"
    using multiset_partition [of "mset conns" alive] by simp
  moreover have "mset (take maxIdle ?live) + mset (drop maxIdle ?live) = mset ?live"
    by (metis append_take_drop_id mset_append)
  moreover have "mset (snd (cleanup_entry alive conns)) = mset ?dead + mset (drop maxIdle ?live)"
    by (simp add: cleanup_entry_def Let_def)
  ultimately show ?thesis by (simp only: cleanup_entry_kept ac_simps) (metis add.assoc add.commute)
qed

theorem cleanup_tick_bounds:
  "(\<forall>(addr, conns)\<in>set (s_idleConns (cleanup_tick alive s)).
      conns \<noteq> [] \<and> length conns \<le> 5 \<and> list_all alive conns)
   \<and> mset (concat (map snd (s_idleConns (cleanup_tick alive s)))) + mset (s_closed (cleanup_tick alive s))
       = mset (concat (map snd (s_idleConns s))) + mset (s_closed s)"
proof
  show "\<forall>(addr, conns)\<in>set (s_idleConns (cleanup_tick alive s)).
      conns \<noteq> [] \<and> length conns \<le> 5 \<and> list_all alive conns"
  proof clarify
    fix addr kept
    assume "(addr, kept) \<in> set (s_idleConns (cleanup_tick alive s))"
    then obtain conns where "kept = fst (cleanup_entry alive conns)" and "kept \<noteq> []"
      by (auto simp: cleanup_tick_def)
    then show "kept \<noteq> [] \<and> length kept \<le> 5 \<and> list_all alive kept"
      by (auto simp: cleanup_entry_kept maxIdle_def list_all_iff dest: in_set_takeD)
  qed
  have "mset (concat (map snd (filter (\<lambda>(addr, remaining). length remaining \<noteq> 0)
            (map (\<lambda>(addr, conns). (addr, fst (cleanup_entry alive conns))) m))))
        + mset (concat (map (\<lambda>(addr, conns). snd (cleanup_entry alive conns)) m))
      = mset (concat (map snd m))" for m :: "(byte list, nat list) gomap"
  proof (induction m)
    case (Cons p m)
    obtain addr conns where p: "p = (addr, conns)" by (cases p)
    obtain kept closed where run: "cleanup_entry alive conns = (kept, closed)"
      by (cases "cleanup_entry alive conns")
    have "mset kept + mset closed = mset conns" using cleanup_entry_mset [of alive conns] run by simp
    then show ?case using Cons p run by (cases "kept = []") (auto simp: algebra_simps)
  qed simp
  from this [of "s_idleConns s"]
  show "mset (concat (map snd (s_idleConns (cleanup_tick alive s)))) + mset (s_closed (cleanup_tick alive s))
       = mset (concat (map snd (s_idleConns s))) + mset (s_closed s)"
    by (simp add: cleanup_tick_def algebra_simps)
qed

section \<open>Witnesses\<close>

definition good_env :: "nat \<Rightarrow> net_env" where
  "good_env c = \<lparr>alive_fast = True, alive_locked = True, dialed = Some c, header_fails = None, data_fails = None\<rparr>"

lemmas send_eval = Send_def getConnection_def get_fast_def get_locked_def NewSender_def good_env_def
  closeConnection_def conn_write_def

theorem sends_are_received_witness:
  "\<exists>c. conn_loop (clean_conn (s_wire (snd (sends
        [(resolve_tcp 0, [1], good_env 4), (resolve_tcp 0, [2, 3], good_env 5)] NewSender)) c)) [] = Some [[1], [2, 3]]"
proof -
  have "\<exists>c. map_of (s_conns (snd (sends [(resolve_tcp 0, [1], good_env 4), (resolve_tcp 0, [2, 3], good_env 5)] NewSender)))
        (addr_string (resolve_tcp 0)) = Some c
     \<and> conn_loop (clean_conn (s_wire (snd (sends
        [(resolve_tcp 0, [1], good_env 4), (resolve_tcp 0, [2, 3], good_env 5)] NewSender)) c)) []
        = Some (map sent_data [(resolve_tcp 0, [1], good_env 4), (resolve_tcp 0, [2, 3], good_env 5)])"
    by (rule sends_are_received) (simp_all add: send_eval MaxMessageSize_def)
  then show ?thesis by auto
qed

theorem failed_send_whole_or_nothing_witness:
  "conn_loop (clean_conn (s_wire (snd (Send (resolve_tcp 0) [8, 9] ((good_env 4)\<lparr>data_fails := Some 1\<rparr>) NewSender)) 4)) []
       \<in> {Some [], Some [[8, 9]]}"
proof -
  have "getConnection (resolve_tcp 0) ((good_env 4)\<lparr>data_fails := Some 1\<rparr>) NewSender
      = (GotConn 4, snd (getConnection (resolve_tcp 0) ((good_env 4)\<lparr>data_fails := Some 1\<rparr>) NewSender))"
    by (simp add: send_eval)
  moreover have "fst (Send (resolve_tcp 0) [8, 9] ((good_env 4)\<lparr>data_fails := Some 1\<rparr>) NewSender) = SendError DataFailed"
    by (simp add: send_eval)
  moreover have "s_wire NewSender 4 = concat (map frame [])" by (simp add: NewSender_def)
  ultimately show ?thesis
    using failed_send_whole_or_nothing
      [of "resolve_tcp 0" "(good_env 4)\<lparr>data_fails := Some 1\<rparr>" NewSender 4 _ "[8, 9]" DataFailed "[]"]
    by (simp add: MaxMessageSize_def)
qed

theorem concurrent_sends_mix_messages_witness:
  "conn_turn (clean_conn (s_wire (interleaved_writes 4 [1, 2, 3, 4, 5] [6] NewSender) 4))
     = Deliver (put_u32 1 @ [1]) (clean_conn [2, 3, 4, 5, 6])"
  using concurrent_sends_mix_messages [of NewSender 4 "[1, 2, 3, 4, 5]" "[6]"]
  by (simp add: NewSender_def MaxMessageSize_def)

theorem getConnection_self_deadlock_witness:
  "fst (get_locked (resolve_tcp 0) ((good_env 1)\<lparr>alive_locked := False\<rparr>)
      (snd (getConnection (resolve_tcp 0) (good_env 2) NewSender))) = SelfDeadlock"
  using getConnection_self_deadlock
    [of NewSender "resolve_tcp 0" "(good_env 1)\<lparr>alive_locked := False\<rparr>" "good_env 2" 2]
  by (simp add: send_eval)

end
