(* ===== verification/Model_Json.thy ===== *)
theory Model_Json
  imports Model_Vertex Go_Json
begin

text \<open>
  \<open>MarshalBinary\<close> and \<open>UnmarshalBinary\<close> of blocks (pkg/model/block.go) and vertices
  (pkg/model/vertex.go): the JSON text that goes over the network.

  A decoder returns \<open>None\<close> for an error; the callers then drop the half-filled value, so
  it is not modelled.  A transaction that is a nil slice is the empty transaction here.  The
  members of an object are decoded in their order, a later one for the same field over an
  earlier one (a repeated \<open>transactions\<close> replaces the slice).
\<close>

fun fold_option :: "('a \<Rightarrow> 'b \<Rightarrow> 'b option) \<Rightarrow> 'a list \<Rightarrow> 'b \<Rightarrow> 'b option" where
  "fold_option f [] b = Some b"
| "fold_option f (x # xs) b = (case f x b of None \<Rightarrow> None | Some b' \<Rightarrow> fold_option f xs b')"

section \<open>Blocks\<close>

definition enc_transactions :: "transaction list option \<Rightarrow> json" where
  "enc_transactions txs =
     (case txs of None \<Rightarrow> JNull | Some ts \<Rightarrow> JArr (map (\<lambda>tx. JStr (b64_encode tx)) ts))"

definition block_json :: "block \<Rightarrow> json" where
  "block_json b =
     JObj [(str ''height'', enc_u64 (b_height b)),
           (str ''transactions'', enc_transactions (b_transactions b)),
           (str ''timestamp'', JStr (rfc3339 (b_timestamp b)))]"

text \<open>The only error is that of the timestamp; the unexported hash is not printed.\<close>

definition Block_MarshalBinary :: "block \<Rightarrow> byte list option" where
  "Block_MarshalBinary b =
     (if time_MarshalJSON (b_timestamp b) = None then None else Some (print_json (block_json b)))"

definition dec_time :: "gotime \<Rightarrow> json \<Rightarrow> gotime option" where
  "dec_time old j = time_UnmarshalJSON (raw_text j) old"

definition dec_transactions :: "transaction list option \<Rightarrow> json \<Rightarrow> transaction list option option" where
  "dec_transactions old j =
     (case j of
        JNull \<Rightarrow> Some None
      | JArr js \<Rightarrow> map_option (\<lambda>txs. Some (map elems txs)) (those (map dec_bytes js))
      | _ \<Rightarrow> None)"

definition block_fields :: "byte list list" where
  "block_fields = [str ''height'', str ''transactions'', str ''timestamp'']"

definition dec_block_member :: "byte list \<times> json \<Rightarrow> block \<Rightarrow> block option" where
  "dec_block_member m b =
     (case find_field block_fields (fst m) of
        None \<Rightarrow> Some b
      | Some name \<Rightarrow>
          (if name = str ''height'' then
             map_option (\<lambda>h. b\<lparr>b_height := h\<rparr>) (dec_u64 (b_height b) (snd m))
           else if name = str ''transactions'' then
             map_option (\<lambda>t. b\<lparr>b_transactions := t\<rparr>) (dec_transactions (b_transactions b) (snd m))
           else map_option (\<lambda>t. b\<lparr>b_timestamp := t\<rparr>) (dec_time (b_timestamp b) (snd m))))"

definition dec_block :: "block \<Rightarrow> json \<Rightarrow> block option" where
  "dec_block b j =
     (case j of JNull \<Rightarrow> Some b | JObj ms \<Rightarrow> fold_option dec_block_member ms b | _ \<Rightarrow> None)"

definition zero_block :: block where
  "zero_block = \<lparr>b_hash = None, b_height = 0, b_transactions = None, b_timestamp = zero_time\<rparr>"

definition Block_UnmarshalBinary :: "(byte list \<Rightarrow> byte list) \<Rightarrow> byte list \<Rightarrow> block \<Rightarrow> block option" where
  "Block_UnmarshalBinary blake data b =
     (case parse_json data of
        None \<Rightarrow> None
      | Some j \<Rightarrow>
          (case dec_block b j of
             None \<Rightarrow> None
           | Some b' \<Rightarrow> Some (b'\<lparr>b_hash := Some (block_calculateHash blake b')\<rparr>)))"

section \<open>Vertices\<close>

text \<open>The map with base64 keys; \<open>json.Marshal\<close> prints its keys in ascending order.\<close>

definition string_parents :: "(vertex_hash, round) gomap \<Rightarrow> (byte list, round) gomap" where
  "string_parents ps =
     fold (\<lambda>(hash, round) m. AList.update (b64_encode (bytes_of hash)) round m) ps []"

definition enc_parents :: "(byte list, round) gomap \<Rightarrow> json" where
  "enc_parents m = JObj (map (\<lambda>(k, r). (k, enc_u64 r)) (sort_key fst m))"

definition vertex_json :: "vertex \<Rightarrow> json" where
  "vertex_json v =
     JObj [(str ''hash'', JStr (b64_encode (bytes_of (vx_hash v)))),
           (str ''owner'', JStr (b64_encode (bytes_of (vx_owner v)))),
           (str ''block'', (case vx_block v of None \<Rightarrow> JNull | Some b \<Rightarrow> block_json b)),
           (str ''parents'', enc_parents (string_parents (vx_parents v))),
           (str ''round'', enc_u64 (vx_round v)),
           (str ''wave'', enc_u64 (vx_wave v)),
           (str ''timestamp'', JStr (rfc3339 (vx_timestamp v)))]"

definition Vertex_MarshalBinary :: "vertex \<Rightarrow> byte list option" where
  "Vertex_MarshalBinary v =
     (if time_MarshalJSON (vx_timestamp v) = None
         \<or> (\<exists>b\<in>set_option (vx_block v). time_MarshalJSON (b_timestamp b) = None)
      then None else Some (print_json (vertex_json v)))"

text \<open>The local struct of \<open>UnmarshalBinary\<close>.\<close>

record vertex_fields =
  vj_hash :: vertex_hash
  vj_owner :: "byte list"
  vj_block :: "block option"
  vj_parents :: "(byte list, round) gomap"
  vj_round :: round
  vj_wave :: wave
  vj_timestamp :: gotime

definition zero_fields :: vertex_fields where
  "zero_fields = \<lparr>vj_hash = zero32, vj_owner = [], vj_block = None, vj_parents = [], vj_round = 0,
                  vj_wave = 0, vj_timestamp = zero_time\<rparr>"

definition dec_hash :: "vertex_hash \<Rightarrow> json \<Rightarrow> vertex_hash option" where
  "dec_hash old j = (case VertexHash_UnmarshalJSON (raw_text j) old of Inl _ \<Rightarrow> None | Inr h \<Rightarrow> Some h)"

definition dec_block_ptr :: "block option \<Rightarrow> json \<Rightarrow> block option option" where
  "dec_block_ptr old j =
     (case j of
        JNull \<Rightarrow> Some None
      | _ \<Rightarrow> map_option Some (dec_block (case old of None \<Rightarrow> zero_block | Some b \<Rightarrow> b) j))"

definition dec_parents :: "(byte list, round) gomap \<Rightarrow> json \<Rightarrow> (byte list, round) gomap option" where
  "dec_parents old j =
     (case j of
        JNull \<Rightarrow> Some []
      | JObj ms \<Rightarrow>
          fold_option (\<lambda>(k, r) m. map_option (\<lambda>w. AList.update (unquote k) w m) (dec_u64 0 r)) ms old
      | _ \<Rightarrow> None)"

definition field_names :: "byte list list" where
  "field_names = [str ''hash'', str ''owner'', str ''block'', str ''parents'', str ''round'',
                  str ''wave'', str ''timestamp'']"

definition dec_vertex_member :: "byte list \<times> json \<Rightarrow> vertex_fields \<Rightarrow> vertex_fields option" where
  "dec_vertex_member m v =
     (case find_field field_names (fst m) of
        None \<Rightarrow> Some v
      | Some name \<Rightarrow>
          (if name = str ''hash'' then map_option (\<lambda>x. v\<lparr>vj_hash := x\<rparr>) (dec_hash (vj_hash v) (snd m))
           else if name = str ''owner'' then
             map_option (\<lambda>x. v\<lparr>vj_owner := x\<rparr>) (dec_string (vj_owner v) (snd m))
           else if name = str ''block'' then
             map_option (\<lambda>x. v\<lparr>vj_block := x\<rparr>) (dec_block_ptr (vj_block v) (snd m))
           else if name = str ''parents'' then
             map_option (\<lambda>x. v\<lparr>vj_parents := x\<rparr>) (dec_parents (vj_parents v) (snd m))
           else if name = str ''round'' then
             map_option (\<lambda>x. v\<lparr>vj_round := x\<rparr>) (dec_u64 (vj_round v) (snd m))
           else if name = str ''wave'' then
             map_option (\<lambda>x. v\<lparr>vj_wave := x\<rparr>) (dec_u64 (vj_wave v) (snd m))
           else map_option (\<lambda>x. v\<lparr>vj_timestamp := x\<rparr>) (dec_time (vj_timestamp v) (snd m))))"

definition required_fields :: "byte list list" where
  "required_fields = [str ''owner'', str ''round'', str ''parents'']"

text \<open>
  The first decoding, into a \<open>map[string]interface{}\<close>: its keys, or an error.  The second,
  into the struct, only runs when the required keys are there, so on an object.
\<close>

definition raw_keys :: "json \<Rightarrow> byte list list option" where
  "raw_keys j =
     (case j of
        JNull \<Rightarrow> Some []
      | JObj ms \<Rightarrow> if members_floats ms then Some (map (\<lambda>(k, _). unquote k) ms) else None
      | _ \<Rightarrow> None)"

definition dec_vertex :: "json \<Rightarrow> vertex_fields option" where
  "dec_vertex j =
     (case j of
        JNull \<Rightarrow> Some zero_fields
      | JObj ms \<Rightarrow> fold_option dec_vertex_member ms zero_fields
      | _ \<Rightarrow> None)"

definition hash_parents ::
  "(byte list, round) gomap \<Rightarrow> (vertex_hash, round) gomap \<Rightarrow> (vertex_hash, round) gomap option" where
  "hash_parents ms ps =
     fold_option (\<lambda>(hashStr, round) m.
         map_option (\<lambda>hashBytes. AList.update (array32 hashBytes) round m) (b64_decode hashStr)) ms ps"

text \<open>
  The fields copied into the vertex, the block replaced by a new one (\<open>now\<close> is the clock
  reading of that \<open>NewBlock\<close>) and the hash recalculated.
\<close>

definition fill_vertex ::
  "(byte list \<Rightarrow> byte list) \<Rightarrow> gotime \<Rightarrow> vertex \<Rightarrow> vertex_fields \<Rightarrow> byte list
   \<Rightarrow> (vertex_hash, round) gomap \<Rightarrow> vertex" where
  "fill_vertex blake now v vj ownerBytes parents =
     (let v1 = \<lparr>vx_hash = vj_hash vj, vx_owner = copy32 (vx_owner v) ownerBytes,
                vx_block = map_option (\<lambda>b. NewBlock blake now (b_height b) (b_transactions b)) (vj_block vj),
                vx_parents = parents, vx_round = vj_round vj, vx_wave = vj_wave vj,
                vx_timestamp = vj_timestamp vj\<rparr>;
          (hash, v2) = vertex_calculateHash blake v1
      in v2\<lparr>vx_hash := hash\<rparr>)"

text \<open>
  \<open>it\<close> is the order in which the loop over the decoded map sees its entries: two keys can
  decode to one hash.
\<close>

definition Vertex_UnmarshalBinary ::
  "(byte list \<Rightarrow> byte list) \<Rightarrow> gotime \<Rightarrow> ((byte list, round) gomap \<Rightarrow> (byte list, round) gomap)
   \<Rightarrow> byte list \<Rightarrow> vertex \<Rightarrow> vertex option" where
  "Vertex_UnmarshalBinary blake now it data v =
     (case parse_json data of None \<Rightarrow> None | Some j \<Rightarrow>
      case raw_keys j of None \<Rightarrow> None | Some keys \<Rightarrow>
      if \<not> list_all (\<lambda>f. f \<in> set keys) required_fields then None else
      case dec_vertex j of None \<Rightarrow> None | Some vj \<Rightarrow>
      case b64_decode (vj_owner vj) of None \<Rightarrow> None | Some ownerBytes \<Rightarrow>
      case hash_parents (it (vj_parents vj)) (vx_parents v) of None \<Rightarrow> None | Some parents \<Rightarrow>
        Some (fill_vertex blake now v vj ownerBytes parents))"

definition zero_vertex :: vertex where
  "zero_vertex = \<lparr>vx_hash = zero32, vx_owner = zero32, vx_block = None, vx_parents = [], vx_round = 0,
                  vx_wave = 0, vx_timestamp = zero_time\<rparr>"

section \<open>Field names\<close>

lemma unat_of_char: "unat (of_char c :: byte) = (of_char c :: nat)"
proof -
  have "unat (of_nat (of_char c) :: byte) = of_char c"
    by (simp add: unat_of_nat del: of_nat_of_char)
  then show ?thesis by (simp only: of_nat_of_char)
qed

lemma str_inject [simp]: "str s = str t \<longleftrightarrow> s = t"
proof -
  have "inj (of_char :: char \<Rightarrow> byte)" by (metis injI of_char_eq_iff unat_of_char)
  then show ?thesis unfolding str_def by (simp add: inj_map_eq_map)
qed

definition plain :: "string \<Rightarrow> bool" where
  "plain s \<longleftrightarrow> list_all (\<lambda>c. 97 \<le> (of_char c :: nat) \<and> (of_char c :: nat) \<le> 122) s"

lemma plain_raw: "plain s \<Longrightarrow> raw_ok (str s) \<and> list_all (\<lambda>c. c < 128) (str s)"
proof -
  assume p: "plain s"
  have "(of_char c :: byte) \<noteq> 34 \<and> (of_char c :: byte) \<noteq> 92 \<and> \<not> (of_char c :: byte) < 32 \<and> (of_char c :: byte) < 128"
    if c: "c \<in> set s" for c
  proof -
    have b: "97 \<le> (of_char c :: nat) \<and> (of_char c :: nat) \<le> 122" using p c by (simp add: plain_def list_all_iff)
    then show ?thesis using unat_of_char [of c] by (auto simp: word_less_nat_alt word_le_nat_alt)
  qed
  then show ?thesis by (auto simp: raw_ok_def str_def list_all_iff)
qed

lemma unquote_plain: "plain s \<Longrightarrow> unquote (str s) = str s"
  using plain_raw unquote_raw by blast

lemma plain_names [simp]:
  "plain ''height''" "plain ''transactions''" "plain ''timestamp''" "plain ''hash''" "plain ''owner''"
  "plain ''block''" "plain ''parents''" "plain ''round''" "plain ''wave''"
  by (simp_all add: plain_def)

lemma find_field_name: "str s \<in> set names \<Longrightarrow> plain s \<Longrightarrow> find_field names (str s) = Some (str s)"
  by (simp add: find_field_def unquote_plain Let_def)

section \<open>Blocks\<close>

lemma those_map_Some: "(\<And>x. x \<in> set xs \<Longrightarrow> f (g x) = Some (h x)) \<Longrightarrow> those (map f (map g xs)) = Some (map h xs)"
  by (induction xs) auto

lemma dec_enc_transactions [simp]: "dec_transactions old (enc_transactions txs) = Some txs"
proof (cases txs)
  case (Some ts)
  have "those (map dec_bytes (map (\<lambda>tx. JStr (b64_encode tx)) ts)) = Some (map Some ts)"
    by (rule those_map_Some) (simp add: dec_bytes_def)
  then show ?thesis using Some by (simp add: dec_transactions_def enc_transactions_def comp_def)
qed (simp add: dec_transactions_def enc_transactions_def)

lemma dec_time_enc [simp]: "time_ok t \<Longrightarrow> dec_time old (JStr (rfc3339 t)) = Some t"
  using parse_rfc3339_print [of t]
  by (simp add: dec_time_def raw_text_def time_UnmarshalJSON_def str_def)

lemma dec_block_enc [simp]:
  "time_ok (b_timestamp c) \<Longrightarrow> dec_block b (block_json c) = Some (c\<lparr>b_hash := b_hash b\<rparr>)"
  by (simp add: dec_block_def block_json_def dec_block_member_def find_field_name block_fields_def)

lemma elems_ok_map: "(\<And>x. x \<in> set xs \<Longrightarrow> json_ok d (f x)) \<Longrightarrow> elems_ok d (map f xs)"
  by (induction xs) auto

lemma json_ok_block: "json_ok (Suc (Suc d)) (block_json b)"
  by (cases "b_transactions b")
     (auto simp: block_json_def enc_transactions_def plain_raw intro!: elems_ok_map)

lemma time_ok_marshals: "time_ok t \<Longrightarrow> time_MarshalJSON t \<noteq> None"
  using time_round_trip [of t zero_time] by auto

lemma Block_wire:
  assumes "time_ok (b_timestamp b)"
  shows "\<exists>data. Block_MarshalBinary b = Some data
     \<and> Block_UnmarshalBinary blake data zero_block
         = Some (b\<lparr>b_hash := Some (block_calculateHash blake b)\<rparr>)"
proof -
  have "json_ok max_depth (block_json b)"
    using json_ok_block [of 9998 b] by (simp add: max_depth_def)
  then have "parse_json (print_json (block_json b)) = Some (block_json b)" by (rule parse_print)
  then show ?thesis
    using assms time_ok_marshals [OF assms]
    by (auto simp: Block_MarshalBinary_def Block_UnmarshalBinary_def)
qed

text \<open>
  A block with a printable timestamp that is marshalled and unmarshalled is the same
  block with its hash recalculated.
\<close>

theorem Block_round_trip:
  assumes "time_ok (b_timestamp b)"
  shows "\<exists>data. Block_MarshalBinary b = Some data
     \<and> Block_UnmarshalBinary blake data zero_block
         = Some (b\<lparr>b_hash := Some (block_calculateHash blake b)\<rparr>)"
  using assms by (rule Block_wire)

section \<open>Vertices\<close>

lemma update_fresh_append: "k \<notin> fst ` set m \<Longrightarrow> AList.update k v m = m @ [(k, v)]"
  by (induction m) auto

lemma fold_update_fresh:
  "distinct (map (fst \<circ> g) xs) \<Longrightarrow> fst ` set m \<inter> (fst \<circ> g) ` set xs = {}
    \<Longrightarrow> fold (\<lambda>x. AList.update (fst (g x)) (snd (g x))) xs m = m @ map g xs"
  by (induction xs arbitrary: m) (auto simp: update_fresh_append)

lemma fold_option_update_fresh:
  "(\<And>x m. x \<in> set xs \<Longrightarrow> step x m = Some (AList.update (fst (g x)) (snd (g x)) m))
    \<Longrightarrow> distinct (map (fst \<circ> g) xs) \<Longrightarrow> fst ` set m \<inter> (fst \<circ> g) ` set xs = {}
    \<Longrightarrow> fold_option step xs m = Some (m @ map g xs)"
proof (induction xs arbitrary: m)
  case (Cons x xs)
  then have "step x m = Some (m @ [g x])" by (auto simp: update_fresh_append)
  then show ?case using Cons.IH [of "m @ [g x]"] Cons.prems by auto
qed simp

lemma b64_array_inject [simp]: "b64_encode (bytes_of g) = b64_encode (bytes_of h) \<longleftrightarrow> g = h"
  by (metis b64_decode_encode bytes_of_inj option.inject)

abbreviation string_entry :: "vertex_hash \<times> round \<Rightarrow> byte list \<times> round" where
  "string_entry p \<equiv> (b64_encode (bytes_of (fst p)), snd p)"

lemma string_parents_map: "gomap_ok ps \<Longrightarrow> string_parents ps = map string_entry ps"
proof -
  assume ok: "gomap_ok ps"
  have "inj_on (\<lambda>p. b64_encode (bytes_of (fst p))) (set ps)"
    using ok by (auto simp: gomap_ok_def distinct_map inj_on_def)
  then have "distinct (map (fst \<circ> string_entry) ps)"
    using ok by (simp add: distinct_map gomap_ok_def comp_def)
  moreover have "(\<lambda>(hash, round). AList.update (b64_encode (bytes_of hash)) round)
      = (\<lambda>p. AList.update (fst (string_entry p)) (snd (string_entry p)))"
    by (simp add: fun_eq_iff)
  ultimately show ?thesis
    using fold_update_fresh [of string_entry ps "[]"] unfolding string_parents_def by simp
qed

lemma sort_key_distinct: "distinct (map fst m) \<Longrightarrow> distinct (map fst (sort_key f m))"
  using mset_eq_imp_distinct_iff [of "map fst (sort_key f m)" "map fst m"] by simp

lemma fold_option_map: "fold_option f (map g xs) b = fold_option (\<lambda>x. f (g x)) xs b"
  by (induction xs arbitrary: b) (auto split: option.splits)

lemma dec_enc_parents:
  assumes "gomap_ok m" and "\<forall>k\<in>fst ` set m. unquote k = k"
  shows "dec_parents [] (enc_parents m) = Some (sort_key fst m)"
proof -
  let ?step = "\<lambda>(k, r) m. map_option (\<lambda>w. AList.update (unquote k) w m) (dec_u64 0 r)"
  have "fold_option (\<lambda>p. ?step ((\<lambda>(k, r). (k, enc_u64 r)) p)) (sort_key fst m) []
      = Some ([] @ map (\<lambda>p. p) (sort_key fst m))"
  proof (rule fold_option_update_fresh)
    show "distinct (map (fst \<circ> (\<lambda>p. p)) (sort_key fst m))"
      using sort_key_distinct [of m fst] assms(1) by (simp add: gomap_ok_def comp_def)
  qed (use assms(2) in auto)
  then show ?thesis by (simp add: dec_parents_def enc_parents_def fold_option_map)
qed

lemma hash_string_parents:
  assumes "gomap_ok ps" and "mset ms = mset (string_parents ps)"
  shows "\<exists>qs. hash_parents ms [] = Some qs \<and> gomap_ok qs \<and> map_of qs = map_of ps"
proof -
  define g where "g = (\<lambda>(k, r :: round). (array32 (the (b64_decode k)), r))"
  have set_ms: "set ms = string_entry ` set ps"
    using arg_cong [OF assms(2), of set_mset] string_parents_map [OF assms(1)] by simp
  have g: "g (string_entry p) = p" for p by (simp add: g_def)
  have "mset (map g ms) = mset (map g (map string_entry ps))"
    by (simp only: mset_map assms(2) string_parents_map [OF assms(1)])
  moreover have "map g (map string_entry ps) = ps" using g by (simp add: comp_def)
  ultimately have perm: "mset (map g ms) = mset ps" by (simp only:)
  then have "mset (map fst (map g ms)) = mset (map fst ps)" by (simp only: mset_map)
  then have dist: "distinct (map fst (map g ms))"
    using assms(1) mset_eq_imp_distinct_iff unfolding gomap_ok_def by blast
  have "hash_parents ms [] = Some ([] @ map g ms)"
    unfolding hash_parents_def
  proof (rule fold_option_update_fresh)
    show "distinct (map (fst \<circ> g) ms)" using dist by simp
    show "(case x of (hashStr, round) \<Rightarrow> \<lambda>m. map_option (\<lambda>hashBytes. AList.update (array32 hashBytes) round m) (b64_decode hashStr)) m
        = Some (AList.update (fst (g x)) (snd (g x)) m)" if "x \<in> set ms" for x m
      using that set_ms by (auto simp: g_def)
  qed simp
  moreover have ok: "gomap_ok (map g ms)" using dist by (simp add: gomap_ok_def)
  moreover have "map_of (map g ms) = map_of ps"
  proof
    have set_eq: "set (map g ms) = set ps" using arg_cong [OF perm, of set_mset] by simp
    fix h
    have "map_of (map g ms) h = Some r \<longleftrightarrow> map_of ps h = Some r" for r
      using map_of_in_iff [OF ok] map_of_in_iff [OF assms(1)] set_eq by simp
    then show "map_of (map g ms) h = map_of ps h" by (metis option.exhaust)
  qed
  ultimately show ?thesis by auto
qed

subsection \<open>Decoding what was printed\<close>

lemma dec_hash_enc [simp]: "dec_hash old (JStr (b64_encode (bytes_of h))) = Some h"
proof -
  have "raw_text (JStr (b64_encode (bytes_of h))) = array_MarshalJSON h"
    by (simp add: raw_text_def array_MarshalJSON_def)
  then show ?thesis by (simp add: dec_hash_def VertexHash_UnmarshalJSON_def)
qed

lemma dec_block_ptr_enc [simp]:
  "time_ok (b_timestamp b) \<Longrightarrow> dec_block_ptr None (block_json b) = Some (Some (b\<lparr>b_hash := None\<rparr>))"
  using dec_block_enc [of b zero_block]
  by (simp add: dec_block_ptr_def block_json_def zero_block_def)

definition times_ok :: "vertex \<Rightarrow> bool" where
  "times_ok v \<longleftrightarrow> time_ok (vx_timestamp v) \<and> (\<forall>b\<in>set_option (vx_block v). time_ok (b_timestamp b))"

lemma dec_vertex_enc:
  assumes "times_ok v" and "gomap_ok (vx_parents v)"
  shows "dec_vertex (vertex_json v) = Some
     \<lparr>vj_hash = vx_hash v, vj_owner = b64_encode (bytes_of (vx_owner v)),
      vj_block = map_option (\<lambda>b. b\<lparr>b_hash := None\<rparr>) (vx_block v),
      vj_parents = sort_key fst (string_parents (vx_parents v)), vj_round = vx_round v,
      vj_wave = vx_wave v, vj_timestamp = vx_timestamp v\<rparr>"
proof -
  have "gomap_ok (string_parents (vx_parents v))"
  proof -
    have "inj_on (\<lambda>p. b64_encode (bytes_of (fst p))) (set (vx_parents v))"
      using assms(2) by (auto simp: gomap_ok_def distinct_map inj_on_def)
    then show ?thesis
      using assms(2) by (simp add: string_parents_map gomap_ok_def distinct_map comp_def)
  qed
  then have parents: "dec_parents [] (enc_parents (string_parents (vx_parents v)))
      = Some (sort_key fst (string_parents (vx_parents v)))"
    using assms(2) by (intro dec_enc_parents) (auto simp: string_parents_map)
  have block: "dec_block_ptr None (case vx_block v of None \<Rightarrow> JNull | Some b \<Rightarrow> block_json b)
      = Some (map_option (\<lambda>b. b\<lparr>b_hash := None\<rparr>) (vx_block v))"
    using assms(1) by (cases "vx_block v") (simp_all add: times_ok_def dec_block_ptr_def [of None JNull])
  show ?thesis
    using assms(1) parents block
    by (simp add: dec_vertex_def vertex_json_def dec_vertex_member_def find_field_name field_names_def
        zero_fields_def dec_string_def times_ok_def)
qed

lemma raw_keys_enc: "raw_keys (vertex_json v) = Some field_names"
proof -
  have txs: "elems_floats (map (\<lambda>tx. JStr (b64_encode tx)) ts)" for ts by (induction ts) auto
  have block: "floats_ok (block_json b)" for b
    using txs by (cases "b_transactions b") (simp_all add: block_json_def enc_transactions_def)
  have "members_floats (map (\<lambda>(k, r). (k, enc_u64 r)) m)" for m :: "(byte list, round) gomap"
    by (induction m) auto
  then show ?thesis
    using block by (simp add: raw_keys_def vertex_json_def enc_parents_def field_names_def unquote_plain
        split: option.split)
qed

lemma json_ok_vertex:
  assumes "gomap_ok (vx_parents v)"
  shows "json_ok max_depth (vertex_json v)"
proof -
  have "members_ok d (map (\<lambda>(k, r). (k, enc_u64 r)) m)" if "\<forall>k\<in>fst ` set m. raw_ok k"
    for d and m :: "(byte list, round) gomap"
    using that by (induction m) auto
  then have parents: "json_ok (Suc d) (enc_parents (string_parents (vx_parents v)))" for d
    by (auto simp: enc_parents_def string_parents_map [OF assms])
  then show ?thesis
    using json_ok_block [of 9997] parents [of 9998]
    by (simp add: vertex_json_def plain_raw max_depth_def split: option.split)
qed

lemma vertex_calculateHash_cached:
  "(\<forall>b\<in>set_option (vx_block v). b_hash b \<noteq> None) \<Longrightarrow> snd (vertex_calculateHash blake v) = v"
  by (cases v) (auto simp: vertex_calculateHash_snd Block_Hash_def split: option.splits)

text \<open>
  Whatever bytes are accepted, the vertex is well formed: the hash and the hash of its block
  are recomputed from the contents, never taken from the sender.
\<close>

lemma hash_parents_ok: "hash_parents ms ps = Some qs \<Longrightarrow> gomap_ok ps \<Longrightarrow> gomap_ok qs"
  unfolding hash_parents_def
  by (induction ms arbitrary: ps) (auto split: option.splits)

lemma fill_vertex_eq:
  "fill_vertex blake now v vj ow ps =
     (let v1 = \<lparr>vx_hash = vj_hash vj, vx_owner = copy32 (vx_owner v) ow,
                vx_block = map_option (\<lambda>b. NewBlock blake now (b_height b) (b_transactions b)) (vj_block vj),
                vx_parents = ps, vx_round = vj_round vj, vx_wave = vj_wave vj,
                vx_timestamp = vj_timestamp vj\<rparr>
      in v1\<lparr>vx_hash := array32 (blake (vertex_hash_input v1 (vertex_block_hash blake v1)))\<rparr>)"
proof -
  define v1 where "v1 = \<lparr>vx_hash = vj_hash vj, vx_owner = copy32 (vx_owner v) ow,
                   vx_block = map_option (\<lambda>b. NewBlock blake now (b_height b) (b_transactions b)) (vj_block vj),
                   vx_parents = ps, vx_round = vj_round vj, vx_wave = vj_wave vj,
                   vx_timestamp = vj_timestamp vj\<rparr>"
  have "snd (vertex_calculateHash blake v1) = v1"
    by (rule vertex_calculateHash_cached) (auto simp: v1_def)
  then show ?thesis
    unfolding fill_vertex_def Let_def v1_def [symmetric] fst_vertex_calculateHash [symmetric]
    by (auto split: prod.splits)
qed

lemma fill_vertex_simps [simp]:
  "vx_owner (fill_vertex blake now v vj ow ps) = copy32 (vx_owner v) ow"
  "vx_block (fill_vertex blake now v vj ow ps)
     = map_option (\<lambda>b. NewBlock blake now (b_height b) (b_transactions b)) (vj_block vj)"
  "vx_parents (fill_vertex blake now v vj ow ps) = ps"
  "vx_round (fill_vertex blake now v vj ow ps) = vj_round vj"
  "vx_wave (fill_vertex blake now v vj ow ps) = vj_wave vj"
  "vx_timestamp (fill_vertex blake now v vj ow ps) = vj_timestamp vj"
  by (simp_all add: fill_vertex_eq Let_def)

lemma fill_vertex_hash:
  "vx_hash (fill_vertex blake now v vj ow ps)
     = array32 (blake (vertex_hash_input (fill_vertex blake now v vj ow ps)
                         (vertex_block_hash blake (fill_vertex blake now v vj ow ps))))"
proof -
  obtain w where "fill_vertex blake now v vj ow ps
      = w\<lparr>vx_hash := array32 (blake (vertex_hash_input w (vertex_block_hash blake w)))\<rparr>"
    unfolding fill_vertex_eq Let_def by blast
  then show ?thesis by simp
qed

lemma Vertex_UnmarshalBinary_well_formed:
  assumes "Vertex_UnmarshalBinary blake now it data v = Some v'" and "gomap_ok (vx_parents v)"
  shows "vertex_ok blake v'"
proof -
  obtain vj ow parents where parents: "hash_parents (it (vj_parents vj)) (vx_parents v) = Some parents"
    and v': "v' = fill_vertex blake now v vj ow parents"
    using assms(1) unfolding Vertex_UnmarshalBinary_def by (auto split: option.splits if_splits)
  have "gomap_ok parents" using hash_parents_ok [OF parents assms(2)] .
  then show ?thesis
    using fill_vertex_hash unfolding v' vertex_ok_def fst_vertex_calculateHash
    by (auto split: option.split)
qed

lemma Vertex_wire:
  assumes "times_ok v" and "gomap_ok (vx_parents v)" and "iteration it"
  shows "\<exists>data v'. Vertex_MarshalBinary v = Some data
     \<and> Vertex_UnmarshalBinary blake now it data zero_vertex = Some v'
     \<and> vx_owner v' = vx_owner v \<and> vx_round v' = vx_round v \<and> vx_wave v' = vx_wave v
     \<and> vx_timestamp v' = vx_timestamp v \<and> map_of (vx_parents v') = map_of (vx_parents v)
     \<and> vx_block v' = map_option (\<lambda>b. NewBlock blake now (b_height b) (b_transactions b)) (vx_block v)
     \<and> (vertex_ok blake v \<longrightarrow> vx_hash v' = vx_hash v)"
proof -
  let ?data = "print_json (vertex_json v)"
  have marshal: "Vertex_MarshalBinary v = Some ?data"
    using assms(1) time_ok_marshals by (auto simp: Vertex_MarshalBinary_def times_ok_def)
  have parsed: "parse_json ?data = Some (vertex_json v)"
    using json_ok_vertex [OF assms(2)] by (rule parse_print)
  have req: "list_all (\<lambda>f. f \<in> set field_names) required_fields"
    by (simp add: required_fields_def field_names_def)
  have "mset (it (sort_key fst (string_parents (vx_parents v)))) = mset (string_parents (vx_parents v))"
    using assms(3) by (simp add: iteration_def)
  from hash_string_parents [OF assms(2) this] obtain qs where
    qs: "hash_parents (it (sort_key fst (string_parents (vx_parents v)))) [] = Some qs"
    "gomap_ok qs" "map_of qs = map_of (vx_parents v)" by auto
  define vj where "vj = \<lparr>vj_hash = vx_hash v, vj_owner = b64_encode (bytes_of (vx_owner v)),
      vj_block = map_option (\<lambda>b. b\<lparr>b_hash := None\<rparr>) (vx_block v),
      vj_parents = sort_key fst (string_parents (vx_parents v)), vj_round = vx_round v,
      vj_wave = vx_wave v, vj_timestamp = vx_timestamp v\<rparr>"
  let ?v' = "fill_vertex blake now zero_vertex vj (bytes_of (vx_owner v)) qs"
  have un: "Vertex_UnmarshalBinary blake now it ?data zero_vertex = Some ?v'"
    using parsed raw_keys_enc req dec_vertex_enc [OF assms(1,2)] qs(1)
    by (simp add: Vertex_UnmarshalBinary_def vj_def zero_vertex_def)
  have block: "vx_block ?v' = map_option (\<lambda>b. NewBlock blake now (b_height b) (b_transactions b)) (vx_block v)"
    by (simp add: vj_def option.map_comp comp_def)
  have fields: "vx_owner ?v' = vx_owner v" "vx_round ?v' = vx_round v" "vx_wave ?v' = vx_wave v"
    "vx_timestamp ?v' = vx_timestamp v" "map_of (vx_parents ?v') = map_of (vx_parents v)"
    using qs(3) by (simp_all add: vj_def)
  have "vx_hash ?v' = vx_hash v" if ok: "vertex_ok blake v"
  proof -
    have "vertex_block_hash blake ?v' = vertex_block_hash blake v"
      using ok block by (auto simp: vertex_block_hash_def vertex_ok_def block_ok_def Block_Hash_def
          block_calculateHash_def block_hash_input_def Let_def split: option.splits)
    moreover have "vertex_hash_input ?v' bh = vertex_hash_input v bh" for bh
      using vertex_hash_input_eq_iff [of ?v' v bh bh] fields qs(2) assms(2) by simp
    ultimately show ?thesis
      using ok unfolding fill_vertex_hash [of blake now zero_vertex vj] by (simp add: vertex_ok_def fst_vertex_calculateHash)
  qed
  then show ?thesis
    using marshal un fields block by (intro exI [of _ ?data] exI [of _ ?v']) simp
qed

text \<open>
  C12. Whatever bytes arrive, a vertex that UnmarshalBinary accepts is well formed: its
  parents are a map, its block hash is that of the block and its hash that of its
  contents, so a sender cannot choose the hash.
\<close>

theorem Vertex_UnmarshalBinary_ok:
  assumes "Vertex_UnmarshalBinary blake now it data v = Some v'" and "gomap_ok (vx_parents v)"
  shows "vertex_ok blake v'"
  using assms by (rule Vertex_UnmarshalBinary_well_formed)

text \<open>
  C11. A vertex with printable times that is marshalled and unmarshalled keeps its owner,
  round, wave, timestamp and parents, its block but for a fresh block timestamp, and its
  hash if that was right.
\<close>

theorem Vertex_round_trip:
  assumes "times_ok v" and "gomap_ok (vx_parents v)" and "iteration it"
  shows "\<exists>data v'. Vertex_MarshalBinary v = Some data
     \<and> Vertex_UnmarshalBinary blake now it data zero_vertex = Some v'
     \<and> vx_owner v' = vx_owner v \<and> vx_round v' = vx_round v \<and> vx_wave v' = vx_wave v
     \<and> vx_timestamp v' = vx_timestamp v \<and> map_of (vx_parents v') = map_of (vx_parents v)
     \<and> vx_block v' = map_option (\<lambda>b. NewBlock blake now (b_height b) (b_transactions b)) (vx_block v)
     \<and> (vertex_ok blake v \<longrightarrow> vx_hash v' = vx_hash v)"
  using assms by (rule Vertex_wire)

lemma time_ok_zero [simp]: "time_ok zero_time"
  by (simp add: time_ok_def zero_time_def days_in_def)

lemma times_ok_NewVertex [simp]: "times_ok (NewVertex (\<lambda>x. x) zero_time ow r None ps)"
  by (simp add: times_ok_def NewVertex_def vertex_calculateHash_def Let_def)

theorem Vertex_round_trip_witness:
  "\<exists>data v'. Vertex_MarshalBinary (NewVertex (\<lambda>x. x) zero_time zero32 5 None [(array32 [7], 4)]) = Some data
     \<and> Vertex_UnmarshalBinary (\<lambda>x. x) zero_time rev data zero_vertex = Some v'
     \<and> vx_round v' = 5 \<and> map_of (vx_parents v') = [array32 [7] \<mapsto> 4]"
  using Vertex_round_trip
    [of "NewVertex (\<lambda>x. x) zero_time zero32 5 None [(array32 [7], 4)]" rev "\<lambda>x. x" zero_time]
  by auto

theorem Vertex_UnmarshalBinary_ok_witness:
  "\<exists>data v'. Vertex_UnmarshalBinary (\<lambda>x. x) zero_time rev data zero_vertex = Some v'
     \<and> vx_round v' = 5 \<and> vertex_ok (\<lambda>x. x) v'"
proof -
  obtain data v' where un: "Vertex_UnmarshalBinary (\<lambda>x. x) zero_time rev data zero_vertex = Some v'"
    and r: "vx_round v' = 5"
    using Vertex_wire [of "NewVertex (\<lambda>x. x) zero_time zero32 5 None []" rev "\<lambda>x. x" zero_time]
    by auto
  have "gomap_ok (vx_parents zero_vertex)" by (simp add: zero_vertex_def)
  from Vertex_UnmarshalBinary_ok [OF un this] show ?thesis using un r by blast
qed

theorem Block_round_trip_witness:
  "\<exists>data. Block_MarshalBinary (NewBlock (\<lambda>x. x) zero_time 9 (Some [[1, 2], []])) = Some data
     \<and> (\<exists>b. Block_UnmarshalBinary (\<lambda>x. x) data zero_block = Some b
          \<and> b_height b = 9 \<and> b_transactions b = Some [[1, 2], []])"
  using Block_round_trip [of "NewBlock (\<lambda>x. x) zero_time 9 (Some [[1, 2], []])" "\<lambda>x. x"] by auto

text \<open>
  The block decoder takes any object, also the empty one: a block of height 0 without
  transactions.
\<close>

theorem any_object_is_a_block:
  "Block_UnmarshalBinary blake (str ''{}'') zero_block
     = Some (zero_block\<lparr>b_hash := Some (block_calculateHash blake zero_block)\<rparr>)"
proof -
  have "parse_json (print_json (JObj [])) = Some (JObj [])"
    by (rule parse_print) (simp add: max_depth_def)
  moreover have "print_json (JObj []) = str ''{}''" by (simp add: str_def)
  ultimately show ?thesis by (simp add: Block_UnmarshalBinary_def dec_block_def)
qed

text \<open>
  Two keys of the parents map can decode to the same hash (base64 ignores the unused bits of
  the last character); which round is kept then depends on the order of the iteration.
\<close>

theorem parents_order_matters:
  "hash_parents [(str ''AA=='', 1), (str ''AB=='', 2)] [] \<noteq> hash_parents [(str ''AB=='', 2), (str ''AA=='', 1)] []"
proof -
  have "b64_decode (str ''AA=='') = Some [0]" and "b64_decode (str ''AB=='') = Some [0]"
    by (simp_all add: b64_decode_def b64_val_def str_def b64_byte1_def Let_def)
  then show ?thesis by (simp add: hash_parents_def)
qed

end
