(* ===== verification/Vertex_Coordinator.thy ===== *)
theory Vertex_Coordinator
  imports Network_Sender Model_Json
begin

text \<open>
  pkg/vertex/vertex.go: the coordinator that broadcasts the node's vertices and takes in
  those of the others.

  The message handlers of the receivers run concurrently with everything else; each
  definition is one step between which others can run.  A handler that waits for room in a
  channel is \<open>Waits\<close>.  The context is cancelled once and for all (\<open>vc_done\<close>).
\<close>

record vertex_coordinator =
  vc_nodeID :: node_id
  vc_committee :: committee
  vc_receiver :: "receiver option"
  vc_sender :: "sender option"
  vc_vertexCh :: "vertex chan"
  vc_broadcastCh :: "vertex chan"
  vc_done :: bool

definition VC_New :: "node_id \<Rightarrow> committee \<Rightarrow> vertex_coordinator" where
  "VC_New nodeID com =
     \<lparr>vc_nodeID = nodeID, vc_committee = com, vc_receiver = None, vc_sender = None,
      vc_vertexCh = make_chan 100, vc_broadcastCh = make_chan 100, vc_done = False\<rparr>"

datatype start_error = NoAddress | ListenFailed

text \<open>
  \<open>Start\<close>: the error it returns, if any.  After a failed listen the receiver is set, but
  not the sender.
\<close>

definition VC_Start :: "bool \<Rightarrow> vertex_coordinator \<Rightarrow> start_error option \<times> vertex_coordinator" where
  "VC_Start listen_ok c =
     (case GetVertexReceiverAddress (vc_committee c) (vc_nodeID c) of
        None \<Rightarrow> (Some NoAddress, c)
      | Some addr \<Rightarrow>
          (case Receiver_Start listen_ok (NewReceiver addr) of
             (False, r) \<Rightarrow> (Some ListenFailed, c\<lparr>vc_receiver := Some r\<rparr>)
           | (True, r) \<Rightarrow> (None, c\<lparr>vc_receiver := Some r, vc_sender := Some NewSender\<rparr>)))"

text \<open>
  \<open>Stop\<close>: whether it returns, and the state when it does or waits for the receiver.
\<close>

definition VC_Stop :: "stop_env \<Rightarrow> vertex_coordinator \<Rightarrow> bool \<times> vertex_coordinator" where
  "VC_Stop env c =
     (let c = c\<lparr>vc_done := True\<rparr>
      in if stop_receiver env (vc_receiver c)
         then (True, c\<lparr>vc_sender := map_option Sender_Close (vc_sender c)\<rparr>) else (False, c))"

text \<open>
  One turn of \<open>handleBroadcast\<close> that takes a vertex: the vertex is marshalled and sent to
  every receiver address, the node's own included.  \<open>jobs\<close> is the order of the goroutines
  of \<open>Broadcast\<close> with the answers of the network.  An error is only logged.
\<close>

definition broadcast_turn ::
  "validator_order \<Rightarrow> (net_addr \<times> net_env) list \<Rightarrow> vertex_coordinator \<Rightarrow> vertex_coordinator option" where
  "broadcast_turn it jobs c =
     (case chan_recv (vc_broadcastCh c) of
        None \<Rightarrow> None
      | Some (v, ch) \<Rightarrow>
          (let c1 = c\<lparr>vc_broadcastCh := ch\<rparr>
           in case Vertex_MarshalBinary v of
                None \<Rightarrow> Some c1
              | Some data \<Rightarrow>
                  (case vc_sender c1 of
                     None \<Rightarrow> None
                   | Some s \<Rightarrow>
                       (case Broadcast (GetVertexReceiverAddresses it (vc_committee c1)) data jobs s of
                          None \<Rightarrow> None
                        | Some (errs, s') \<Rightarrow> Some (c1\<lparr>vc_sender := Some s'\<rparr>)))))"

text \<open>
  The message handler.  When there is room and the context is done, \<open>select\<close> may take either
  case: \<open>pick\<close> says which.
\<close>

datatype handled = Taken | Rejected | Cancelled | Waits

definition VC_HandleMessage ::
  "(byte list \<Rightarrow> byte list) \<Rightarrow> gotime \<Rightarrow> ((byte list, round) gomap \<Rightarrow> (byte list, round) gomap)
   \<Rightarrow> bool \<Rightarrow> byte list \<Rightarrow> vertex_coordinator \<Rightarrow> handled \<times> vertex_coordinator" where
  "VC_HandleMessage blake now it pick data c =
     (case Vertex_UnmarshalBinary blake now it data zero_vertex of
        None \<Rightarrow> (Rejected, c)
      | Some v \<Rightarrow>
          (case chan_send (vc_vertexCh c) v of
             Some ch \<Rightarrow>
               if vc_done c \<and> \<not> pick then (Cancelled, c) else (Taken, c\<lparr>vc_vertexCh := ch\<rparr>)
           | None \<Rightarrow> if vc_done c then (Cancelled, c) else (Waits, c)))"

section \<open>From one coordinator to the other\<close>

text \<open>
  A well-formed vertex that one node marshals is taken by the vertex handler of
  another node with room in its channel, as a well-formed vertex with the same hash, round
  and parents.
\<close>

theorem broadcast_vertex_is_handled:
  assumes "times_ok v" and "vertex_ok blake v" and "iteration it"
    and "length (ch_values (vc_vertexCh c)) < ch_cap (vc_vertexCh c)" and "\<not> vc_done c"
  shows "\<exists>data v' c'. Vertex_MarshalBinary v = Some data
     \<and> VC_HandleMessage blake now it pick data c = (Taken, c')
     \<and> ch_values (vc_vertexCh c') = ch_values (vc_vertexCh c) @ [v']
     \<and> vertex_ok blake v' \<and> vx_hash v' = vx_hash v \<and> vx_round v' = vx_round v
     \<and> map_of (vx_parents v') = map_of (vx_parents v)"
proof -
  have parents: "gomap_ok (vx_parents v)" using assms(2) by (simp add: vertex_ok_def)
  obtain data v' where data: "Vertex_MarshalBinary v = Some data"
    and un: "Vertex_UnmarshalBinary blake now it data zero_vertex = Some v'"
    and eq: "vx_hash v' = vx_hash v" "vx_round v' = vx_round v"
      "map_of (vx_parents v') = map_of (vx_parents v)"
    using Vertex_wire [OF assms(1) parents assms(3), of blake now] assms(2) by auto
  have "vertex_ok blake v'"
    by (rule Vertex_UnmarshalBinary_well_formed [OF un]) (simp add: zero_vertex_def)
  then show ?thesis
    using data un eq assms(4,5) by (simp add: VC_HandleMessage_def chan_send_def)
qed

text \<open>
  C26. The vertex handler: a taken message adds one well-formed vertex at the end of the
  channel, a rejected or cancelled one changes nothing, it waits only for a full channel
  before the context is done, and the channel stays within its capacity.
\<close>

theorem VC_HandleMessage_effect:
  assumes "VC_HandleMessage blake now it pick data c = (res, c')"
  shows "(res = Taken \<longrightarrow> (\<exists>v. vc_vertexCh c' = (vc_vertexCh c)\<lparr>ch_values := ch_values (vc_vertexCh c) @ [v]\<rparr>
              \<and> vertex_ok blake v))
     \<and> (res \<noteq> Taken \<longrightarrow> c' = c)
     \<and> (res = Waits \<longrightarrow> \<not> vc_done c \<and> ch_cap (vc_vertexCh c) \<le> length (ch_values (vc_vertexCh c)))
     \<and> (chan_ok (vc_vertexCh c) \<longrightarrow> chan_ok (vc_vertexCh c'))"
proof -
  have "vertex_ok blake v" if "Vertex_UnmarshalBinary blake now it data zero_vertex = Some v" for v
    by (rule Vertex_UnmarshalBinary_well_formed [OF that]) (simp add: zero_vertex_def)
  then show ?thesis
    using assms by (auto simp: VC_HandleMessage_def chan_send_def chan_ok_def split: option.splits if_splits)
qed

section \<open>Messages that are too large\<close>

lemma length_b64_encode: "length bs \<le> length (b64_encode bs)"
  by (induction bs rule: b64_encode.induct) auto

lemma length_print_elems:
  "tx \<in> set ts \<Longrightarrow> length tx \<le> length (print_elems (map (\<lambda>tx. JStr (b64_encode tx)) ts))"
proof (induction ts)
  case (Cons t ts)
  show ?case
  proof (cases "tx = t")
    case True
    then show ?thesis using length_b64_encode [of tx] by (cases ts) auto
  next
    case False
    then have "tx \<in> set ts" and "ts \<noteq> []" using Cons.prems by auto
    then show ?thesis using Cons.IH by (cases ts) auto
  qed
qed simp

lemma length_Vertex_MarshalBinary:
  assumes "Vertex_MarshalBinary v = Some data" and "vx_block v = Some b" and "tx \<in> set (elems (b_transactions b))"
  shows "length tx \<le> length data"
proof -
  obtain ts where ts: "b_transactions b = Some ts" "tx \<in> set ts"
    using assms(3) by (cases "b_transactions b") auto
  have "length tx \<le> length (print_json (enc_transactions (b_transactions b)))"
    using length_print_elems [OF ts(2)] ts(1) by (simp add: enc_transactions_def)
  then have "length tx \<le> length (print_json (block_json b))" by (simp add: block_json_def)
  then show ?thesis
    using assms(1,2) by (auto simp: Vertex_MarshalBinary_def vertex_json_def split: if_splits)
qed

text \<open>
  A vertex whose block has a transaction above the message limit marshals to a
  message that the receiver does not handle, although the block size allows it; its bytes
  are parsed as messages.
\<close>

theorem large_vertex_is_not_delivered:
  assumes "Vertex_MarshalBinary v = Some data" and "vx_block v = Some b"
    and "tx \<in> set (elems (b_transactions b))"
    and "MaxMessageSize < length tx" and "length data < 2 ^ 32"
  shows "conn_turn (clean_conn (frame data)) = Continue (clean_conn data)"
proof -
  have big: "MaxMessageSize < length data"
    using length_Vertex_MarshalBinary [OF assms(1-3)] assms(4) by simp
  have len: "unat (of_nat (length data) :: u32) = length data" using assms(5) by (simp add: unat_of_nat)
  have "c_events (clean_conn (frame data)) = map Byte (put_u32 (of_nat (length data))) @ map Byte data"
    by (simp add: clean_conn_def frame_def)
  from conn_turn_header [OF this] show ?thesis using big by (simp add: len clean_conn_def)
qed

section \<open>Instances\<close>

lemma sample_wire:
  "\<exists>data v'. Vertex_MarshalBinary (NewVertex (\<lambda>x. x) zero_time zero32 5 None []) = Some data
     \<and> Vertex_UnmarshalBinary (\<lambda>x. x) zero_time rev data zero_vertex = Some v' \<and> vx_round v' = 5"
  using Vertex_wire [of "NewVertex (\<lambda>x. x) zero_time zero32 5 None []" rev "\<lambda>x. x" zero_time] by auto

lemma VC_New_room: "length (ch_values (vc_vertexCh (VC_New n com))) < ch_cap (vc_vertexCh (VC_New n com))"
  "\<not> vc_done (VC_New n com)"
  by (simp_all add: VC_New_def)

theorem broadcast_vertex_is_handled_witness:
  "\<exists>data c'. VC_HandleMessage (\<lambda>x. x) zero_time rev True data (VC_New 1 \<lparr>Validators = []\<rparr>) = (Taken, c')
     \<and> map vx_round (ch_values (vc_vertexCh c')) = [5]"
proof -
  have "vertex_ok (\<lambda>x. x) (NewVertex (\<lambda>x. x) zero_time zero32 5 None [])" by (simp add: NewVertex_ok)
  from broadcast_vertex_is_handled [OF times_ok_NewVertex this iteration_rev VC_New_room,
      of zero_time True 1 "\<lparr>Validators = []\<rparr>"]
  obtain data v' c' where "VC_HandleMessage (\<lambda>x. x) zero_time rev True data (VC_New 1 \<lparr>Validators = []\<rparr>) = (Taken, c')"
    and "ch_values (vc_vertexCh c') = ch_values (vc_vertexCh (VC_New 1 \<lparr>Validators = []\<rparr>)) @ [v']"
    and "vx_round v' = 5"
    by auto
  then show ?thesis by (intro exI [of _ data] exI [of _ c']) (simp add: VC_New_def)
qed

theorem VC_HandleMessage_effect_witness:
  "\<exists>data c'. VC_HandleMessage (\<lambda>x. x) zero_time rev True data (VC_New 1 \<lparr>Validators = []\<rparr>) = (Taken, c')
     \<and> chan_ok (vc_vertexCh c') \<and> (\<exists>v. ch_values (vc_vertexCh c') = [v] \<and> vertex_ok (\<lambda>x. x) v)"
proof -
  obtain data v' where "Vertex_UnmarshalBinary (\<lambda>x. x) zero_time rev data zero_vertex = Some v'"
    using sample_wire by blast
  then have "\<exists>c'. VC_HandleMessage (\<lambda>x. x) zero_time rev True data (VC_New 1 \<lparr>Validators = []\<rparr>) = (Taken, c')"
    by (simp add: VC_HandleMessage_def chan_send_def VC_New_def)
  then obtain c' where run: "VC_HandleMessage (\<lambda>x. x) zero_time rev True data (VC_New 1 \<lparr>Validators = []\<rparr>) = (Taken, c')"
    by blast
  have start: "vc_vertexCh (VC_New 1 \<lparr>Validators = []\<rparr>) = make_chan 100" by (simp add: VC_New_def)
  from VC_HandleMessage_effect [OF run] have
    "\<exists>v. vc_vertexCh c' = (make_chan 100)\<lparr>ch_values := [v]\<rparr> \<and> vertex_ok (\<lambda>x. x) v"
    "chan_ok (vc_vertexCh c')"
    unfolding start by simp_all
  then show ?thesis using run by (intro exI [of _ data] exI [of _ c']) auto
qed

lemma length_b64: "length (b64_encode bs) = 4 * ((length bs + 2) div 3)"
proof (induction bs rule: b64_encode.induct)
  case (4 a b c rest)
  have "(length (a # b # c # rest) + 2) div 3 = (length rest + 2 + 3) div 3" by simp
  also have "\<dots> = Suc ((length rest + 2) div 3)" by (simp only: div_add_self2 zero_neq_numeral not_False_eq_True Suc_eq_plus1)
  finally show ?case using 4 by simp
qed auto

lemma length_rfc3339_zero: "length (rfc3339 zero_time) = 20"
  by (simp add: rfc3339_def zero_time_def fmt_fraction_def fmt_zone_def)

theorem large_vertex_is_not_delivered_witness:
  "\<exists>data. Vertex_MarshalBinary (NewVertex (\<lambda>x. x) zero_time zero32 5
             (Some (NewBlock (\<lambda>x. x) zero_time 0 (Some [replicate 1048577 0]))) []) = Some data
     \<and> conn_turn (clean_conn (frame data)) = Continue (clean_conn data)"
proof -
  have "\<exists>data. Vertex_MarshalBinary (NewVertex (\<lambda>x. x) zero_time zero32 5
             (Some (NewBlock (\<lambda>x. x) zero_time 0 (Some [tx]))) []) = Some data
     \<and> conn_turn (clean_conn (frame data)) = Continue (clean_conn data)"
    if tx: "length tx = 1048577" for tx
  proof -
    let ?b = "NewBlock (\<lambda>x. x) zero_time 0 (Some [tx])"
    let ?v = "NewVertex (\<lambda>x. x) zero_time zero32 5 (Some ?b) []"
    have block: "vx_block ?v = Some ?b"
      by (simp add: NewVertex_def vertex_calculateHash_def Let_def)
    have data: "Vertex_MarshalBinary ?v = Some (print_json (vertex_json ?v))"
      using time_ok_marshals [OF time_ok_zero] by (simp add: Vertex_MarshalBinary_def block)
    have "length (print_json (vertex_json ?v)) < 2 ^ 32"
      by (simp add: vertex_json_def block block_json_def enc_transactions_def enc_parents_def enc_u64_def
          string_parents_def length_b64 tx length_rfc3339_zero dec_digits.simps)
    from large_vertex_is_not_delivered [OF data block _ _ this, of tx] show ?thesis
      using tx data by (simp add: MaxMessageSize_def)
  qed
  then show ?thesis by (simp only: length_replicate)
qed

end
