(* ===== verification/Consensus_Coordinator.thy ===== *)
theory Consensus_Coordinator
  imports Consensus_Dag Vertex_Coordinator
begin

text \<open>
  pkg/consensus/consensus.go: the coordinator of the consensus.  Its one goroutine takes
  vertices and blocks from two channels; the handlers of other goroutines only put them
  there.  A definition per step; \<open>Waits\<close> is a call that waits for room in a channel until
  the context is cancelled.
\<close>

section \<open>State\<close>

record coordinator =
  cc_nodeID :: node_id
  cc_committee :: committee
  cc_receiver :: "receiver option"
  cc_sender :: "sender option"
  cc_vertexCh :: "vertex chan"
  cc_blockCh :: "block chan"
  cc_broadcastCh :: "vertex chan"
  cc_outputCh :: "vertex chan"
  cc_done :: bool
  cc_dag :: dag
  cc_round :: round
  cc_lastBlock :: "block_hash option"

text \<open>
  \<open>NewWithRound\<close>; without a key for the node it ends the process (\<open>None\<close>).
  \<open>now1\<close> and \<open>now2\<close> are the clock readings of the genesis block and vertex.
\<close>

definition NewWithRound ::
  "(byte list \<Rightarrow> byte list) \<Rightarrow> gotime \<Rightarrow> gotime \<Rightarrow> node_id \<Rightarrow> committee \<Rightarrow> round \<Rightarrow> coordinator option" where
  "NewWithRound blake now1 now2 nodeID com initialRound =
     (case GetNodeKey com nodeID of
        None \<Rightarrow> None
      | Some nodeKey \<Rightarrow>
          (let g = NewVertex blake now2 nodeKey 0 (Some (NewBlock blake now1 0 None)) []
           in Some \<lparr>cc_nodeID = nodeID, cc_committee = com, cc_receiver = None, cc_sender = None,
                    cc_vertexCh = make_chan 1000, cc_blockCh = make_chan 1000,
                    cc_broadcastCh = make_chan 1000, cc_outputCh = make_chan 1000,
                    cc_done = False, cc_dag = NewDAG g, cc_round = initialRound,
                    cc_lastBlock = None\<rparr>))"

definition CC_New ::
  "(byte list \<Rightarrow> byte list) \<Rightarrow> gotime \<Rightarrow> gotime \<Rightarrow> node_id \<Rightarrow> committee \<Rightarrow> coordinator option" where
  "CC_New blake now1 now2 nodeID com = NewWithRound blake now1 now2 nodeID com 0"

text \<open>Here the sender is made before the receiver starts.\<close>

definition CC_Start :: "bool \<Rightarrow> coordinator \<Rightarrow> start_error option \<times> coordinator" where
  "CC_Start listen_ok c =
     (case GetNodeAddress (cc_committee c) (cc_nodeID c) of
        None \<Rightarrow> (Some NoAddress, c)
      | Some addr \<Rightarrow>
          (case Receiver_Start listen_ok (NewReceiver addr) of
             (ok, r) \<Rightarrow> (if ok then None else Some ListenFailed,
                         c\<lparr>cc_receiver := Some r, cc_sender := Some NewSender\<rparr>)))"

text \<open>
  \<open>Stop\<close>: whether it returns, and the state when it does or waits for the receiver.
\<close>

definition CC_Stop :: "stop_env \<Rightarrow> coordinator \<Rightarrow> bool \<times> coordinator" where
  "CC_Stop env c =
     (let c = c\<lparr>cc_done := True\<rparr>
      in if stop_receiver env (cc_receiver c)
         then (True, c\<lparr>cc_sender := map_option Sender_Close (cc_sender c)\<rparr>) else (False, c))"

section \<open>Taking in vertices and blocks\<close>

definition CC_HandleVertex :: "vertex \<Rightarrow> coordinator \<Rightarrow> handled \<times> coordinator" where
  "CC_HandleVertex v c =
     (if cc_done c then (Cancelled, c)
      else case chan_send (cc_vertexCh c) v of
             Some ch \<Rightarrow> (Taken, c\<lparr>cc_vertexCh := ch\<rparr>)
           | None \<Rightarrow> (Waits, c))"

text \<open>The log line computes the hash of the block, which caches it in the block.\<close>

definition CC_HandleBlock :: "(byte list \<Rightarrow> byte list) \<Rightarrow> block \<Rightarrow> coordinator \<Rightarrow> handled \<times> coordinator" where
  "CC_HandleBlock blake b c =
     (if cc_done c then (Cancelled, c)
      else let b' = snd (Block_Hash blake b)
           in case chan_send (cc_blockCh c) b' of
                Some ch \<Rightarrow> (Taken, c\<lparr>cc_blockCh := ch\<rparr>)
              | None \<Rightarrow> (Waits, c))"

text \<open>A network message is a vertex if it decodes as one, else a block if it decodes as one.\<close>

definition CC_HandleMessage ::
  "(byte list \<Rightarrow> byte list) \<Rightarrow> gotime \<Rightarrow> ((byte list, round) gomap \<Rightarrow> (byte list, round) gomap)
   \<Rightarrow> byte list \<Rightarrow> coordinator \<Rightarrow> handled \<times> coordinator" where
  "CC_HandleMessage blake now it data c =
     (case Vertex_UnmarshalBinary blake now it data zero_vertex of
        Some v \<Rightarrow> CC_HandleVertex v c
      | None \<Rightarrow>
          (case Block_UnmarshalBinary blake data zero_block of
             Some b \<Rightarrow> CC_HandleBlock blake b c
           | None \<Rightarrow> (Rejected, c)))"

section \<open>Processing\<close>

text \<open>\<open>Send\<close> to one address after the other; errors are logged.  \<open>envs i\<close> are the answers for the \<open>i\<close>-th.\<close>

definition send_all :: "net_addr list \<Rightarrow> byte list \<Rightarrow> (nat \<Rightarrow> net_env) \<Rightarrow> sender \<Rightarrow> sender" where
  "send_all addresses data envs s =
     fold (\<lambda>(i, addr) s. snd (Send addr data (envs i) s)) (enumerate 0 addresses) s"

text \<open>
  \<open>handleVertex\<close>: \<open>Err\<close> is a returned error, \<open>Panic\<close> the nil sender of a
  coordinator that was not started.
\<close>

definition handleVertex ::
  "(byte list \<Rightarrow> byte list) \<Rightarrow> gotime \<Rightarrow> vertex_order \<Rightarrow> validator_order \<Rightarrow> (nat \<Rightarrow> net_env)
   \<Rightarrow> vertex \<Rightarrow> coordinator \<Rightarrow> (coordinator, coordinator) outcome" where
  "handleVertex blake now it vit envs v c =
     (let c1 = c\<lparr>cc_dag := InsertVertex (cc_dag c) v\<rparr>;
          vs = elems (GetVerticesInRound it (cc_dag c1) (cc_round c1))
      in if length vs \<ge> Size (cc_committee c1) then
           (let block = NewBlock blake now (cc_round c1) None;
                (hash, block') = Block_Hash blake block;
                c2 = c1\<lparr>cc_lastBlock := Some hash\<rparr>
            in case Block_MarshalBinary block' of
                 None \<Rightarrow> Err c2
               | Some data \<Rightarrow>
                   (let addresses = GetBlockReceiverAddresses vit (cc_committee c2)
                    in case cc_sender c2 of
                         None \<Rightarrow> if addresses = [] then Ok (c2\<lparr>cc_round := cc_round c2 + 1\<rparr>) else Panic
                       | Some s \<Rightarrow>
                           Ok (c2\<lparr>cc_sender := Some (send_all addresses data envs s),
                                  cc_round := cc_round c2 + 1\<rparr>)))
         else Ok c1)"

definition handleBlock :: "(byte list \<Rightarrow> byte list) \<Rightarrow> block \<Rightarrow> coordinator \<Rightarrow> coordinator" where
  "handleBlock blake b c =
     (let c1 = c\<lparr>cc_lastBlock := Some (fst (Block_Hash blake b))\<rparr>
      in if b_height b \<ge> cc_round c1 then c1\<lparr>cc_round := b_height b\<rparr> else c1)"

text \<open>
  One turn of \<open>run\<close>.  An error is logged and dropped, so the loop goes on with the state;
  \<open>None\<close> when the chosen channel is empty, or on a panic.
\<close>

datatype choice = FromVertexCh | FromBlockCh

definition run_turn ::
  "(byte list \<Rightarrow> byte list) \<Rightarrow> gotime \<Rightarrow> vertex_order \<Rightarrow> validator_order \<Rightarrow> (nat \<Rightarrow> net_env)
   \<Rightarrow> choice \<Rightarrow> coordinator \<Rightarrow> coordinator option" where
  "run_turn blake now it vit envs ch c =
     (case ch of
        FromVertexCh \<Rightarrow>
          (case chan_recv (cc_vertexCh c) of
             None \<Rightarrow> None
           | Some (v, vch) \<Rightarrow>
               (case handleVertex blake now it vit envs v (c\<lparr>cc_vertexCh := vch\<rparr>) of
                  Ok c' \<Rightarrow> Some c' | Err c' \<Rightarrow> Some c' | Panic \<Rightarrow> None))
      | FromBlockCh \<Rightarrow>
          (case chan_recv (cc_blockCh c) of
             None \<Rightarrow> None
           | Some (b, bch) \<Rightarrow> Some (handleBlock blake b (c\<lparr>cc_blockCh := bch\<rparr>))))"

section \<open>What a step does\<close>

lemma handleVertex_frame:
  assumes "handleVertex blake now it vit envs v c = Ok c' \<or> handleVertex blake now it vit envs v c = Err c'"
  shows "cc_dag c' = InsertVertex (cc_dag c) v" and "cc_vertexCh c' = cc_vertexCh c"
    and "cc_blockCh c' = cc_blockCh c" and "cc_broadcastCh c' = cc_broadcastCh c"
    and "cc_outputCh c' = cc_outputCh c" and "cc_committee c' = cc_committee c"
    and "cc_nodeID c' = cc_nodeID c" and "cc_done c' = cc_done c"
  using assms
  by (auto simp: handleVertex_def Let_def split: if_splits prod.splits option.splits)

lemma Block_Hash_NewBlock: "Block_Hash blake (NewBlock blake now h txs)
    = (block_calculateHash blake (NewBlock blake now h txs), NewBlock blake now h txs)"
  by (simp add: Block_Hash_def block_calculateHash_def block_hash_input_def)

lemma GetVerticesInRound_length:
  "iteration it \<Longrightarrow> length (elems (GetVerticesInRound it d r)) = GetVertexCountInRound d r"
  by (simp add: GetVerticesInRound_def GetVertexCountInRound_def iteration_length split: option.split)

text \<open>
  \<open>handleVertex\<close> with a sender and a clock that can be printed: the vertex is stored; when the
  current round then has as many vertices as the committee has members, the block of the
  round is made, sent and becomes the last block, and the round ends.
\<close>

lemma handleVertex_result:
  assumes "iteration it" and "time_ok now" and "cc_sender c = Some s"
  shows "let d = InsertVertex (cc_dag c) v;
             b = NewBlock blake now (cc_round c) None
         in \<exists>data. Block_MarshalBinary b = Some data
           \<and> handleVertex blake now it vit envs v c =
               Ok (if Size (cc_committee c) \<le> GetVertexCountInRound d (cc_round c)
                   then c\<lparr>cc_dag := d, cc_round := cc_round c + 1,
                          cc_lastBlock := Some (block_calculateHash blake b),
                          cc_sender := Some (send_all (GetBlockReceiverAddresses vit (cc_committee c)) data envs s)\<rparr>
                   else c\<lparr>cc_dag := d\<rparr>)"
proof -
  have "Block_MarshalBinary (NewBlock blake now (cc_round c) None) \<noteq> None"
    using time_ok_marshals [OF assms(2)] by (simp add: Block_MarshalBinary_def)
  then obtain data where data: "Block_MarshalBinary (NewBlock blake now (cc_round c) None) = Some data"
    by auto
  show ?thesis
    using data assms(3) GetVerticesInRound_length [OF assms(1)]
    by (auto simp: handleVertex_def Let_def Block_Hash_NewBlock simp del: b_hash_NewBlock)
qed

text \<open>
  C9. The consensus coordinator stores a handled vertex; when the current round then has
  as many vertices as the committee has members it makes the block of the round, sends it
  to every block address, remembers its hash and goes to the next round, and otherwise
  nothing. Nothing else of its state changes in either case.
\<close>

theorem handleVertex_spec:
  assumes "iteration it" and "time_ok now" and "cc_sender c = Some s"
  shows "let d = InsertVertex (cc_dag c) v;
             b = NewBlock blake now (cc_round c) None
         in \<exists>data. Block_MarshalBinary b = Some data
           \<and> handleVertex blake now it vit envs v c =
               Ok (if Size (cc_committee c) \<le> GetVertexCountInRound d (cc_round c)
                   then c\<lparr>cc_dag := d, cc_round := cc_round c + 1,
                          cc_lastBlock := Some (block_calculateHash blake b),
                          cc_sender := Some (send_all (GetBlockReceiverAddresses vit (cc_committee c)) data envs s)\<rparr>
                   else c\<lparr>cc_dag := d\<rparr>)"
  using assms by (rule handleVertex_result)

lemma handleBlock_simps [simp]:
  "cc_round (handleBlock blake b c) = (if cc_round c \<le> b_height b then b_height b else cc_round c)"
  "cc_lastBlock (handleBlock blake b c) = Some (fst (Block_Hash blake b))"
  "cc_dag (handleBlock blake b c) = cc_dag c" "cc_vertexCh (handleBlock blake b c) = cc_vertexCh c"
  "cc_blockCh (handleBlock blake b c) = cc_blockCh c" "cc_broadcastCh (handleBlock blake b c) = cc_broadcastCh c"
  "cc_outputCh (handleBlock blake b c) = cc_outputCh c" "cc_committee (handleBlock blake b c) = cc_committee c"
  "cc_done (handleBlock blake b c) = cc_done c"
  by (simp_all add: handleBlock_def Let_def)

section \<open>All runs of the coordinator\<close>

text \<open>
  Messages from the network, calls of the node, turns of the loop, the node's readers of the
  two outgoing channels, and the end.
\<close>

inductive cc_step :: "(byte list \<Rightarrow> byte list) \<Rightarrow> coordinator \<Rightarrow> coordinator \<Rightarrow> bool"
  for blake :: "byte list \<Rightarrow> byte list" where
  cc_message: "CC_HandleMessage blake now it data c = (res, c') \<Longrightarrow> cc_step blake c c'"
| cc_vertex: "CC_HandleVertex v c = (res, c') \<Longrightarrow> vertex_ok blake v \<Longrightarrow> cc_step blake c c'"
| cc_block: "CC_HandleBlock blake b c = (res, c') \<Longrightarrow> cc_step blake c c'"
| cc_turn: "run_turn blake now it vit envs ch c = Some c' \<Longrightarrow> cc_step blake c c'"
| cc_broadcast: "chan_recv (cc_broadcastCh c) = Some (v, ch) \<Longrightarrow> cc_step blake c (c\<lparr>cc_broadcastCh := ch\<rparr>)"
| cc_output: "chan_recv (cc_outputCh c) = Some (v, ch) \<Longrightarrow> cc_step blake c (c\<lparr>cc_outputCh := ch\<rparr>)"
| cc_start: "CC_Start listen_ok c = (err, c') \<Longrightarrow> cc_step blake c c'"
| cc_stop: "cc_step blake c (snd (CC_Stop env c))"

inductive_cases cc_stepE: "cc_step blake c c'"

definition cc_init :: "(byte list \<Rightarrow> byte list) \<Rightarrow> coordinator \<Rightarrow> bool" where
  "cc_init blake c \<longleftrightarrow> (\<exists>now1 now2 nodeID com r. NewWithRound blake now1 now2 nodeID com r = Some c)"

text \<open>
  The graph is well formed, no channel holds more than its capacity, and the two outgoing
  channels are empty: nothing is ever committed or given to the vertex coordinator.
\<close>

definition cc_ok :: "(byte list \<Rightarrow> byte list) \<Rightarrow> coordinator \<Rightarrow> bool" where
  "cc_ok blake c \<longleftrightarrow> dag_ok (cc_dag c) \<and> dag_all (vertex_ok blake) (cc_dag c)
     \<and> chan_all (vertex_ok blake) (cc_vertexCh c)
     \<and> chan_ok (cc_vertexCh c) \<and> ch_cap (cc_vertexCh c) = 1000
     \<and> chan_ok (cc_blockCh c) \<and> ch_cap (cc_blockCh c) = 1000
     \<and> ch_values (cc_broadcastCh c) = [] \<and> ch_values (cc_outputCh c) = []"

lemma cc_ok_new: "cc_init blake c \<Longrightarrow> cc_ok blake c"
  by (auto simp: cc_init_def NewWithRound_def cc_ok_def Let_def
      intro!: dag_ok_NewDAG dag_all_NewDAG NewVertex_ok split: option.splits)

lemma cc_ok_HandleVertex:
  "CC_HandleVertex v c = (res, c') \<Longrightarrow> vertex_ok blake v \<Longrightarrow> cc_ok blake c \<Longrightarrow> cc_ok blake c'"
  using chan_ok_send [of "cc_vertexCh c" v] chan.capacity_put [of "cc_vertexCh c" v]
    chan_all_send [of "vertex_ok blake" "cc_vertexCh c" v]
  by (auto simp: CC_HandleVertex_def cc_ok_def split: if_splits option.splits)

lemma cc_ok_HandleBlock: "CC_HandleBlock blake b c = (res, c') \<Longrightarrow> cc_ok blake c \<Longrightarrow> cc_ok blake c'"
  using chan_ok_send [of "cc_blockCh c" "snd (Block_Hash blake b)"]
    chan.capacity_put [of "cc_blockCh c" "snd (Block_Hash blake b)"]
  by (auto simp: CC_HandleBlock_def cc_ok_def Let_def split: if_splits option.splits)

lemma cc_ok_HandleMessage: "CC_HandleMessage blake now it data c = (res, c') \<Longrightarrow> cc_ok blake c \<Longrightarrow> cc_ok blake c'"
  using cc_ok_HandleVertex cc_ok_HandleBlock Vertex_UnmarshalBinary_well_formed [of blake now it data zero_vertex]
  by (fastforce simp: CC_HandleMessage_def zero_vertex_def split: option.splits)

lemma cc_ok_handleVertex:
  assumes "handleVertex blake now it vit envs v c = Ok c' \<or> handleVertex blake now it vit envs v c = Err c'"
    and "cc_ok blake c" and "vertex_ok blake v"
  shows "cc_ok blake c'"
  using handleVertex_frame [OF assms(1)] assms(2,3)
  by (simp add: cc_ok_def dag_ok_InsertVertex dag_all_InsertVertex)

lemma run_turn_vertexE:
  assumes "run_turn blake now it vit envs FromVertexCh c = Some c'"
  obtains v vch where "chan_recv (cc_vertexCh c) = Some (v, vch)"
    "handleVertex blake now it vit envs v (c\<lparr>cc_vertexCh := vch\<rparr>) = Ok c'
      \<or> handleVertex blake now it vit envs v (c\<lparr>cc_vertexCh := vch\<rparr>) = Err c'"
  using assms by (auto simp: run_turn_def split: option.splits outcome.splits)

lemma cc_ok_run_turn:
  assumes run: "run_turn blake now it vit envs ch c = Some c'" and ok: "cc_ok blake c"
  shows "cc_ok blake c'"
proof (cases ch)
  case FromVertexCh
  then obtain v vch where recv: "chan_recv (cc_vertexCh c) = Some (v, vch)"
    and step: "handleVertex blake now it vit envs v (c\<lparr>cc_vertexCh := vch\<rparr>) = Ok c'
      \<or> handleVertex blake now it vit envs v (c\<lparr>cc_vertexCh := vch\<rparr>) = Err c'"
    using run run_turn_vertexE by blast
  have "cc_ok blake (c\<lparr>cc_vertexCh := vch\<rparr>)" and "vertex_ok blake v"
    using ok chan_ok_recv [OF _ recv] chan.capacity_get [OF recv] chan_all_recv [of "vertex_ok blake", OF _ recv]
    by (simp_all add: cc_ok_def)
  then show ?thesis using cc_ok_handleVertex [OF step] by simp
next
  case FromBlockCh
  then obtain b bch where recv: "chan_recv (cc_blockCh c) = Some (b, bch)"
    and c': "c' = handleBlock blake b (c\<lparr>cc_blockCh := bch\<rparr>)"
    using run by (auto simp: run_turn_def split: option.splits)
  show ?thesis
    using ok chan_ok_recv [OF _ recv] chan.capacity_get [OF recv] by (simp add: cc_ok_def c')
qed

lemma cc_ok_frame:
  "CC_Start listen_ok c = (err, c') \<Longrightarrow> cc_ok blake c' = cc_ok blake c" "cc_ok blake (snd (CC_Stop env c)) = cc_ok blake c"
  by (auto simp: CC_Start_def CC_Stop_def Let_def cc_ok_def split: option.splits prod.splits)

lemma cc_ok_silent: "cc_ok blake c \<Longrightarrow> chan_recv (cc_outputCh c) = None" "cc_ok blake c \<Longrightarrow> chan_recv (cc_broadcastCh c) = None"
  using chan.get_None [of "cc_outputCh c"] chan.get_None [of "cc_broadcastCh c"] by (simp_all add: cc_ok_def)

lemma cc_ok_step: "cc_step blake c c' \<Longrightarrow> cc_ok blake c \<Longrightarrow> cc_ok blake c'"
  by (erule cc_stepE)
    (auto simp: cc_ok_frame cc_ok_silent
      intro: cc_ok_HandleMessage cc_ok_HandleVertex cc_ok_HandleBlock cc_ok_run_turn)

interpretation cc_inv: inductive_invariant "cc_init blake" "cc_step blake" "cc_ok blake"
  by unfold_locales (blast intro: cc_ok_new cc_ok_step)+

text \<open>
  C17. In every reachable state of the consensus coordinator the graph and every vertex in
  it are well formed, the incoming channels are within their capacity of 1000, and the
  output and broadcast channels are empty: it never commits a vertex nor gives one out for
  broadcast.
\<close>

theorem coordinator_never_commits:
  assumes "reach (cc_init blake) (cc_step blake) c"
  shows "chan_recv (cc_outputCh c) = None \<and> chan_recv (cc_broadcastCh c) = None
     \<and> dag_ok (cc_dag c) \<and> dag_all (vertex_ok blake) (cc_dag c) \<and> length (ch_values (cc_vertexCh c)) \<le> 1000 \<and> length (ch_values (cc_blockCh c)) \<le> 1000"
proof -
  have ok: "cc_ok blake c" using assms by (rule cc_inv.reach_inv)
  then show ?thesis using cc_ok_silent [OF ok] by (simp add: cc_ok_def chan_ok_def)
qed

section \<open>Rounds\<close>

text \<open>A turn of the loop lowers the round only when it is the last of its width.\<close>

lemma handleVertex_round:
  assumes "handleVertex blake now it vit envs v c = Ok c' \<or> handleVertex blake now it vit envs v c = Err c'"
  shows "cc_round c' = cc_round c \<or> cc_round c' = cc_round c + 1"
  using assms by (auto simp: handleVertex_def Let_def split: if_splits prod.splits option.splits)

text \<open>
  A turn of the consensus loop never lowers the round, except that a round of 2^64 -
  1 wraps to 0.
\<close>

theorem round_is_monotone:
  assumes "run_turn blake now it vit envs ch c = Some c'" and "cc_round c \<noteq> - 1"
  shows "cc_round c \<le> cc_round c'"
proof (cases ch)
  case FromVertexCh
  then obtain v vch where
    "handleVertex blake now it vit envs v (c\<lparr>cc_vertexCh := vch\<rparr>) = Ok c'
      \<or> handleVertex blake now it vit envs v (c\<lparr>cc_vertexCh := vch\<rparr>) = Err c'"
    using assms(1) run_turn_vertexE by blast
  from handleVertex_round [OF this] show ?thesis
    using word_le_Suc [OF assms(2)] by auto
next
  case FromBlockCh
  then show ?thesis using assms(1) by (auto simp: run_turn_def split: option.splits)
qed

text \<open>A list of vertices handled one after the other.\<close>

fun handle_vertices ::
  "(byte list \<Rightarrow> byte list) \<Rightarrow> gotime \<Rightarrow> vertex_order \<Rightarrow> validator_order \<Rightarrow> (nat \<Rightarrow> net_env)
   \<Rightarrow> vertex list \<Rightarrow> coordinator \<Rightarrow> (coordinator, coordinator) outcome" where
  "handle_vertices blake now it vit envs [] c = Ok c"
| "handle_vertices blake now it vit envs (v # vs) c =
     (case handleVertex blake now it vit envs v c of
        Ok c' \<Rightarrow> handle_vertices blake now it vit envs vs c'
      | Err c' \<Rightarrow> Err c' | Panic \<Rightarrow> Panic)"

lemma count_insert_fresh:
  "vx_round v = r \<Longrightarrow> map_of (round_map d r) (vx_hash v) = None
    \<Longrightarrow> GetVertexCountInRound (InsertVertex d v) r = Suc (GetVertexCountInRound d r)"
  by (auto simp: GetVertexCountInRound_def vertices_InsertVertex round_map_def length_update_fresh
      split: option.splits)

text \<open>
  C36. Handling as many new vertices of the current round as are missing to the size of
  the committee ends the round, whoever their owners are: the vertices of one member
  suffice.
\<close>

theorem enough_vertices_end_round:
  assumes "iteration it" and "time_ok now" and "cc_sender c \<noteq> None"
    and "vs \<noteq> []" and "distinct (map vx_hash vs)"
    and "\<forall>v\<in>set vs. vx_round v = cc_round c \<and> map_of (round_map (cc_dag c) (cc_round c)) (vx_hash v) = None"
    and "GetVertexCountInRound (cc_dag c) (cc_round c) + length vs = Size (cc_committee c)"
  shows "\<exists>c'. handle_vertices blake now it vit envs vs c = Ok c' \<and> cc_round c' = cc_round c + 1"
  using assms(3-)
proof (induction vs arbitrary: c)
  case (Cons v vs)
  obtain s where s: "cc_sender c = Some s" using Cons.prems(1) by auto
  have count: "GetVertexCountInRound (InsertVertex (cc_dag c) v) (cc_round c)
      = Suc (GetVertexCountInRound (cc_dag c) (cc_round c))"
    using Cons.prems(4) by (intro count_insert_fresh) auto
  obtain c1 where c1: "handleVertex blake now it vit envs v c = Ok c1"
    "cc_dag c1 = InsertVertex (cc_dag c) v"
    "cc_round c1 = (if vs = [] then cc_round c + 1 else cc_round c)" "cc_sender c1 \<noteq> None"
    using handleVertex_result [OF assms(1,2) s, of v blake vit envs] count Cons.prems(5) s
    by (cases vs) (auto simp: Let_def)
  show ?case
  proof (cases "vs = []")
    case True
    then show ?thesis using c1 by simp
  next
    case False
    have com: "cc_committee c1 = cc_committee c" using handleVertex_frame(6) c1(1) by blast
    have "vx_hash w \<noteq> vx_hash v" if "w \<in> set vs" for w
      using Cons.prems(3) imageI [OF that, of vx_hash] by auto
    then have "\<forall>w\<in>set vs. vx_round w = cc_round c1 \<and> map_of (round_map (cc_dag c1) (cc_round c1)) (vx_hash w) = None"
      using Cons.prems(3,4) c1(2,3) False by (auto simp: round_map_InsertVertex)
    then have "\<exists>c'. handle_vertices blake now it vit envs vs c1 = Ok c' \<and> cc_round c' = cc_round c1 + 1"
      using Cons.prems c1 False com count by (intro Cons.IH) auto
    then show ?thesis using c1 False by simp
  qed
qed simp

section \<open>Blocks of other nodes\<close>

text \<open>A block does not decode as a vertex: it has no owner.\<close>

lemma block_is_no_vertex:
  "Vertex_UnmarshalBinary blake now it (print_json (block_json b)) v = None"
proof -
  have "parse_json (print_json (block_json b)) = Some (block_json b)"
    using json_ok_block [of 9998 b] by (intro parse_print) (simp add: max_depth_def)
  moreover have "keys = [str ''height'', str ''transactions'', str ''timestamp'']"
    if "raw_keys (block_json b) = Some keys" for keys
    using that by (auto simp: raw_keys_def block_json_def unquote_plain split: if_splits)
  ultimately show ?thesis
    by (auto simp: Vertex_UnmarshalBinary_def required_fields_def split: option.splits)
qed

lemma block_from_wire:
  assumes "time_ok (b_timestamp b)" and "\<not> cc_done c" and "ch_values (cc_blockCh c) = []"
    and "0 < ch_cap (cc_blockCh c)"
  shows "\<exists>data c1 c2. Block_MarshalBinary b = Some data
     \<and> CC_HandleMessage blake now it data c = (Taken, c1)
     \<and> run_turn blake now2 vo vit envs FromBlockCh c1 = Some c2
     \<and> cc_round c2 = (if cc_round c \<le> b_height b then b_height b else cc_round c)
     \<and> cc_lastBlock c2 = Some (block_calculateHash blake b) \<and> cc_dag c2 = cc_dag c"
proof -
  let ?data = "print_json (block_json b)"
  let ?b = "b\<lparr>b_hash := Some (block_calculateHash blake b)\<rparr>"
  have data: "Block_MarshalBinary b = Some ?data"
    using time_ok_marshals [OF assms(1)] by (simp add: Block_MarshalBinary_def)
  have "Block_UnmarshalBinary blake ?data zero_block = Some ?b"
    using Block_wire [OF assms(1), of blake] data by simp
  then have "CC_HandleMessage blake now it ?data c = (Taken, c\<lparr>cc_blockCh := (cc_blockCh c)\<lparr>ch_values := [?b]\<rparr>\<rparr>)"
    using assms(2-4) block_is_no_vertex by (simp add: CC_HandleMessage_def CC_HandleBlock_def chan_send_def)
  moreover have "\<exists>c2. run_turn blake now2 vo vit envs FromBlockCh (c\<lparr>cc_blockCh := (cc_blockCh c)\<lparr>ch_values := [?b]\<rparr>\<rparr>) = Some c2
     \<and> cc_round c2 = (if cc_round c \<le> b_height b then b_height b else cc_round c)
     \<and> cc_lastBlock c2 = Some (block_calculateHash blake b) \<and> cc_dag c2 = cc_dag c"
    by (simp add: run_turn_def chan_recv_def)
  ultimately show ?thesis using data by blast
qed

text \<open>
  C37. A block from the network sets the round of the consensus coordinator to its height,
  however far ahead, and the last block to its hash, also for a past height; nothing about
  it is checked.
\<close>

theorem peer_block_sets_round:
  assumes "time_ok (b_timestamp b)" and "\<not> cc_done c" and "ch_values (cc_blockCh c) = []"
    and "0 < ch_cap (cc_blockCh c)"
  shows "\<exists>data c1 c2. Block_MarshalBinary b = Some data
     \<and> CC_HandleMessage blake now it data c = (Taken, c1)
     \<and> run_turn blake now vo vit envs FromBlockCh c1 = Some c2
     \<and> cc_round c2 = (if cc_round c \<le> b_height b then b_height b else cc_round c)
     \<and> cc_lastBlock c2 = Some (block_calculateHash blake b) \<and> cc_dag c2 = cc_dag c"
  using assms by (rule block_from_wire)

section \<open>Instances\<close>

definition sample_committee :: committee where
  "sample_committee =
     \<lparr>Validators = [(1, genesis_validator (\<lambda>x. x) (\<lambda>x. x) [1]), (2, genesis_validator (\<lambda>x. x) (\<lambda>x. x) [2])]\<rparr>"

definition sample_cc :: coordinator where
  "sample_cc = the (NewWithRound rev zero_time zero_time 1 sample_committee 3)"

lemma sample_cc_new: "NewWithRound rev zero_time zero_time 1 sample_committee 3 = Some sample_cc"
  by (simp add: sample_cc_def NewWithRound_def sample_committee_def GetNodeKey_def Let_def)

lemma sample_cc_simps [simp]:
  "cc_round sample_cc = 3" "cc_committee sample_cc = sample_committee" "cc_done sample_cc = False"
  "ch_values (cc_vertexCh sample_cc) = []" "ch_cap (cc_vertexCh sample_cc) = 1000"
  "ch_values (cc_blockCh sample_cc) = []" "ch_cap (cc_blockCh sample_cc) = 1000"
  "round_map (cc_dag sample_cc) 3 = []" "GetVertexCountInRound (cc_dag sample_cc) 3 = 0"
  by (simp_all add: sample_cc_def NewWithRound_def GetNodeKey_def sample_committee_def Let_def
      round_map_def GetVertexCountInRound_def NewDAG_def)

lemma Size_sample [simp]: "Size sample_committee = 2"
  by (simp add: sample_committee_def Size_def)

theorem handleVertex_spec_witness:
  "\<exists>c'. handleVertex rev zero_time rev rev (\<lambda>_. good_env 0) (sample_vertex 1 3 [])
        (sample_cc\<lparr>cc_sender := Some NewSender\<rparr>) = Ok c' \<and> cc_round c' = 3"
proof -
  let ?c = "sample_cc\<lparr>cc_sender := Some NewSender\<rparr>"
  have s: "cc_sender ?c = Some NewSender" by simp
  have count: "GetVertexCountInRound (InsertVertex (cc_dag sample_cc) (sample_vertex 1 3 [])) 3 = Suc 0"
    by (subst count_insert_fresh) simp_all
  from handleVertex_spec [OF iteration_rev time_ok_zero s, of "sample_vertex 1 3 []" rev rev "\<lambda>_. good_env 0"]
  show ?thesis by (auto simp: Let_def count)
qed

theorem coordinator_never_commits_witness:
  "\<exists>c :: coordinator. ch_values (cc_vertexCh c) = [NewVertex rev zero_time zero32 3 None []]
     \<and> chan_recv (cc_outputCh c) = None"
proof -
  have ok: "vertex_ok rev (NewVertex rev zero_time zero32 3 None [])" by (rule NewVertex_ok) auto
  have "cc_init rev sample_cc"
    unfolding cc_init_def by (intro exI) (rule sample_cc_new)
  then have start: "reach (cc_init rev) (cc_step rev) sample_cc" by (rule reach_init)
  obtain c where c: "CC_HandleVertex (NewVertex rev zero_time zero32 3 None []) sample_cc = (Taken, c)"
    "ch_values (cc_vertexCh c) = [NewVertex rev zero_time zero32 3 None []]"
    by (simp add: CC_HandleVertex_def chan_send_def)
  from coordinator_never_commits [OF reach_step [OF start cc_vertex [OF c(1) ok]]] show ?thesis
    using c(2) by blast
qed

theorem round_is_monotone_witness:
  "\<exists>c. run_turn rev zero_time rev rev (\<lambda>_. good_env 0) FromBlockCh
         (sample_cc\<lparr>cc_blockCh := \<lparr>ch_values = [NewBlock rev zero_time 2 None], ch_cap = 1000\<rparr>\<rparr>) = Some c
     \<and> 3 \<le> cc_round c"
proof -
  let ?c = "sample_cc\<lparr>cc_blockCh := \<lparr>ch_values = [NewBlock rev zero_time 2 None], ch_cap = 1000\<rparr>\<rparr>"
  obtain c where run: "run_turn rev zero_time rev rev (\<lambda>_. good_env 0) FromBlockCh ?c = Some c"
    by (simp add: run_turn_def chan_recv_def)
  from round_is_monotone [OF run] show ?thesis using run by auto
qed

theorem enough_vertices_end_round_witness:
  "\<exists>c'. handle_vertices rev zero_time rev rev (\<lambda>_. good_env 0) [sample_vertex 1 3 [], sample_vertex 2 3 []]
        (sample_cc\<lparr>cc_sender := Some NewSender\<rparr>) = Ok c' \<and> cc_round c' = 4
     \<and> vx_owner (sample_vertex 1 3 []) = vx_owner (sample_vertex 2 3 [])"
proof -
  let ?c = "sample_cc\<lparr>cc_sender := Some NewSender\<rparr>" and ?vs = "[sample_vertex 1 3 [], sample_vertex 2 3 []]"
  have "\<exists>c'. handle_vertices rev zero_time rev rev (\<lambda>_. good_env 0) ?vs ?c = Ok c'
      \<and> cc_round c' = cc_round ?c + 1"
    by (rule enough_vertices_end_round) simp_all
  then show ?thesis by (simp add: sample_vertex_def)
qed

theorem peer_block_sets_round_witness:
  "\<exists>data c1 c2. CC_HandleMessage rev zero_time rev data sample_cc = (Taken, c1)
     \<and> run_turn rev zero_time rev rev (\<lambda>_. good_env 0) FromBlockCh c1 = Some c2 \<and> cc_round c2 = - 1"
proof -
  have t: "time_ok (b_timestamp (NewBlock rev zero_time (- 1) None))" by simp
  have "3 \<le> (- 1 :: u64)" by simp
  then show ?thesis
    using peer_block_sets_round [OF t, of sample_cc rev zero_time rev rev rev "\<lambda>_. good_env 0"]
    by auto
qed

end
