(* ===== verification/Benchmark_Config.thy ===== *)
theory Benchmark_Config
  imports Model_Types Go_Encoding
begin

text \<open>
  cmd/benchmark/config/config.go: the configuration values the program reads, and the
  synthetic transactions of the benchmarks.  Durations are in milliseconds.
\<close>

record config =
  BasePort :: u16
  PortsPerNode :: u16
  DefaultHost :: "byte list"
  BlockWaitTime :: nat
  ExtraWaitTime :: nat
  ProgressInterval :: nat
  PollInterval :: nat
  TotalValidators :: nat
  TransactionSize :: nat
  BlockSize :: nat

definition Config :: config where
  "Config =
     \<lparr>BasePort = 15000, PortsPerNode = 3, DefaultHost = str ''0.0.0.0'', BlockWaitTime = 100,
      ExtraWaitTime = 1000, ProgressInterval = 1000, PollInterval = 50, TotalValidators = 10,
      TransactionSize = 2 * 1024, BlockSize = 4 * 1024 * 1024\<rparr>"

text \<open>
  The decimal text of a Go \<open>int\<close>, and the transaction: the base text, then the pattern of
  the alphabet.  \<open>copy\<close> would cut a base longer than the transaction.
\<close>

definition fmt_int :: "int \<Rightarrow> byte list" where
  "fmt_int i = (if i < 0 then str ''-'' @ dec_digits (nat (- i)) else dec_digits (nat i))"

definition CreateFixedSizeTransaction :: "int \<Rightarrow> transaction" where
  "CreateFixedSizeTransaction index =
     (let base = str ''tx'' @ fmt_int index @ str ''-'';
          txData = go_copy (replicate (TransactionSize Config) 0) base
      in map (\<lambda>i. if i < length base then txData ! i else of_nat (97 + i mod 26))
             [0..<TransactionSize Config])"

lemma Config_simps [simp]:
  "TransactionSize Config = 2048" "BlockSize Config = 4194304"
  "BasePort Config = 15000" "PortsPerNode Config = 3" "TotalValidators Config = 10"
  "DefaultHost Config = str ''0.0.0.0''"
  by (simp_all add: Config_def)

lemma dec_digits_length: "n < 10 ^ Suc k \<Longrightarrow> length (dec_digits n) \<le> Suc k"
proof (induction k arbitrary: n)
  case 0
  then show ?case by (simp add: dec_digits.simps [of n])
next
  case (Suc k)
  show ?case
  proof (cases "n < 10")
    case True
    then show ?thesis by (simp add: dec_digits.simps [of n])
  next
    case False
    have "n div 10 < 10 ^ Suc k" using Suc.prems by (simp add: less_mult_imp_div_less)
    then show ?thesis using Suc.IH False by (subst dec_digits.simps) simp
  qed
qed

lemma fmt_int_length: "\<bar>i\<bar> < 10 ^ Suc k \<Longrightarrow> length (fmt_int i) \<le> Suc (Suc k)"
proof -
  assume a: "\<bar>i\<bar> < 10 ^ Suc k"
  have "nat \<bar>i\<bar> < 10 ^ Suc k" using a by (simp add: nat_less_iff)
  then have "length (dec_digits (nat \<bar>i\<bar>)) \<le> Suc k" by (rule dec_digits_length)
  then show ?thesis by (auto simp: fmt_int_def abs_if str_def split: if_splits)
qed

lemma minus_not_digit: "c \<in> set (dec_digits n) \<Longrightarrow> c \<noteq> 45"
  using dec_digits_all [of c n] by (auto simp: is_digit_def)

lemma fmt_int_cases:
  "fmt_int i = (if i < 0 then 45 # dec_digits (nat (- i)) else dec_digits (nat i))"
  by (simp add: fmt_int_def str_def)

lemma fmt_int_inject: "fmt_int i = fmt_int j \<Longrightarrow> i = j"
proof -
  assume eq: "fmt_int i = fmt_int j"
  have hd: "i < 0 \<longleftrightarrow> fmt_int i \<noteq> [] \<and> hd (fmt_int i) = 45" for i
    using minus_not_digit [of "hd (dec_digits (nat i))" "nat i"] by (auto simp: fmt_int_cases)
  have sign: "i < 0 \<longleftrightarrow> j < 0" using hd [of i] hd [of j] eq by simp
  have "dec_digits m = dec_digits n \<Longrightarrow> m = n" for m n
    using dec_val_digits by metis
  from this [of "nat (- i)" "nat (- j)"] this [of "nat i" "nat j"] show ?thesis
    using eq sign by (auto simp: fmt_int_cases split: if_splits)
qed

lemma CreateFixedSizeTransaction_length: "length (CreateFixedSizeTransaction i) = 2048"
  by (simp add: CreateFixedSizeTransaction_def Let_def)

text \<open>The end of the index is the first dash after the digits.\<close>

definition tx_base :: "int \<Rightarrow> byte list" where
  "tx_base i = str ''tx'' @ fmt_int i @ str ''-''"

lemma CreateFixedSizeTransaction_prefix:
  "length (tx_base i) \<le> 2048 \<Longrightarrow> take (length (tx_base i)) (CreateFixedSizeTransaction i) = tx_base i"
  by (rule nth_equalityI)
    (auto simp: CreateFixedSizeTransaction_def Let_def go_copy_def nth_append tx_base_def)

lemma dash_ends_int: "fmt_int i @ 45 # xs = fmt_int j @ 45 # ys \<Longrightarrow> i = j"
proof -
  assume eq: "fmt_int i @ 45 # xs = fmt_int j @ 45 # ys"
  have tl: "45 \<notin> set (tl (fmt_int k))" and ne: "fmt_int k \<noteq> []" for k
    using minus_not_digit list.set_sel(2) [of "dec_digits (nat k)"] by (auto simp: fmt_int_cases)
  have no: False if "fmt_int k = fmt_int l @ 45 # zs" for k l zs
    using that tl [of k] ne [of l] by (cases "fmt_int l") auto
  obtain us where "fmt_int i = fmt_int j @ us \<and> us @ 45 # xs = 45 # ys
      \<or> fmt_int i @ us = fmt_int j \<and> 45 # xs = us @ 45 # ys"
    using eq append_eq_append_conv2 [of "fmt_int i" "45 # xs" "fmt_int j" "45 # ys"] by blast
  then have "fmt_int i = fmt_int j"
    using no [of i j] no [of j i, OF sym] by (cases us) auto
  then show ?thesis by (rule fmt_int_inject)
qed

theorem CreateFixedSizeTransaction_spec:
  assumes "\<bar>i\<bar> < 10 ^ 20"
  shows "length (CreateFixedSizeTransaction i) = TransactionSize Config
     \<and> take (length (tx_base i)) (CreateFixedSizeTransaction i) = tx_base i
     \<and> (\<bar>j\<bar> < 10 ^ 20 \<longrightarrow> CreateFixedSizeTransaction i = CreateFixedSizeTransaction j \<longrightarrow> i = j)"
proof (intro conjI impI)
  have len: "length (tx_base k) \<le> 2048" if "\<bar>k\<bar> < 10 ^ 20" for k
    using fmt_int_length [of k 19] that by (simp add: tx_base_def str_def)
  show pre: "take (length (tx_base i)) (CreateFixedSizeTransaction i) = tx_base i"
    using assms len by (simp add: CreateFixedSizeTransaction_prefix)
  assume "\<bar>j\<bar> < 10 ^ 20" and eq: "CreateFixedSizeTransaction i = CreateFixedSizeTransaction j"
  then have "take (length (tx_base j)) (CreateFixedSizeTransaction j) = tx_base j"
    using len by (simp add: CreateFixedSizeTransaction_prefix)
  then have "tx_base i @ drop (length (tx_base i)) (CreateFixedSizeTransaction i)
      = tx_base j @ drop (length (tx_base j)) (CreateFixedSizeTransaction i)"
    using pre eq by (metis append_take_drop_id)
  then show "i = j" by (auto simp: tx_base_def str_def intro: dash_ends_int)
qed (simp add: CreateFixedSizeTransaction_length)

theorem CreateFixedSizeTransaction_spec_witness:
  "CreateFixedSizeTransaction 41 \<noteq> CreateFixedSizeTransaction 42
   \<and> length (CreateFixedSizeTransaction 42) = 2048"
  using CreateFixedSizeTransaction_spec [of 41 42] CreateFixedSizeTransaction_spec [of 42 0]
  by simp

end
