(* ===== verification/Transaction_Coordinator.thy ===== *)
theory Transaction_Coordinator
  imports Model_Block Model_Committee Benchmark_Config Go_Channel
    "HOL-Library.Multiset" "HOL-Library.Sublist"
begin

text \<open>
  pkg/transaction/transaction.go: the transaction buffer and the creation of blocks.

  \<open>AddTransaction\<close> is called from many goroutines at once, so it is split into the steps
  between which other goroutines can run: the check of the context, the check of the buffer
  under the read lock, the check and the append under the write lock, and the counters after
  the unlock, of which the two of a full buffer are steps of their own.  \<open>AddTransaction\<close>
  itself is the steps in a row; the transition system \<open>pool_step\<close> interleaves them.

  Clock readings and elapsed times (nanoseconds) are arguments.  A \<open>float64\<close> is kept as
  the expression that computes it: nothing in the program reads the one that is stored.  The
  fields of the struct that no function reads or writes (\<open>activeBuffer\<close>,
  \<open>backupBuffer\<close>, \<open>blockTransactions\<close> and the counters outside \<open>metrics\<close>) are
  left out.
\<close>

section \<open>State\<close>

datatype float64 = F_zero | F_of_uint u64 | F_div float64 float64

record tx_metrics =
  m_txReceivedCount :: u64
  m_txReceiveTime :: u64
  m_txBufferTime :: u64
  m_txProcessedCount :: u64
  m_txDroppedCount :: u64
  m_blockCreationTime :: u64
  m_blockBroadcastTime :: u64
  m_blockSize :: u64
  m_blockCount :: u64
  m_droppedBlockCount :: u64
  m_avgBlockSize :: float64
  m_bufferSwapCount :: u64
  m_bufferFullCount :: u64
  m_bufferSizeSum :: u64
  m_bufferSizeSamples :: u64
  m_lockContentionCount :: u64
  m_lockWaitTime :: u64
  m_lastMetricsTime :: gotime

definition zero_metrics :: tx_metrics where
  "zero_metrics =
     \<lparr>m_txReceivedCount = 0, m_txReceiveTime = 0, m_txBufferTime = 0, m_txProcessedCount = 0,
      m_txDroppedCount = 0, m_blockCreationTime = 0, m_blockBroadcastTime = 0, m_blockSize = 0,
      m_blockCount = 0, m_droppedBlockCount = 0, m_avgBlockSize = F_zero, m_bufferSwapCount = 0,
      m_bufferFullCount = 0, m_bufferSizeSum = 0, m_bufferSizeSamples = 0,
      m_lockContentionCount = 0, m_lockWaitTime = 0, m_lastMetricsTime = zero_time\<rparr>"

record tx_coordinator =
  tc_nodeID :: node_id
  tc_committee :: committee
  bufferSize :: int
  head :: int
  tail :: int
  blockCh :: "block chan"
  tc_done :: bool
  txBufferSize :: u64
  metrics :: tx_metrics
  txBuffer :: "transaction list"
  blockHeight :: u64

definition Tx_New :: "node_id \<Rightarrow> committee \<Rightarrow> tx_coordinator" where
  "Tx_New nodeID c =
     \<lparr>tc_nodeID = nodeID, tc_committee = c, bufferSize = 100000, head = 0, tail = 0,
      blockCh = make_chan DefaultChannelCapacity, tc_done = False, txBufferSize = 0,
      metrics = zero_metrics, txBuffer = [], blockHeight = 0\<rparr>"

section \<open>Blocks\<close>

definition getBufferSize :: "tx_coordinator \<Rightarrow> int" where
  "getBufferSize c =
     (if tail c \<ge> head c then tail c - head c else bufferSize c - head c + tail c)"

text \<open>The loop that takes transactions while they fit.\<close>

fun take_fitting :: "nat \<Rightarrow> nat \<Rightarrow> transaction list \<Rightarrow> transaction list" where
  "take_fitting maxBlockSize totalSize [] = []"
| "take_fitting maxBlockSize totalSize (tx # txs) =
     (if totalSize + length tx \<le> maxBlockSize
      then tx # take_fitting maxBlockSize (totalSize + length tx) txs
      else [])"

datatype tx_error = BlockChannelFull

text \<open>
  \<open>createBlock\<close>: the error it returns (if any) and the new state.  \<open>now\<close> is the clock
  reading of \<open>NewBlock\<close>, \<open>elapsed\<close> the nanoseconds since the start of the call.
\<close>

definition createBlock ::
  "(byte list \<Rightarrow> byte list) \<Rightarrow> gotime \<Rightarrow> u64 \<Rightarrow> tx_coordinator \<Rightarrow> tx_error option \<times> tx_coordinator" where
  "createBlock blake now elapsed c =
     (if txBuffer c = [] then (None, c)
      else
        (let blockTxs = take_fitting (BlockSize Config) 0 (txBuffer c);
             txProcessed = length blockTxs;
             block = NewBlock blake now (blockHeight c) (if blockTxs = [] then None else Some blockTxs);
             m = metrics c;
             m = m\<lparr>m_blockCount := m_blockCount m + 1\<rparr>;
             m = m\<lparr>m_txProcessedCount := m_txProcessedCount m + of_nat txProcessed\<rparr>;
             m = m\<lparr>m_avgBlockSize :=
                     F_div (F_of_uint (m_txProcessedCount m)) (F_of_uint (m_blockCount m))\<rparr>;
             m = m\<lparr>m_blockCreationTime := elapsed\<rparr>;
             c' = c\<lparr>blockHeight := blockHeight c + 1, metrics := m,
                    txBuffer := drop txProcessed (txBuffer c)\<rparr>
         in case chan_send (blockCh c') block of
              Some ch \<Rightarrow> (None, c'\<lparr>blockCh := ch\<rparr>)
            | None \<Rightarrow>
                (Some BlockChannelFull,
                 c'\<lparr>metrics := m\<lparr>m_droppedBlockCount := m_droppedBlockCount m + 1\<rparr>\<rparr>)))"

section \<open>Adding transactions\<close>

definition upd_metrics :: "(tx_metrics \<Rightarrow> tx_metrics) \<Rightarrow> tx_coordinator \<Rightarrow> tx_coordinator" where
  "upd_metrics f c = c\<lparr>metrics := f (metrics c)\<rparr>"

text \<open>
  The two counters of a full buffer, added to after the unlock, each by an atomic operation of
  its own.
\<close>

definition count_buffer_full :: "tx_coordinator \<Rightarrow> tx_coordinator" where
  "count_buffer_full = upd_metrics (\<lambda>m. m\<lparr>m_bufferFullCount := m_bufferFullCount m + 1\<rparr>)"

definition count_dropped :: "tx_coordinator \<Rightarrow> tx_coordinator" where
  "count_dropped = upd_metrics (\<lambda>m. m\<lparr>m_txDroppedCount := m_txDroppedCount m + 1\<rparr>)"

definition count_full :: "tx_coordinator \<Rightarrow> tx_coordinator" where
  "count_full c = count_dropped (count_buffer_full c)"

text \<open>Under the read lock: \<open>True\<close> when there is room.\<close>

definition add_check :: "u64 \<Rightarrow> tx_coordinator \<Rightarrow> bool \<times> tx_coordinator" where
  "add_check waited c =
     (let c' = upd_metrics (\<lambda>m. m\<lparr>m_lockWaitTime := m_lockWaitTime m + waited\<rparr>) c
      in if int (length (txBuffer c')) \<ge> bufferSize c' then (False, c')
         else (True, c'))"

text \<open>Under the write lock: check again, then append.\<close>

definition add_commit :: "u64 \<Rightarrow> u64 \<Rightarrow> transaction \<Rightarrow> tx_coordinator \<Rightarrow> bool \<times> tx_coordinator" where
  "add_commit waited appendTime tx c =
     (let c' = upd_metrics (\<lambda>m. m\<lparr>m_lockWaitTime := m_lockWaitTime m + waited\<rparr>) c
      in if int (length (txBuffer c')) \<ge> bufferSize c' then (False, c')
         else (True, upd_metrics (\<lambda>m. m\<lparr>m_txBufferTime := m_txBufferTime m + appendTime\<rparr>)
                       (c'\<lparr>txBuffer := txBuffer c' @ [tx]\<rparr>)))"

text \<open>After the unlock: the counters, and the size of the buffer as read at this moment.\<close>

definition add_finish :: "u64 \<Rightarrow> tx_coordinator \<Rightarrow> tx_coordinator" where
  "add_finish elapsed c =
     (let c' = upd_metrics (\<lambda>m. m\<lparr>m_txReceivedCount := m_txReceivedCount m + 1,
                                  m_txReceiveTime := m_txReceiveTime m + elapsed\<rparr>) c
      in c'\<lparr>txBufferSize := of_nat (length (txBuffer c'))\<rparr>)"

definition AddTransaction ::
  "u64 \<Rightarrow> u64 \<Rightarrow> u64 \<Rightarrow> u64 \<Rightarrow> tx_coordinator \<Rightarrow> transaction \<Rightarrow> tx_coordinator" where
  "AddTransaction waited1 waited2 appendTime elapsed c tx =
     (if tc_done c then c
      else case add_check waited1 c of
             (False, c1) \<Rightarrow> count_full c1
           | (True, c1) \<Rightarrow>
               (case add_commit waited2 appendTime tx c1 of
                  (False, c2) \<Rightarrow> count_full c2
                | (True, c2) \<Rightarrow> add_finish elapsed c2))"

text \<open>The message handler of the transaction receiver; it always returns nil.\<close>

definition Tx_HandleMessage ::
  "u64 \<Rightarrow> u64 \<Rightarrow> u64 \<Rightarrow> u64 \<Rightarrow> tx_coordinator \<Rightarrow> byte list \<Rightarrow> tx_coordinator" where
  "Tx_HandleMessage waited1 waited2 appendTime elapsed c data =
     AddTransaction waited1 waited2 appendTime elapsed c data"

section \<open>Metrics and the run loop\<close>

definition tx_max :: "u64 \<Rightarrow> u64 \<Rightarrow> u64" where
  "tx_max a b = (if a > b then a else b)"

record public_metrics =
  TxReceivedCount :: u64
  TxProcessedCount :: u64
  BlockCount :: u64

definition GetMetrics :: "tx_coordinator \<Rightarrow> public_metrics" where
  "GetMetrics c =
     \<lparr>TxReceivedCount = m_txReceivedCount (metrics c),
      TxProcessedCount = m_txProcessedCount (metrics c),
      BlockCount = m_blockCount (metrics c)\<rparr>"

text \<open>
  The averages that \<open>printMetrics\<close> computes for its log lines, each a quotient of counters
  (receive, buffer, block creation, block broadcast, lock wait, buffer size); the function
  also stores the clock reading.  The rates, which divide by the time since the last call,
  only appear in the log.
\<close>

definition avg_of :: "u64 \<Rightarrow> u64 \<Rightarrow> float64" where
  "avg_of tot n = F_div (F_of_uint tot) (F_of_uint (tx_max n 1))"

definition printMetrics :: "gotime \<Rightarrow> tx_coordinator \<Rightarrow> float64 list \<times> tx_coordinator" where
  "printMetrics now c =
     (let c = upd_metrics (\<lambda>m. m\<lparr>m_lastMetricsTime := now\<rparr>) c; m = metrics c
      in ([avg_of (m_txReceiveTime m) (m_txReceivedCount m),
           avg_of (m_txBufferTime m) (m_txReceivedCount m),
           avg_of (m_blockCreationTime m) (m_blockCount m),
           avg_of (m_blockBroadcastTime m) (m_blockCount m),
           avg_of (m_lockWaitTime m) (m_lockContentionCount m),
           avg_of (m_bufferSizeSum m) (m_bufferSizeSamples m)], c))"

text \<open>
  \<open>run\<close>: the loop over the two tickers and the context.  The events are the choices of the
  \<open>select\<close>; the loop ends with the context.
\<close>

datatype run_event =
    BlockTick gotime u64
  | MetricsTick gotime
  | ContextDone

fun tx_run :: "(byte list \<Rightarrow> byte list) \<Rightarrow> tx_coordinator \<Rightarrow> run_event list \<Rightarrow> tx_coordinator" where
  "tx_run blake c [] = c"
| "tx_run blake c (BlockTick now elapsed # es) =
     tx_run blake (snd (createBlock blake now elapsed c)) es"
| "tx_run blake c (MetricsTick now # es) = tx_run blake (snd (printMetrics now c)) es"
| "tx_run blake c (ContextDone # es) = c"

section \<open>Which transactions a block takes\<close>

definition bytes_in :: "transaction list \<Rightarrow> nat" where
  "bytes_in txs = sum_list (map length txs)"

lemma bytes_in_simps [simp]:
  "bytes_in [] = 0" "bytes_in (tx # txs) = length tx + bytes_in txs"
  by (simp_all add: bytes_in_def)

lemma take_fitting_prefix: "take_fitting M n txs @ drop (length (take_fitting M n txs)) txs = txs"
  by (induction M n txs rule: take_fitting.induct) auto

lemma take_fitting_bound: "n \<le> M \<Longrightarrow> n + bytes_in (take_fitting M n txs) \<le> M"
  by (induction M n txs rule: take_fitting.induct) (auto simp: algebra_simps)

lemma take_fitting_maximal:
  "drop (length (take_fitting M n txs)) txs = tx # rest
    \<Longrightarrow> M < n + bytes_in (take_fitting M n txs) + length tx"
  by (induction M n txs rule: take_fitting.induct) (auto simp: algebra_simps split: if_splits)

lemma take_fitting_empty_iff:
  "take_fitting M 0 (tx # txs) = [] \<longleftrightarrow> M < length tx"
  by auto

text \<open>The block that a tick makes.\<close>

definition next_block :: "(byte list \<Rightarrow> byte list) \<Rightarrow> gotime \<Rightarrow> tx_coordinator \<Rightarrow> block" where
  "next_block blake now c =
     (let txs = take_fitting (BlockSize Config) 0 (txBuffer c)
      in NewBlock blake now (blockHeight c) (if txs = [] then None else Some txs))"

lemma next_block_simps [simp]:
  "b_height (next_block blake now c) = blockHeight c"
  "elems (b_transactions (next_block blake now c)) = take_fitting (BlockSize Config) 0 (txBuffer c)"
  by (simp_all add: next_block_def Let_def)

lemma createBlock_idle: "txBuffer c = [] \<Longrightarrow> createBlock blake now el c = (None, c)"
  by (simp add: createBlock_def)

lemma createBlock_fields:
  assumes "txBuffer c \<noteq> []" and "createBlock blake now el c = (e, c')"
  shows "txBuffer c' = drop (length (take_fitting (BlockSize Config) 0 (txBuffer c))) (txBuffer c)"
    and "blockHeight c' = blockHeight c + 1" and "bufferSize c' = bufferSize c"
    and "tc_done c' = tc_done c"
    and "m_blockCount (metrics c') = m_blockCount (metrics c) + 1"
    and "m_txReceivedCount (metrics c') = m_txReceivedCount (metrics c)"
    and "m_txProcessedCount (metrics c') = m_txProcessedCount (metrics c)
           + of_nat (length (take_fitting (BlockSize Config) 0 (txBuffer c)))"
    and "m_txDroppedCount (metrics c') = m_txDroppedCount (metrics c)"
    and "m_bufferFullCount (metrics c') = m_bufferFullCount (metrics c)"
    and "(e = None \<and> length (ch_values (blockCh c)) < ch_cap (blockCh c)
            \<and> ch_values (blockCh c') = ch_values (blockCh c) @ [next_block blake now c]
            \<and> m_droppedBlockCount (metrics c') = m_droppedBlockCount (metrics c))
         \<or> (e = Some BlockChannelFull \<and> ch_cap (blockCh c) \<le> length (ch_values (blockCh c))
            \<and> blockCh c' = blockCh c
            \<and> m_droppedBlockCount (metrics c') = m_droppedBlockCount (metrics c) + 1)"
    and "ch_cap (blockCh c') = ch_cap (blockCh c)"
  using assms
  by (auto simp: createBlock_def next_block_def Let_def chan_send_def split: if_splits)

text \<open>
  C7. createBlock on a non-empty buffer takes the longest prefix of the buffer within the
  block size into a block at the next height, leaves the rest, and either sends the block
  or reports that the channel is full.
\<close>

theorem createBlock_effect:
  assumes "txBuffer c \<noteq> []"
  shows "\<exists>block err c'. createBlock blake now el c = (err, c')
     \<and> b_height block = blockHeight c \<and> blockHeight c' = blockHeight c + 1 \<and> block_ok blake block
     \<and> elems (b_transactions block) @ txBuffer c' = txBuffer c
     \<and> bytes_in (elems (b_transactions block)) \<le> BlockSize Config
     \<and> (txBuffer c' \<noteq> [] \<longrightarrow>
          BlockSize Config < bytes_in (elems (b_transactions block)) + length (hd (txBuffer c')))
     \<and> (if length (ch_values (blockCh c)) < ch_cap (blockCh c)
        then err = None \<and> ch_values (blockCh c') = ch_values (blockCh c) @ [block]
        else err = Some BlockChannelFull \<and> blockCh c' = blockCh c)"
proof -
  obtain err c' where run: "createBlock blake now el c = (err, c')"
    by (cases "createBlock blake now el c") auto
  note f = createBlock_fields [OF assms run]
  have "block_ok blake (next_block blake now c)" by (simp add: next_block_def Let_def)
  moreover have "BlockSize Config < bytes_in (take_fitting (BlockSize Config) 0 (txBuffer c))
      + length (hd (txBuffer c'))" if "txBuffer c' \<noteq> []"
    using take_fitting_maximal [of "BlockSize Config" 0 "txBuffer c" "hd (txBuffer c')" "List.tl (txBuffer c')"]
      that f(1) by simp
  moreover have "take_fitting (BlockSize Config) 0 (txBuffer c) @ txBuffer c' = txBuffer c"
    unfolding f(1) by (rule take_fitting_prefix)
  moreover have "bytes_in (take_fitting (BlockSize Config) 0 (txBuffer c)) \<le> BlockSize Config"
    using take_fitting_bound [of 0 "BlockSize Config" "txBuffer c"] by simp
  ultimately show ?thesis
    using run f(2,10) by (intro exI [of _ "next_block blake now c"] exI [of _ err] exI [of _ c']) auto
qed

theorem createBlock_effect_witness:
  "\<exists>(block :: block) err c'. createBlock (\<lambda>x. x) zero_time 0 (Tx_New 1 \<lparr>Validators = []\<rparr>\<lparr>txBuffer := [[1, 2], [3]]\<rparr>)
       = (err, c') \<and> elems (b_transactions block) @ txBuffer c' = [[1, 2], [3]]"
proof -
  define c where "c = Tx_New 1 \<lparr>Validators = []\<rparr>\<lparr>txBuffer := [[1, 2], [3]]\<rparr>"
  have tx: "txBuffer c = [[1, 2], [3]]" by (simp add: c_def)
  then have "txBuffer c \<noteq> []" by simp
  from createBlock_effect [OF this, of "\<lambda>x. x" zero_time 0] show ?thesis
    unfolding c_def [symmetric] tx by (elim exE conjE) (intro exI conjI, assumption+)
qed

text \<open>
  When the block channel is full, createBlock reports the error after it has taken
  the transactions from the buffer: they are in no block that anyone receives.
\<close>

theorem full_channel_loses_transactions:
  assumes "txBuffer c = tx # txs" and "length tx \<le> BlockSize Config"
    and "ch_cap (blockCh c) \<le> length (ch_values (blockCh c))"
  shows "\<exists>c'. createBlock blake now el c = (Some BlockChannelFull, c')
     \<and> blockCh c' = blockCh c \<and> length (txBuffer c') < length (txBuffer c)
     \<and> (\<exists>k. txBuffer c' = drop k txs)"
proof -
  have ne: "txBuffer c \<noteq> []" using assms(1) by simp
  obtain err c' where run: "createBlock blake now el c = (err, c')"
    by (cases "createBlock blake now el c") auto
  note f = createBlock_fields [OF ne run]
  have "take_fitting (BlockSize Config) 0 (txBuffer c) \<noteq> []"
    using assms(1,2) by simp
  then obtain k where "length (take_fitting (BlockSize Config) 0 (txBuffer c)) = Suc k"
    by (cases "take_fitting (BlockSize Config) 0 (txBuffer c)") auto
  then have "txBuffer c' = drop k txs" using f(1) assms(1) by simp
  then show ?thesis using run f(10) assms(1,3) by auto
qed

theorem full_channel_loses_transactions_witness:
  "\<exists>c'. createBlock (\<lambda>x. x) zero_time 0 (Tx_New 1 \<lparr>Validators = []\<rparr>\<lparr>txBuffer := [[1]], blockCh := make_chan 0\<rparr>)
        = (Some BlockChannelFull, c') \<and> txBuffer c' = []"
  using full_channel_loses_transactions
    [of "Tx_New 1 \<lparr>Validators = []\<rparr>\<lparr>txBuffer := [[1]], blockCh := make_chan 0\<rparr>" "[1]" "[]"
        "\<lambda>x. x" zero_time 0]
  by (auto simp: Config_def)

theorem oversize_transaction_blocks_forever:
  assumes "txBuffer c = tx # txs" and "BlockSize Config < length tx"
  shows "txBuffer (tx_run blake c (replicate n (BlockTick now el))) = tx # txs
     \<and> m_blockCount (metrics (tx_run blake c (replicate n (BlockTick now el))))
         = m_blockCount (metrics c) + of_nat n
     \<and> m_txProcessedCount (metrics (tx_run blake c (replicate n (BlockTick now el))))
         = m_txProcessedCount (metrics c)"
  using assms
proof (induction n arbitrary: c)
  case (Suc n)
  obtain err c' where run: "createBlock blake now el c = (err, c')"
    by (cases "createBlock blake now el c") auto
  have ne: "txBuffer c \<noteq> []" using Suc.prems by simp
  have "txBuffer c' = tx # txs" "m_blockCount (metrics c') = m_blockCount (metrics c) + 1"
    "m_txProcessedCount (metrics c') = m_txProcessedCount (metrics c)"
    using createBlock_fields(1,5,7) [OF ne run] Suc.prems by simp_all
  then show ?case using Suc.IH [of c'] Suc.prems(2) run by (simp add: add.assoc)
qed simp

theorem oversize_transaction_blocks_forever_witness:
  "txBuffer (tx_run (\<lambda>x. x) (Tx_New 1 \<lparr>Validators = []\<rparr>\<lparr>txBuffer := [replicate 4194305 0, [1]]\<rparr>)
       (replicate 3 (BlockTick zero_time 0))) = [replicate 4194305 0, [1]]"
  using oversize_transaction_blocks_forever
    [of "Tx_New 1 \<lparr>Validators = []\<rparr>\<lparr>txBuffer := [replicate 4194305 0, [1]]\<rparr>" "replicate 4194305 0" "[[1]]"]
  by (simp add: Config_def)

section \<open>Draining the buffer\<close>

definition block_txs :: "block list \<Rightarrow> transaction list" where
  "block_txs bs = concat (map (\<lambda>b. elems (b_transactions b)) bs)"

lemma block_txs_append [simp]: "block_txs (xs @ ys) = block_txs xs @ block_txs ys"
  by (simp add: block_txs_def)

text \<open>
  What \<open>n\<close> ticks do when the channel has room for \<open>n\<close> blocks: the blocks they append and
  the rest of the buffer are the old buffer, in order.
\<close>

text \<open>One tick with room in the channel and something in the buffer.\<close>

lemma one_tick:
  assumes "txBuffer c \<noteq> []" and "length (ch_values (blockCh c)) < ch_cap (blockCh c)"
    and "\<forall>tx\<in>set (txBuffer c). length tx \<le> BlockSize Config"
  obtains b where "ch_values (blockCh (snd (createBlock blake now el c))) = ch_values (blockCh c) @ [b]"
    "ch_cap (blockCh (snd (createBlock blake now el c))) = ch_cap (blockCh c)"
    "b_height b = blockHeight c" "blockHeight (snd (createBlock blake now el c)) = blockHeight c + 1"
    "elems (b_transactions b) @ txBuffer (snd (createBlock blake now el c)) = txBuffer c"
    "length (txBuffer (snd (createBlock blake now el c))) < length (txBuffer c)"
proof -
  obtain err c' where run: "createBlock blake now el c = (err, c')" by (cases "createBlock blake now el c") auto
  note f = createBlock_fields [OF assms(1) run]
  let ?txs = "take_fitting (BlockSize Config) 0 (txBuffer c)"
  obtain tx txs where tx: "txBuffer c = tx # txs" using assms(1) by (cases "txBuffer c") auto
  have "?txs \<noteq> []" using assms(3) tx by simp
  then have "length (txBuffer c') < length (txBuffer c)" using f(1) assms(1) by (cases ?txs) auto
  moreover have "?txs @ txBuffer c' = txBuffer c" unfolding f(1) by (rule take_fitting_prefix)
  moreover have "ch_values (blockCh c') = ch_values (blockCh c) @ [next_block blake now c]" using f(10) assms(2) by auto
  ultimately show thesis using that [of "next_block blake now c"] f(2) f(11) run by simp
qed

lemma ticks_spec:
  assumes "length (ch_values (blockCh c)) + n \<le> ch_cap (blockCh c)"
    and "\<forall>tx\<in>set (txBuffer c). length tx \<le> BlockSize Config"
  shows "\<exists>bs. ch_values (blockCh (tx_run blake c (replicate n (BlockTick now el))))
                 = ch_values (blockCh c) @ bs
     \<and> block_txs bs @ txBuffer (tx_run blake c (replicate n (BlockTick now el))) = txBuffer c
     \<and> length (txBuffer (tx_run blake c (replicate n (BlockTick now el)))) \<le> length (txBuffer c) - n
     \<and> map b_height bs = map (\<lambda>i. blockHeight c + of_nat i) [0..<length bs]
     \<and> blockHeight (tx_run blake c (replicate n (BlockTick now el))) = blockHeight c + of_nat (length bs)"
  using assms
proof (induction n arbitrary: c)
  case 0
  show ?case by (intro exI [of _ "[]"]) (simp add: block_txs_def)
next
  case (Suc n)
  show ?case
  proof (cases "txBuffer c = []")
    case True
    then show ?thesis using Suc.IH [of c] Suc.prems by (simp add: createBlock_idle)
  next
    case ne: False
    let ?c = "snd (createBlock blake now el c)"
    have room: "length (ch_values (blockCh c)) < ch_cap (blockCh c)" using Suc.prems(1) by simp
    obtain b where one: "ch_values (blockCh ?c) = ch_values (blockCh c) @ [b]" "ch_cap (blockCh ?c) = ch_cap (blockCh c)"
      "b_height b = blockHeight c" "blockHeight ?c = blockHeight c + 1" "elems (b_transactions b) @ txBuffer ?c = txBuffer c"
      "length (txBuffer ?c) < length (txBuffer c)"
      by (rule one_tick [OF ne room Suc.prems(2)])
    have "length (ch_values (blockCh ?c)) + n \<le> ch_cap (blockCh ?c)" using one(1,2) Suc.prems(1) by simp
    moreover have "\<forall>tx\<in>set (txBuffer ?c). length tx \<le> BlockSize Config"
      using Suc.prems(2) one(5) by (metis UnCI set_append)
    ultimately obtain bs where bs:
      "ch_values (blockCh (tx_run blake ?c (replicate n (BlockTick now el)))) = ch_values (blockCh ?c) @ bs"
      "block_txs bs @ txBuffer (tx_run blake ?c (replicate n (BlockTick now el))) = txBuffer ?c"
      "length (txBuffer (tx_run blake ?c (replicate n (BlockTick now el)))) \<le> length (txBuffer ?c) - n"
      "map b_height bs = map (\<lambda>i. blockHeight ?c + of_nat i) [0..<length bs]"
      "blockHeight (tx_run blake ?c (replicate n (BlockTick now el))) = blockHeight ?c + of_nat (length bs)"
      using Suc.IH [of ?c] by blast
    have "map b_height (b # bs) = map (\<lambda>i. blockHeight c + of_nat i) [0..<length (b # bs)]"
      using bs(4) one(3,4) by (simp add: upt_conv_Cons map_Suc_upt [symmetric] comp_def add.assoc del: upt_Suc)
    moreover have "block_txs (b # bs) @ txBuffer (tx_run blake ?c (replicate n (BlockTick now el))) = txBuffer c"
      using bs(2) one(5) by (simp add: block_txs_def)
    ultimately show ?thesis
      using bs(1,3,5) one by (intro exI [of _ "b # bs"]) simp
  qed
qed

text \<open>
  C8. With room in the block channel and no transaction above the block size, as many
  block ticks as there are buffered transactions put all of them, in order, into blocks of
  consecutive heights on the channel.
\<close>

theorem ticks_drain_buffer:
  assumes "\<forall>tx\<in>set (txBuffer c). length tx \<le> BlockSize Config"
    and "length (ch_values (blockCh c)) + length (txBuffer c) \<le> ch_cap (blockCh c)"
  shows "let c' = tx_run blake c (replicate (length (txBuffer c)) (BlockTick now el))
         in txBuffer c' = []
          \<and> (\<exists>bs. ch_values (blockCh c') = ch_values (blockCh c) @ bs \<and> block_txs bs = txBuffer c
               \<and> map b_height bs = map (\<lambda>i. blockHeight c + of_nat i) [0..<length bs])"
  using ticks_spec [OF assms(2) assms(1), of blake now el] by (auto simp: Let_def)

theorem ticks_drain_buffer_witness:
  "\<exists>bs. ch_values (blockCh (tx_run (\<lambda>x. x) (Tx_New 1 \<lparr>Validators = []\<rparr>\<lparr>txBuffer := [[1], [2]]\<rparr>)
            (replicate 2 (BlockTick zero_time 0)))) = bs \<and> block_txs bs = [[1], [2]]"
proof -
  let ?c = "Tx_New 1 \<lparr>Validators = []\<rparr>\<lparr>txBuffer := [[1], [2]]\<rparr>"
  have room: "length (ch_values (blockCh ?c)) + length (txBuffer ?c) \<le> ch_cap (blockCh ?c)"
    by (simp add: Tx_New_def DefaultChannelCapacity_def)
  have "\<forall>tx\<in>set (txBuffer ?c). length tx \<le> BlockSize Config" by (simp add: Config_def)
  from ticks_drain_buffer [OF this room, of "\<lambda>x. x" zero_time 0]
  have "\<exists>bs. ch_values (blockCh (tx_run (\<lambda>x. x) ?c (replicate (length (txBuffer ?c)) (BlockTick zero_time 0))))
      = ch_values (blockCh ?c) @ bs \<and> block_txs bs = txBuffer ?c"
    by (auto simp: Let_def)
  moreover have "length (txBuffer ?c) = 2" by simp
  moreover have "ch_values (blockCh ?c) = []" by (simp add: Tx_New_def)
  moreover have "txBuffer ?c = [[1], [2]]" by simp
  ultimately show ?thesis by (metis append_Nil)
qed

section \<open>Concurrent callers\<close>

text \<open>
  The goroutines inside \<open>AddTransaction\<close> by the step they are at (one goroutine per
  connection calls it), the goroutine of \<open>run\<close>, the reader of the block channel and
  \<open>Stop\<close>.  A goroutine that found the buffer full is at \<open>FullSeen\<close>, and at \<open>FullCounted\<close>
  between its two counters.  The last four fields are histories: the transactions appended to
  the buffer, those that found it full, the blocks created, and those that the channel took.
\<close>

datatype add_pc =
    AtStart transaction
  | Entered transaction
  | Checked transaction
  | Committed
  | FullSeen
  | FullCounted

record pool =
  p_coord :: tx_coordinator
  p_threads :: "add_pc multiset"
  p_accepted :: "transaction list"
  p_rejected :: "transaction list"
  p_created :: "block list"
  p_sent :: "block list"

definition pool_init :: "node_id \<Rightarrow> committee \<Rightarrow> pool \<Rightarrow> bool" where
  "pool_init nodeID com p \<longleftrightarrow>
     p = \<lparr>p_coord = Tx_New nodeID com, p_threads = {#}, p_accepted = [], p_rejected = [],
          p_created = [], p_sent = []\<rparr>"

inductive pool_step :: "(byte list \<Rightarrow> byte list) \<Rightarrow> pool \<Rightarrow> pool \<Rightarrow> bool"
  for blake :: "byte list \<Rightarrow> byte list" where
  step_call: "pool_step blake p (p\<lparr>p_threads := add_mset (AtStart tx) (p_threads p)\<rparr>)"
| step_skip: "p_threads p = add_mset (AtStart tx) T \<Longrightarrow> tc_done (p_coord p)
    \<Longrightarrow> pool_step blake p (p\<lparr>p_threads := T\<rparr>)"
| step_enter: "p_threads p = add_mset (AtStart tx) T \<Longrightarrow> \<not> tc_done (p_coord p)
    \<Longrightarrow> pool_step blake p (p\<lparr>p_threads := add_mset (Entered tx) T\<rparr>)"
| step_check: "p_threads p = add_mset (Entered tx) T \<Longrightarrow> add_check waited (p_coord p) = (ok, c)
    \<Longrightarrow> pool_step blake p
          (p\<lparr>p_coord := c, p_threads := add_mset (if ok then Checked tx else FullSeen) T,
             p_rejected := if ok then p_rejected p else p_rejected p @ [tx]\<rparr>)"
| step_commit: "p_threads p = add_mset (Checked tx) T
    \<Longrightarrow> add_commit waited appendTime tx (p_coord p) = (ok, c)
    \<Longrightarrow> pool_step blake p
          (p\<lparr>p_coord := c, p_threads := add_mset (if ok then Committed else FullSeen) T,
             p_accepted := if ok then p_accepted p @ [tx] else p_accepted p,
             p_rejected := if ok then p_rejected p else p_rejected p @ [tx]\<rparr>)"
| step_full: "p_threads p = add_mset FullSeen T
    \<Longrightarrow> pool_step blake p (p\<lparr>p_coord := count_buffer_full (p_coord p), p_threads := add_mset FullCounted T\<rparr>)"
| step_dropped: "p_threads p = add_mset FullCounted T
    \<Longrightarrow> pool_step blake p (p\<lparr>p_coord := count_dropped (p_coord p), p_threads := T\<rparr>)"
| step_finish: "p_threads p = add_mset Committed T
    \<Longrightarrow> pool_step blake p (p\<lparr>p_coord := add_finish elapsed (p_coord p), p_threads := T\<rparr>)"
| step_tick: "createBlock blake now elapsed (p_coord p) = (err, c)
    \<Longrightarrow> made = (if txBuffer (p_coord p) = [] then [] else [next_block blake now (p_coord p)])
    \<Longrightarrow> pool_step blake p
          (p\<lparr>p_coord := c, p_created := p_created p @ made,
             p_sent := p_sent p @ (if err = None then made else [])\<rparr>)"
| step_metrics: "printMetrics now (p_coord p) = (avgs, c) \<Longrightarrow> pool_step blake p (p\<lparr>p_coord := c\<rparr>)"
| step_consume: "chan_recv (blockCh (p_coord p)) = Some (block, ch)
    \<Longrightarrow> pool_step blake p (p\<lparr>p_coord := (p_coord p)\<lparr>blockCh := ch\<rparr>\<rparr>)"
| step_stop: "pool_step blake p (p\<lparr>p_coord := (p_coord p)\<lparr>tc_done := True\<rparr>\<rparr>)"

text \<open>
  The invariant: the buffer stays within its bound although the check and the append are
  under different locks; every accepted transaction is in exactly one created block or still
  in the buffer, in the order of acceptance; the heights count up from 0; the channel holds
  the last blocks sent; and the counters agree with the histories (mod $2^{64}$), up to the
  goroutines that have not come to them.
\<close>

definition pool_ok :: "pool \<Rightarrow> bool" where
  "pool_ok p \<longleftrightarrow>
     (let c = p_coord p; m = metrics c in
        bufferSize c = 100000 \<and> length (txBuffer c) \<le> 100000
      \<and> chan_ok (blockCh c) \<and> ch_cap (blockCh c) = DefaultChannelCapacity
      \<and> p_accepted p = block_txs (p_created p) @ txBuffer c
      \<and> map b_height (p_created p) = map of_nat [0..<length (p_created p)]
      \<and> blockHeight c = of_nat (length (p_created p))
      \<and> subseq (p_sent p) (p_created p) \<and> (\<exists>taken. p_sent p = taken @ ch_values (blockCh c))
      \<and> m_blockCount m = of_nat (length (p_created p))
      \<and> m_droppedBlockCount m + of_nat (length (p_sent p)) = m_blockCount m
      \<and> m_txProcessedCount m = of_nat (length (block_txs (p_created p)))
      \<and> m_txReceivedCount m + of_nat (count (p_threads p) Committed) = of_nat (length (p_accepted p))
      \<and> m_bufferFullCount m + of_nat (count (p_threads p) FullSeen) = of_nat (length (p_rejected p))
      \<and> m_txDroppedCount m + of_nat (count (p_threads p) FullCounted) = m_bufferFullCount m)"

lemma add_check_fields:
  assumes "add_check waited c = (ok, c')"
  shows "ok \<longleftrightarrow> int (length (txBuffer c)) < bufferSize c"
    and "c' = c\<lparr>metrics := metrics c'\<rparr>"
    and "m_txReceivedCount (metrics c') = m_txReceivedCount (metrics c)"
    and "m_txProcessedCount (metrics c') = m_txProcessedCount (metrics c)"
    and "m_blockCount (metrics c') = m_blockCount (metrics c)"
    and "m_droppedBlockCount (metrics c') = m_droppedBlockCount (metrics c)"
    and "m_txDroppedCount (metrics c') = m_txDroppedCount (metrics c)"
    and "m_bufferFullCount (metrics c') = m_bufferFullCount (metrics c)"
  using assms by (auto simp: add_check_def upd_metrics_def Let_def split: if_splits)

lemma add_commit_fields:
  assumes "add_commit waited appendTime tx c = (ok, c')"
  shows "ok \<longleftrightarrow> int (length (txBuffer c)) < bufferSize c"
    and "c' = c\<lparr>metrics := metrics c', txBuffer := txBuffer c @ (if ok then [tx] else [])\<rparr>"
    and "m_txReceivedCount (metrics c') = m_txReceivedCount (metrics c)"
    and "m_txProcessedCount (metrics c') = m_txProcessedCount (metrics c)"
    and "m_blockCount (metrics c') = m_blockCount (metrics c)"
    and "m_droppedBlockCount (metrics c') = m_droppedBlockCount (metrics c)"
    and "m_txDroppedCount (metrics c') = m_txDroppedCount (metrics c)"
    and "m_bufferFullCount (metrics c') = m_bufferFullCount (metrics c)"
  using assms by (auto simp: add_commit_def upd_metrics_def Let_def split: if_splits)

lemma add_finish_fields:
  "txBuffer (add_finish el c) = txBuffer c" "bufferSize (add_finish el c) = bufferSize c"
  "blockCh (add_finish el c) = blockCh c" "blockHeight (add_finish el c) = blockHeight c"
  "m_txReceivedCount (metrics (add_finish el c)) = m_txReceivedCount (metrics c) + 1"
  "m_txProcessedCount (metrics (add_finish el c)) = m_txProcessedCount (metrics c)"
  "m_blockCount (metrics (add_finish el c)) = m_blockCount (metrics c)"
  "m_droppedBlockCount (metrics (add_finish el c)) = m_droppedBlockCount (metrics c)"
  "m_txDroppedCount (metrics (add_finish el c)) = m_txDroppedCount (metrics c)"
  "m_bufferFullCount (metrics (add_finish el c)) = m_bufferFullCount (metrics c)"
  "txBufferSize (add_finish el c) = of_nat (length (txBuffer c))"
  by (simp_all add: add_finish_def upd_metrics_def Let_def)

lemma pool_ok_check:
  assumes "pool_ok p" and "p_threads p = add_mset (Entered tx) T"
    and "add_check waited (p_coord p) = (ok, c)"
  shows "pool_ok (p\<lparr>p_coord := c, p_threads := add_mset (if ok then Checked tx else FullSeen) T,
             p_rejected := if ok then p_rejected p else p_rejected p @ [tx]\<rparr>)"
proof -
  note f = add_check_fields [OF assms(3)]
  have "txBuffer c = txBuffer (p_coord p)" "bufferSize c = bufferSize (p_coord p)"
    "blockCh c = blockCh (p_coord p)" "blockHeight c = blockHeight (p_coord p)"
    by (subst f(2), simp)+
  then show ?thesis using assms(1,2) f(3-8) by (auto simp: pool_ok_def Let_def algebra_simps)
qed

lemma pool_ok_commit:
  assumes "pool_ok p" and "p_threads p = add_mset (Checked tx) T"
    and "add_commit waited appendTime tx (p_coord p) = (ok, c)"
  shows "pool_ok (p\<lparr>p_coord := c, p_threads := add_mset (if ok then Committed else FullSeen) T,
             p_accepted := if ok then p_accepted p @ [tx] else p_accepted p,
             p_rejected := if ok then p_rejected p else p_rejected p @ [tx]\<rparr>)"
proof -
  note f = add_commit_fields [OF assms(3)]
  have "txBuffer c = txBuffer (p_coord p) @ (if ok then [tx] else [])"
    "bufferSize c = bufferSize (p_coord p)"
    "blockCh c = blockCh (p_coord p)" "blockHeight c = blockHeight (p_coord p)"
    by (subst f(2), simp)+
  then show ?thesis using assms(1,2) f(1,3-8) by (auto simp: pool_ok_def Let_def algebra_simps)
qed

lemma pool_ok_tick:
  assumes "pool_ok p" and "createBlock blake now elapsed (p_coord p) = (err, c)"
    and "made = (if txBuffer (p_coord p) = [] then [] else [next_block blake now (p_coord p)])"
  shows "pool_ok (p\<lparr>p_coord := c, p_created := p_created p @ made,
             p_sent := p_sent p @ (if err = None then made else [])\<rparr>)"
proof (cases "txBuffer (p_coord p) = []")
  case True
  then show ?thesis using assms by (auto simp: createBlock_idle pool_ok_def)
next
  case ne: False
  note f = createBlock_fields [OF ne assms(2)]
  let ?txs = "take_fitting (BlockSize Config) 0 (txBuffer (p_coord p))"
  have made: "made = [next_block blake now (p_coord p)]" using ne assms(3) by simp
  have split: "?txs @ txBuffer c = txBuffer (p_coord p)"
    unfolding f(1) by (rule take_fitting_prefix)
  note ok = assms(1) [unfolded pool_ok_def Let_def]
  have len: "length (txBuffer c) \<le> length (txBuffer (p_coord p))" using f(1) by simp
  have txs: "block_txs (p_created p @ made) = block_txs (p_created p) @ ?txs"
    by (simp add: made block_txs_def)
  have acc: "p_accepted p = block_txs (p_created p @ made) @ txBuffer c"
    using ok split txs by simp
  have processed: "m_txProcessedCount (metrics c) = of_nat (length (block_txs (p_created p @ made)))"
    using ok f(7) txs by simp
  have buf: "txBuffer (p_coord p) = block_txs [next_block blake now (p_coord p)] @ txBuffer c"
    using split by (simp add: block_txs_def)
  have hts: "map b_height (p_created p @ made) = map of_nat [0..<length (p_created p @ made)]"
    using ok by (simp add: made)
  show ?thesis
  proof (cases "err = None")
    case True
    have sent: "subseq (p_sent p @ made) (p_created p @ made)"
      using ok by (simp add: list_emb_append_mono)
    obtain taken where "p_sent p = taken @ ch_values (blockCh (p_coord p))" using ok by blast
    then have "\<exists>taken. p_sent p @ made = taken @ ch_values (blockCh c)"
      using f(10) True made by simp
    moreover have "chan_ok (blockCh c)" using f(10,11) True by (auto simp: chan_ok_def)
    ultimately show ?thesis
      using ok f(2-6,8-11) len sent acc processed hts True buf
      unfolding pool_ok_def Let_def by (simp add: made)
  next
    case False
    have sent: "subseq (p_sent p) (p_created p @ made)"
      using ok by (simp add: subseq_rev_drop_many)
    have "blockCh c = blockCh (p_coord p)" using f(10) False by simp
    then show ?thesis
      using ok f(2-6,8-10) len sent acc processed hts False buf
      unfolding pool_ok_def Let_def by (simp add: made)
  qed
qed

lemma pool_step_ok:
  assumes "pool_step blake p q" and "pool_ok p"
  shows "pool_ok q"
  using assms
proof (cases rule: pool_step.cases)
  case step_check
  then show ?thesis using pool_ok_check assms(2) by simp
next
  case step_commit
  then show ?thesis using pool_ok_commit assms(2) by simp
next
  case step_tick
  then show ?thesis using pool_ok_tick assms(2) by blast
next
  case step_finish
  then show ?thesis using assms(2) by (simp add: pool_ok_def Let_def add_finish_fields algebra_simps)
next
  case step_full
  then show ?thesis using assms(2)
    by (auto simp: pool_ok_def Let_def count_buffer_full_def upd_metrics_def algebra_simps)
next
  case step_dropped
  then show ?thesis using assms(2)
    by (auto simp: pool_ok_def Let_def count_dropped_def upd_metrics_def algebra_simps)
next
  case step_metrics
  then show ?thesis using assms(2)
    by (auto simp: pool_ok_def Let_def printMetrics_def upd_metrics_def)
next
  case (step_consume block ch)
  have "chan_ok ch" using chan_ok_recv step_consume assms(2) by (auto simp: pool_ok_def Let_def)
  moreover have "ch_values (blockCh (p_coord p)) = block # ch_values ch"
    by (rule chan.contents_get) (fact step_consume)
  moreover have "ch_cap ch = ch_cap (blockCh (p_coord p))"
    by (rule chan.capacity_get) (fact step_consume)
  ultimately show ?thesis using step_consume assms(2) by (auto simp: pool_ok_def Let_def)
qed (auto simp: pool_ok_def Let_def)

interpretation pool_inv: inductive_invariant "pool_init nodeID com" "pool_step blake" pool_ok
proof
  show "pool_ok p" if "pool_init nodeID com p" for p
    using that by (simp add: pool_init_def pool_ok_def Let_def Tx_New_def zero_metrics_def block_txs_def)
  show "pool_ok q" if "pool_ok p" "pool_step blake p q" for p q
    using pool_step_ok that by blast
qed

text \<open>
  C5. In every interleaving of concurrent AddTransaction calls, block ticks, metrics ticks
  and readers of the block channel: the buffer stays within its 100000 entries, every
  accepted transaction is in exactly one created block or still buffered, in order of
  acceptance, heights count up from 0, and the counters agree with what happened.
\<close>

theorem pool_reachable_ok:
  assumes "reach (pool_init nodeID com) (pool_step blake) p"
  shows "pool_ok p"
  using assms by (rule pool_inv.reach_inv)

text \<open>One call up to its append, as a run of the system.\<close>

lemma pool_run_one:
  "\<exists>c. reach (pool_init 1 \<lparr>Validators = []\<rparr>) (pool_step (\<lambda>x. x))
         \<lparr>p_coord = c, p_threads = {#Committed#}, p_accepted = [[7]], p_rejected = [], p_created = [], p_sent = []\<rparr>
     \<and> txBuffer c = [[7]]"
proof -
  let ?com = "\<lparr>Validators = []\<rparr>"
  let ?c0 = "Tx_New 1 ?com"
  define c1 where "c1 = snd (add_check 5 ?c0)"
  define c2 where "c2 = snd (add_commit 3 2 [7] c1)"
  let ?p0 = "\<lparr>p_coord = ?c0, p_threads = {#}, p_accepted = [], p_rejected = [],
      p_created = [], p_sent = []\<rparr>"
  let ?S = "pool_step (\<lambda>x. x)" and ?I = "pool_init 1 ?com"
  have r0: "reach ?I ?S ?p0" by (rule reach_init) (simp add: pool_init_def)
  have s1: "?S ?p0 (?p0\<lparr>p_threads := {#AtStart [7]#}\<rparr>)"
    using step_call [of "\<lambda>x. x" ?p0 "[7]"] by simp
  have s2: "?S (?p0\<lparr>p_threads := {#AtStart [7]#}\<rparr>) (?p0\<lparr>p_threads := {#Entered [7]#}\<rparr>)"
    using step_enter [of "?p0\<lparr>p_threads := {#AtStart [7]#}\<rparr>" "[7]" "{#}"] by (simp add: Tx_New_def)
  have c1: "add_check 5 ?c0 = (True, c1)"
    by (simp add: c1_def add_check_def upd_metrics_def Tx_New_def Let_def)
  have s3: "?S (?p0\<lparr>p_threads := {#Entered [7]#}\<rparr>) (?p0\<lparr>p_coord := c1, p_threads := {#Checked [7]#}\<rparr>)"
    using step_check [of "?p0\<lparr>p_threads := {#Entered [7]#}\<rparr>" "[7]" "{#}" 5 True c1] c1 by simp
  have c2: "add_commit 3 2 [7] c1 = (True, c2)"
    by (simp add: c2_def c1_def add_commit_def add_check_def upd_metrics_def Tx_New_def Let_def)
  let ?p4 = "?p0\<lparr>p_coord := c2, p_threads := {#Committed#}, p_accepted := [[7]]\<rparr>"
  have s4: "?S (?p0\<lparr>p_coord := c1, p_threads := {#Checked [7]#}\<rparr>) ?p4"
    using step_commit [of "?p0\<lparr>p_coord := c1, p_threads := {#Checked [7]#}\<rparr>" "[7]" "{#}" 3 2 True c2] c2
    by simp
  have "reach ?I ?S ?p4"
    by (rule reach_step [OF reach_step [OF reach_step [OF reach_step [OF r0 s1] s2] s3] s4])
  moreover have "txBuffer c2 = [[7]]"
    by (simp add: c2_def c1_def add_commit_def add_check_def upd_metrics_def Tx_New_def Let_def)
  ultimately show ?thesis by (intro exI [of _ c2]) simp
qed

theorem pool_reachable_ok_witness:
  "\<exists>p. p_accepted p = [[7]] \<and> p_threads p = {#Committed#} \<and> pool_ok p"
  using pool_run_one pool_reachable_ok by (metis pool.select_convs(2,3))

text \<open>
  C39. Whenever no AddTransaction call is in progress the received counter minus the
  processed counter is the number of buffered transactions, also after the counters have
  wrapped around.
\<close>

theorem pool_metrics_exact:
  assumes "reach (pool_init nodeID com) (pool_step blake) p" and "p_threads p = {#}"
  shows "unat (TxReceivedCount (GetMetrics (p_coord p)) - TxProcessedCount (GetMetrics (p_coord p)))
           = length (txBuffer (p_coord p))"
proof -
  have "pool_ok p" using assms(1) by (rule pool_inv.reach_inv)
  then have "m_txReceivedCount (metrics (p_coord p)) - m_txProcessedCount (metrics (p_coord p))
      = of_nat (length (txBuffer (p_coord p)))" and "length (txBuffer (p_coord p)) \<le> 100000"
    using assms(2) by (simp_all add: pool_ok_def Let_def)
  then show ?thesis by (simp add: GetMetrics_def unat_of_nat64)
qed

theorem pool_metrics_exact_witness:
  "\<exists>c. txBuffer c = [[7]] \<and> unat (TxReceivedCount (GetMetrics c) - TxProcessedCount (GetMetrics c)) = 1"
proof -
  obtain c where c: "reach (pool_init 1 \<lparr>Validators = []\<rparr>) (pool_step (\<lambda>x. x))
         \<lparr>p_coord = c, p_threads = {#Committed#}, p_accepted = [[7]], p_rejected = [], p_created = [], p_sent = []\<rparr>"
    and tx: "txBuffer c = [[7]]" using pool_run_one by blast
  from pool_metrics_exact [OF reach_step [OF c step_finish [where T = "{#}"]]]
  have "unat (TxReceivedCount (GetMetrics (add_finish 0 c)) - TxProcessedCount (GetMetrics (add_finish 0 c))) = 1"
    by (simp add: add_finish_fields tx)
  then show ?thesis using tx add_finish_fields(1) by (intro exI [of _ "add_finish 0 c"]) simp
qed

text \<open>A call that nothing interleaves with, on every branch.\<close>

theorem AddTransaction_effect:
  "let c' = AddTransaction w1 w2 at el c tx; m = metrics c; m' = metrics c'
   in if tc_done c then c' = c
      else if bufferSize c \<le> int (length (txBuffer c))
      then txBuffer c' = txBuffer c \<and> m_txDroppedCount m' = m_txDroppedCount m + 1
         \<and> m_bufferFullCount m' = m_bufferFullCount m + 1
         \<and> m_txReceivedCount m' = m_txReceivedCount m \<and> blockCh c' = blockCh c
      else txBuffer c' = txBuffer c @ [tx] \<and> m_txReceivedCount m' = m_txReceivedCount m + 1
         \<and> m_txDroppedCount m' = m_txDroppedCount m \<and> txBufferSize c' = of_nat (length (txBuffer c'))
         \<and> m_lockWaitTime m' = m_lockWaitTime m + w1 + w2 \<and> blockCh c' = blockCh c"
  by (simp add: AddTransaction_def add_check_def add_commit_def add_finish_def upd_metrics_def
      count_full_def count_buffer_full_def count_dropped_def Let_def)

lemma getBufferSize_bounds:
  "0 \<le> head c \<Longrightarrow> head c \<le> bufferSize c \<Longrightarrow> 0 \<le> tail c \<Longrightarrow> tail c < bufferSize c
    \<Longrightarrow> 0 \<le> getBufferSize c \<and> getBufferSize c < bufferSize c"
  by (auto simp: getBufferSize_def)

text \<open>A sequence of messages fills the buffer up to its size.\<close>

lemma Tx_HandleMessage_buffer:
  "\<not> tc_done c \<Longrightarrow> txBuffer (Tx_HandleMessage w1 w2 t1 t2 c m) =
     (if bufferSize c \<le> int (length (txBuffer c)) then txBuffer c else txBuffer c @ [m])"
  "tc_done (Tx_HandleMessage w1 w2 t1 t2 c m) = tc_done c"
  "bufferSize (Tx_HandleMessage w1 w2 t1 t2 c m) = bufferSize c"
  by (simp_all add: Tx_HandleMessage_def AddTransaction_def add_check_def add_commit_def add_finish_def
      upd_metrics_def count_full_def count_buffer_full_def count_dropped_def Let_def)

lemma receive_all:
  "\<not> tc_done c \<Longrightarrow> int (length (txBuffer c)) \<le> bufferSize c
    \<Longrightarrow> txBuffer (foldl (Tx_HandleMessage w1 w2 t1 t2) c ms) = take (nat (bufferSize c)) (txBuffer c @ ms)"
proof (induction ms arbitrary: c)
  case Nil
  then show ?case by simp
next
  case (Cons m ms)
  have "txBuffer (foldl (Tx_HandleMessage w1 w2 t1 t2) (Tx_HandleMessage w1 w2 t1 t2 c m) ms)
      = take (nat (bufferSize c)) (txBuffer (Tx_HandleMessage w1 w2 t1 t2 c m) @ ms)"
    using Cons.IH [of "Tx_HandleMessage w1 w2 t1 t2 c m"] Cons.prems by (simp add: Tx_HandleMessage_buffer)
  then show ?case
    using Cons.prems by (auto simp: Tx_HandleMessage_buffer take_Cons')
qed

end
