(* ===== verification/Network_Buffers.thy ===== *)
theory Network_Buffers
  imports Network_Receiver
begin

text \<open>
  The buffers of received messages: pkg/network/network.go takes a buffer from a
  \<open>sync.Pool\<close>, reads the message into it, hands it to the handler and puts it back when the
  handler has returned.  The handler of pkg/transaction/transaction.go keeps the slice it is
  given (the conversion to \<open>Transaction\<close> does not copy), so the store is explicit here: a
  buffer is an address, a transaction in the coordinator's buffer a slice, that is an
  address and a length.

  \<open>sync.Pool\<close> may return any buffer it holds, or make a new one: that choice is the
  argument \<open>reuse\<close>.
\<close>

record rx_store =
  rx_mem :: "nat \<Rightarrow> byte list"
  rx_pool :: "nat list"
  rx_next :: nat
  rx_txBuffer :: "(nat \<times> nat) list"

definition rx_init :: rx_store where
  "rx_init = \<lparr>rx_mem = (\<lambda>_. []), rx_pool = [], rx_next = 0, rx_txBuffer = []\<rparr>"

definition pool_get :: "nat option \<Rightarrow> rx_store \<Rightarrow> nat \<times> rx_store" where
  "pool_get reuse s =
     (case reuse of
        Some a \<Rightarrow> if a \<in> set (rx_pool s) then (a, s\<lparr>rx_pool := remove1 a (rx_pool s)\<rparr>)
                  else (rx_next s, s\<lparr>rx_next := rx_next s + 1,
                                     rx_mem := (rx_mem s)(rx_next s := replicate MaxMessageSize 0)\<rparr>)
      | None \<Rightarrow> (rx_next s, s\<lparr>rx_next := rx_next s + 1,
                              rx_mem := (rx_mem s)(rx_next s := replicate MaxMessageSize 0)\<rparr>))"

definition pool_put :: "nat \<Rightarrow> rx_store \<Rightarrow> rx_store" where
  "pool_put a s = s\<lparr>rx_pool := rx_pool s @ [a]\<rparr>"

text \<open>A message that is read into the buffer and added to the transaction buffer.\<close>

definition receive_tx :: "nat option \<Rightarrow> byte list \<Rightarrow> rx_store \<Rightarrow> rx_store" where
  "receive_tx reuse data s =
     (case pool_get reuse s of
        (a, s1) \<Rightarrow>
          let s2 = s1\<lparr>rx_mem := (rx_mem s1)(a := go_copy (rx_mem s1 a) data)\<rparr>;
              s3 = s2\<lparr>rx_txBuffer := rx_txBuffer s2 @ [(a, length data)]\<rparr>
          in pool_put a s3)"

text \<open>The transactions of the buffer as a reader sees them now.\<close>

definition buffered :: "rx_store \<Rightarrow> byte list list" where
  "buffered s = map (\<lambda>(a, n). take n (rx_mem s a)) (rx_txBuffer s)"

definition rx_ok :: "rx_store \<Rightarrow> bool" where
  "rx_ok s \<longleftrightarrow> (\<forall>a<rx_next s. length (rx_mem s a) = MaxMessageSize)
     \<and> (\<forall>a\<in>set (rx_pool s). a < rx_next s)
     \<and> (\<forall>(a, n)\<in>set (rx_txBuffer s). a < rx_next s \<and> n \<le> MaxMessageSize)"

lemma rx_ok_init: "rx_ok rx_init"
  by (simp add: rx_ok_def rx_init_def)

lemma buffered_fresh:
  assumes "rx_ok s" and "length data \<le> MaxMessageSize"
  shows "buffered (receive_tx None data s) = buffered s @ [data] \<and> rx_ok (receive_tx None data s)"
proof -
  let ?a = "rx_next s" and ?s = "receive_tx None data s"
  have mem: "rx_mem ?s = (rx_mem s)(?a := go_copy (replicate MaxMessageSize 0) data)"
    and tx: "rx_txBuffer ?s = rx_txBuffer s @ [(?a, length data)]"
    and pool: "rx_pool ?s = rx_pool s @ [?a]" and nxt: "rx_next ?s = rx_next s + 1"
    by (simp_all add: receive_tx_def pool_get_def pool_put_def Let_def)
  have "\<forall>(a, n)\<in>set (rx_txBuffer s). take n (rx_mem ?s a) = take n (rx_mem s a)"
    using assms(1) mem by (auto simp: rx_ok_def)
  then have "buffered ?s = buffered s @ [data]"
    using assms(2) mem tx by (auto simp: buffered_def go_copy_def)
  moreover have "rx_ok ?s"
    using assms mem tx pool nxt by (fastforce simp: rx_ok_def less_Suc_eq)
  ultimately show ?thesis by simp
qed

text \<open>Without reuse the buffer holds what was received.\<close>

theorem fresh_buffers_keep_transactions:
  assumes "\<forall>d\<in>set ds. length d \<le> MaxMessageSize"
  shows "buffered (fold (receive_tx None) ds rx_init) = ds"
proof -
  have "rx_ok s \<Longrightarrow> \<forall>d\<in>set ds. length d \<le> MaxMessageSize \<Longrightarrow>
      buffered (fold (receive_tx None) ds s) = buffered s @ ds" for s ds
    using buffered_fresh by (induction ds arbitrary: s) auto
  from this [OF rx_ok_init assms] show ?thesis by (simp add: buffered_def rx_init_def)
qed

theorem fresh_buffers_keep_transactions_witness:
  "buffered (fold (receive_tx None) [[1, 2], [3]] rx_init) = [[1, 2], [3]]"
  using fresh_buffers_keep_transactions [of "[[1, 2], [3]]"] by (simp add: MaxMessageSize_def)

text \<open>
  C34. When the buffer pool gives the buffer of a handled transaction to the next message,
  that message overwrites the transaction that is still buffered.
\<close>

theorem reused_buffer_overwrites_transaction:
  assumes "rx_ok s" and "length d1 \<le> MaxMessageSize" and "length d2 \<le> MaxMessageSize"
  shows "buffered (receive_tx (Some (rx_next s)) d2 (receive_tx None d1 s))
     = buffered s @ [go_copy d1 d2, d2]"
proof -
  let ?a = "rx_next s" and ?s = "receive_tx None d1 s"
  let ?t = "receive_tx (Some ?a) d2 ?s"
  have mem1: "rx_mem ?s = (rx_mem s)(?a := go_copy (replicate MaxMessageSize 0) d1)"
    and tx1: "rx_txBuffer ?s = rx_txBuffer s @ [(?a, length d1)]" and pool1: "?a \<in> set (rx_pool ?s)"
    by (simp_all add: receive_tx_def pool_get_def pool_put_def Let_def)
  have mem: "rx_mem ?t = (rx_mem s)(?a := go_copy (go_copy (replicate MaxMessageSize 0) d1) d2)"
    and tx: "rx_txBuffer ?t = rx_txBuffer s @ [(?a, length d1), (?a, length d2)]"
    using mem1 tx1 pool1
    by (simp_all add: receive_tx_def [of "Some ?a"] pool_get_def pool_put_def Let_def)
  have "\<forall>(a, n)\<in>set (rx_txBuffer s). take n (rx_mem ?t a) = take n (rx_mem s a)"
    using assms(1) mem by (auto simp: rx_ok_def)
  moreover have "take (length d1) (go_copy (go_copy (replicate MaxMessageSize 0) d1) d2) = go_copy d1 d2"
    using assms(2,3) by (simp add: go_copy_def min_def drop_take)
  moreover have "take (length d2) (go_copy (go_copy (replicate MaxMessageSize 0) d1) d2) = d2"
    using assms(3) by (simp add: go_copy_def)
  ultimately show ?thesis
    using mem tx by (auto simp: buffered_def)
qed

theorem reused_buffer_overwrites_transaction_witness:
  "buffered (receive_tx (Some 0) [7, 8] (receive_tx None [1, 2] rx_init)) = [[7, 8], [7, 8]]"
  using reused_buffer_overwrites_transaction [OF rx_ok_init, of "[1, 2]" "[7, 8]"]
  by (simp add: MaxMessageSize_def rx_init_def buffered_def go_copy_def)

end
