(* ===== verification/Node.thy ===== *)
theory Node
  imports Consensus_State Consensus_Coordinator Transaction_Coordinator Network_Buffers
begin

text \<open>
  pkg/node/node.go and cmd/node/main.go: a node is made of the three coordinators and the
  goroutines that carry blocks and vertices between them.

  A coordinator pointer that is nil is \<open>None\<close>.  The values the environment gives to
  \<open>New\<close> and \<open>Start\<close> (clock readings, results of \<open>net.Listen\<close>) are arguments.
  \<open>log.Fatalf\<close> ends the process: \<open>Panic\<close> stands for that too.
\<close>

section \<open>The transaction coordinator as a service\<close>

record tx_service =
  ts_coord :: tx_coordinator
  ts_receiver :: "receiver option"
  ts_sender :: "sender option"

definition tx_service_new :: "node_id \<Rightarrow> committee \<Rightarrow> tx_service" where
  "tx_service_new nodeID com = \<lparr>ts_coord = Tx_New nodeID com, ts_receiver = None, ts_sender = None\<rparr>"

definition Tx_Start :: "bool \<Rightarrow> tx_service \<Rightarrow> start_error option \<times> tx_service" where
  "Tx_Start listen_ok t =
     (case GetTxReceiverAddress (tc_committee (ts_coord t)) (tc_nodeID (ts_coord t)) of
        None \<Rightarrow> (Some NoAddress, t)
      | Some addr \<Rightarrow>
          (case Receiver_Start listen_ok (NewReceiver addr) of
             (False, r) \<Rightarrow> (Some ListenFailed, t\<lparr>ts_receiver := Some r\<rparr>)
           | (True, r) \<Rightarrow> (None, t\<lparr>ts_receiver := Some r, ts_sender := Some NewSender\<rparr>)))"

text \<open>
  \<open>Stop\<close>: whether it returns, and the state when it does or waits for the receiver.
\<close>

definition Tx_Stop :: "stop_env \<Rightarrow> tx_service \<Rightarrow> bool \<times> tx_service" where
  "Tx_Stop env t =
     (let t = t\<lparr>ts_coord := (ts_coord t)\<lparr>tc_done := True\<rparr>\<rparr>
      in if stop_receiver env (ts_receiver t)
         then (True, t\<lparr>ts_sender := map_option Sender_Close (ts_sender t)\<rparr>) else (False, t))"

section \<open>State\<close>

record node =
  n_id :: node_id
  n_committee :: committee
  n_consensus :: "coordinator option"
  n_transaction :: "tx_service option"
  n_vertex :: "vertex_coordinator option"
  n_done :: bool
  n_state :: state
  n_running :: bool
  n_committedVertices :: u64

definition Node_New ::
  "(byte list \<Rightarrow> byte list) \<Rightarrow> (byte list \<Rightarrow> byte list) \<Rightarrow> (nat \<Rightarrow> byte list option)
   \<Rightarrow> gotime \<Rightarrow> gotime \<Rightarrow> node_id \<Rightarrow> (unit, node) outcome" where
  "Node_New pub blake rnd now1 now2 nid =
     (case NewCommittee pub blake rnd of
        Ok com \<Rightarrow>
          (case GetNodeKey com nid of
             None \<Rightarrow> Panic
           | Some nodeKey \<Rightarrow>
               (let g = NewVertex blake now2 nodeKey 0 (Some (NewBlock blake now1 0 None)) []
                in Ok \<lparr>n_id = nid, n_committee = com, n_consensus = None, n_transaction = None,
                       n_vertex = None, n_done = False, n_state = NewState g, n_running = False,
                       n_committedVertices = 0\<rparr>))
      | _ \<Rightarrow> Panic)"

definition SetRunning :: "bool \<Rightarrow> node \<Rightarrow> node" where
  "SetRunning running n = n\<lparr>n_running := running\<rparr>"

definition IsRunning :: "node \<Rightarrow> bool" where
  "IsRunning n = n_running n"

definition IncrementCommittedVertices :: "node \<Rightarrow> node" where
  "IncrementCommittedVertices n = n\<lparr>n_committedVertices := n_committedVertices n + 1\<rparr>"

definition GetCommittedVertices :: "node \<Rightarrow> u64" where
  "GetCommittedVertices n = n_committedVertices n"

definition GetState :: "node \<Rightarrow> state" where
  "GetState n = n_state n"

section \<open>Start and stop\<close>

record listens =
  tx_listens :: bool
  vertex_listens :: bool
  consensus_listens :: bool

datatype node_error =
    AlreadyRunning
  | TxFailed start_error
  | VertexFailed start_error
  | ConsensusFailed start_error

record stop_envs =
  tx_stop :: stop_env
  vertex_stop :: stop_env
  consensus_stop :: stop_env

text \<open>
  \<open>Start\<close> ends the process in \<open>consensus.New\<close>, returns an error or nil, or waits in the
  \<open>Stop\<close> of a coordinator that it started.  Connecting the components cannot fail.
\<close>

datatype start_result = Start_fatal | Start_returns "node_error option" node | Start_waits node

definition Node_Start ::
  "(byte list \<Rightarrow> byte list) \<Rightarrow> gotime \<Rightarrow> gotime \<Rightarrow> listens \<Rightarrow> stop_envs \<Rightarrow> node \<Rightarrow> start_result" where
  "Node_Start blake now1 now2 ls st n =
     (if IsRunning n then Start_returns (Some AlreadyRunning) n
      else case CC_New blake now1 now2 (n_id n) (n_committee n) of
        None \<Rightarrow> Start_fatal
      | Some cc \<Rightarrow>
          (let ts = tx_service_new (n_id n) (n_committee n);
               vc = VC_New (n_id n) (n_committee n);
               made = (\<lambda>cc ts vc. n\<lparr>n_consensus := Some cc, n_transaction := Some ts, n_vertex := Some vc\<rparr>)
           in case Tx_Start (tx_listens ls) ts of
                (Some e, ts1) \<Rightarrow> Start_returns (Some (TxFailed e)) (made cc ts1 vc)
              | (None, ts1) \<Rightarrow>
                  (case VC_Start (vertex_listens ls) vc of
                     (Some e, vc1) \<Rightarrow>
                       (case Tx_Stop (tx_stop st) ts1 of
                          (False, ts2) \<Rightarrow> Start_waits (made cc ts2 vc1)
                        | (True, ts2) \<Rightarrow> Start_returns (Some (VertexFailed e)) (made cc ts2 vc1))
                   | (None, vc1) \<Rightarrow>
                       (case CC_Start (consensus_listens ls) cc of
                          (Some e, cc1) \<Rightarrow>
                            (case Tx_Stop (tx_stop st) ts1 of
                               (False, ts2) \<Rightarrow> Start_waits (made cc1 ts2 vc1)
                             | (True, ts2) \<Rightarrow>
                                 (case VC_Stop (vertex_stop st) vc1 of
                                    (False, vc2) \<Rightarrow> Start_waits (made cc1 ts2 vc2)
                                  | (True, vc2) \<Rightarrow> Start_returns (Some (ConsensusFailed e)) (made cc1 ts2 vc2)))
                        | (None, cc1) \<Rightarrow> Start_returns None (SetRunning True (made cc1 ts1 vc1))))))"

text \<open>
  \<open>Stop\<close>: whether it returns, and the node.  Before the first \<open>Start\<close> it calls a method of a
  nil coordinator.
\<close>

definition Node_Stop :: "stop_envs \<Rightarrow> node \<Rightarrow> (unit, bool \<times> node) outcome" where
  "Node_Stop st n =
     (let n = n\<lparr>n_done := True\<rparr>
      in case (n_consensus n, n_transaction n, n_vertex n) of
        (Some cc, Some ts, Some vc) \<Rightarrow>
          (case CC_Stop (consensus_stop st) cc of
             (False, cc') \<Rightarrow> Ok (False, n\<lparr>n_consensus := Some cc'\<rparr>)
           | (True, cc') \<Rightarrow>
               (case Tx_Stop (tx_stop st) ts of
                  (False, ts') \<Rightarrow> Ok (False, n\<lparr>n_consensus := Some cc', n_transaction := Some ts'\<rparr>)
                | (True, ts') \<Rightarrow>
                    (case VC_Stop (vertex_stop st) vc of
                       (False, vc') \<Rightarrow>
                         Ok (False, n\<lparr>n_consensus := Some cc', n_transaction := Some ts', n_vertex := Some vc'\<rparr>)
                     | (True, vc') \<Rightarrow>
                         Ok (True, SetRunning False
                           (n\<lparr>n_consensus := Some cc', n_transaction := Some ts', n_vertex := Some vc'\<rparr>)))))
      | _ \<Rightarrow> Panic)"

section \<open>The goroutines between the components\<close>

text \<open>
  Each turn moves one value.  They end with the context of the node; while a value is there
  and the context is done \<open>select\<close> may still take the value, so \<open>n_done\<close> does not
  forbid a turn.
\<close>

definition forward_block :: "(byte list \<Rightarrow> byte list) \<Rightarrow> node \<Rightarrow> node option" where
  "forward_block blake n =
     (case (n_transaction n, n_consensus n) of
        (Some ts, Some cc) \<Rightarrow>
          (case chan_recv (blockCh (ts_coord ts)) of
             None \<Rightarrow> None
           | Some (b, ch) \<Rightarrow>
               (case CC_HandleBlock blake b cc of
                  (Waits, _) \<Rightarrow> None
                | (_, cc') \<Rightarrow>
                    Some (n\<lparr>n_transaction := Some (ts\<lparr>ts_coord := (ts_coord ts)\<lparr>blockCh := ch\<rparr>\<rparr>),
                            n_consensus := Some cc'\<rparr>)))
      | _ \<Rightarrow> None)"

definition forward_vertex :: "node \<Rightarrow> node option" where
  "forward_vertex n =
     (case (n_vertex n, n_consensus n) of
        (Some vc, Some cc) \<Rightarrow>
          (case chan_recv (vc_vertexCh vc) of
             None \<Rightarrow> None
           | Some (v, ch) \<Rightarrow>
               (case CC_HandleVertex v cc of
                  (Waits, _) \<Rightarrow> None
                | (_, cc') \<Rightarrow>
                    Some (n\<lparr>n_vertex := Some (vc\<lparr>vc_vertexCh := ch\<rparr>), n_consensus := Some cc'\<rparr>)))
      | _ \<Rightarrow> None)"

definition forward_broadcast :: "node \<Rightarrow> node option" where
  "forward_broadcast n =
     (case (n_consensus n, n_vertex n) of
        (Some cc, Some vc) \<Rightarrow>
          (case chan_recv (cc_broadcastCh cc) of
             None \<Rightarrow> None
           | Some (v, ch) \<Rightarrow>
               (case chan_send (vc_broadcastCh vc) v of
                  None \<Rightarrow> None
                | Some ch' \<Rightarrow>
                    Some (n\<lparr>n_consensus := Some (cc\<lparr>cc_broadcastCh := ch\<rparr>),
                            n_vertex := Some (vc\<lparr>vc_broadcastCh := ch'\<rparr>)\<rparr>)))
      | _ \<Rightarrow> None)"

definition handle_output :: "node \<Rightarrow> node option" where
  "handle_output n =
     (case n_consensus n of
        None \<Rightarrow> None
      | Some cc \<Rightarrow>
          (case chan_recv (cc_outputCh cc) of
             None \<Rightarrow> None
           | Some (v, ch) \<Rightarrow>
               Some (IncrementCommittedVertices (n\<lparr>n_consensus := Some (cc\<lparr>cc_outputCh := ch\<rparr>)\<rparr>))))"

section \<open>The program\<close>

text \<open>
  cmd/node/main.go: the identifier is a 64-bit flag that must not be zero, and is then
  converted to the 32 bits of an ID.
\<close>

datatype main_result = MainFatal | MainStartFailed node_error | MainStartWaits | MainServes node

definition node_main ::
  "(byte list \<Rightarrow> byte list) \<Rightarrow> (byte list \<Rightarrow> byte list) \<Rightarrow> (nat \<Rightarrow> byte list option)
   \<Rightarrow> (nat \<Rightarrow> gotime) \<Rightarrow> listens \<Rightarrow> stop_envs \<Rightarrow> u64 \<Rightarrow> main_result" where
  "node_main pub blake rnd clock ls st nodeID =
     (if nodeID = 0 then MainFatal
      else case Node_New pub blake rnd (clock 0) (clock 1) (ucast nodeID) of
        Ok n \<Rightarrow>
          (case Node_Start blake (clock 2) (clock 3) ls st n of
             Start_fatal \<Rightarrow> MainFatal
           | Start_waits _ \<Rightarrow> MainStartWaits
           | Start_returns (Some e) _ \<Rightarrow> MainStartFailed e
           | Start_returns None n' \<Rightarrow> MainServes n')
      | _ \<Rightarrow> MainFatal)"

section \<open>Starting\<close>

lemma CC_New_Some:
  "GetNodeKey com nid = Some key \<Longrightarrow> \<exists>cc. CC_New blake now1 now2 nid com = Some cc \<and> cc_done cc = False
     \<and> cc_committee cc = com \<and> cc_nodeID cc = nid"
  by (auto simp: CC_New_def NewWithRound_def Let_def)

lemma member_addresses:
  assumes "map_of (Validators com) nid = Some val"
  shows "GetNodeKey com nid = Some (PublicKey val)" "GetNodeAddress com nid = Some (Address val)"
    "GetTxReceiverAddress com nid = Some (TxAddress val)" "GetVertexReceiverAddress com nid = Some (VertexAddress val)"
  using assms by (simp_all add: GetNodeKey_def GetNodeAddress_def GetTxReceiverAddress_def GetVertexReceiverAddress_def)

lemma Node_Start_result:
  assumes "map_of (Validators (n_committee n)) (n_id n) = Some val" and "\<not> IsRunning n"
  shows "\<exists>n' cc ts vc.
       Node_Start blake now1 now2 ls st n =
         (if \<not> tx_listens ls then Start_returns (Some (TxFailed ListenFailed)) n'
          else if \<not> vertex_listens ls then
            (if stop_returns (tx_stop st) then Start_returns (Some (VertexFailed ListenFailed)) n' else Start_waits n')
          else if \<not> consensus_listens ls then
            (if stop_returns (tx_stop st) \<and> stop_returns (vertex_stop st)
             then Start_returns (Some (ConsensusFailed ListenFailed)) n' else Start_waits n')
          else Start_returns None n')
     \<and> IsRunning n' = (tx_listens ls \<and> vertex_listens ls \<and> consensus_listens ls)
     \<and> n_consensus n' = Some cc \<and> n_transaction n' = Some ts \<and> n_vertex n' = Some vc
     \<and> tc_done (ts_coord ts) = (tx_listens ls \<and> \<not> (vertex_listens ls \<and> consensus_listens ls))
     \<and> vc_done vc = (tx_listens ls \<and> vertex_listens ls \<and> \<not> consensus_listens ls \<and> stop_returns (tx_stop st))
     \<and> \<not> cc_done cc \<and> n_done n' = n_done n \<and> n_state n' = n_state n
     \<and> GetCommittedVertices n' = GetCommittedVertices n \<and> n_id n' = n_id n"
proof -
  note m = member_addresses [OF assms(1)]
  obtain cc where "CC_New blake now1 now2 (n_id n) (n_committee n) = Some cc" "cc_done cc = False"
    "cc_committee cc = n_committee n" "cc_nodeID cc = n_id n"
    using CC_New_Some [OF m(1)] by blast
  then show ?thesis
    using m assms(2)
    by (simp add: Node_Start_def Tx_Start_def VC_Start_def CC_Start_def Tx_Stop_def VC_Stop_def
        Receiver_Start_def tx_service_new_def Tx_New_def VC_New_def Let_def SetRunning_def IsRunning_def
        GetCommittedVertices_def)
qed

section \<open>Stopping\<close>

lemma Node_New_parts:
  assumes "Node_New pub blake rnd now1 now2 nid = Ok n"
  shows "n_consensus n = None" "n_transaction n = None" "n_vertex n = None" "\<not> n_done n" "\<not> IsRunning n"
    "n_id n = nid" "n_committedVertices n = 0" "\<exists>g. n_state n = NewState g"
    "NewCommittee pub blake rnd = Ok (n_committee n)"
  using assms by (auto simp: Node_New_def Let_def IsRunning_def split: outcome.splits option.splits)

text \<open>A node that was not yet started cannot be stopped: \<open>Stop\<close> panics.\<close>

theorem Stop_before_Start_panics:
  "(case Node_New pub blake rnd now1 now2 nid of Ok n \<Rightarrow> Node_Stop st n = Panic | _ \<Rightarrow> True)"
  using Node_New_parts(1) [of pub blake rnd now1 now2 nid]
  by (auto simp: Node_Stop_def Let_def split: outcome.split)

section \<open>All runs of a node\<close>

text \<open>
  The operations of the node and its goroutines, and the steps of its coordinators in between
  (the consensus with \<open>cc_step\<close>).
\<close>

inductive node_step :: "(byte list \<Rightarrow> byte list) \<Rightarrow> node \<Rightarrow> node \<Rightarrow> bool"
  for blake :: "byte list \<Rightarrow> byte list" where
  ns_start: "Node_Start blake now1 now2 ls st n \<in> {Start_returns err n', Start_waits n'} \<Longrightarrow> node_step blake n n'"
| ns_stop: "Node_Stop st n = Ok (ret, n') \<Longrightarrow> node_step blake n n'"
| ns_block: "forward_block blake n = Some n' \<Longrightarrow> node_step blake n n'"
| ns_vertex: "forward_vertex n = Some n' \<Longrightarrow> node_step blake n n'"
| ns_broadcast: "forward_broadcast n = Some n' \<Longrightarrow> node_step blake n n'"
| ns_output: "handle_output n = Some n' \<Longrightarrow> node_step blake n n'"
| ns_consensus: "n_consensus n = Some cc \<Longrightarrow> cc_step blake cc cc'
    \<Longrightarrow> node_step blake n (n\<lparr>n_consensus := Some cc'\<rparr>)"
| ns_transaction: "n_transaction n = Some ts
    \<Longrightarrow> tc = Tx_HandleMessage w1 w2 t1 t2 (ts_coord ts) data
      \<or> tc = snd (createBlock blake now elapsed (ts_coord ts)) \<or> tc = snd (printMetrics now (ts_coord ts))
    \<Longrightarrow> node_step blake n (n\<lparr>n_transaction := Some (ts\<lparr>ts_coord := tc\<rparr>)\<rparr>)"
| ns_message: "n_vertex n = Some vc \<Longrightarrow> VC_HandleMessage blake now it pick data vc = (res, vc')
    \<Longrightarrow> node_step blake n (n\<lparr>n_vertex := Some vc'\<rparr>)"
| ns_send: "n_vertex n = Some vc \<Longrightarrow> broadcast_turn vo jobs vc = Some vc'
    \<Longrightarrow> node_step blake n (n\<lparr>n_vertex := Some vc'\<rparr>)"

inductive_cases node_stepE: "node_step blake n n'"

definition node_init ::
  "(byte list \<Rightarrow> byte list) \<Rightarrow> (byte list \<Rightarrow> byte list) \<Rightarrow> (nat \<Rightarrow> byte list option) \<Rightarrow> node_id \<Rightarrow> node \<Rightarrow> bool" where
  "node_init pub blake rnd nid n \<longleftrightarrow> (\<exists>now1 now2. Node_New pub blake rnd now1 now2 nid = Ok n)"

definition node_ok :: "(byte list \<Rightarrow> byte list) \<Rightarrow> node_id \<Rightarrow> node \<Rightarrow> bool" where
  "node_ok blake nid n \<longleftrightarrow> n_id n = nid \<and> n_committedVertices n = 0 \<and> (\<exists>g. n_state n = NewState g)
     \<and> (\<forall>cc. n_consensus n = Some cc \<longrightarrow> cc_ok blake cc)
     \<and> (\<forall>vc. n_vertex n = Some vc \<longrightarrow> ch_values (vc_broadcastCh vc) = [] \<and> chan_ok (vc_vertexCh vc)
          \<and> chan_all (vertex_ok blake) (vc_vertexCh vc))
     \<and> (n_running n \<longrightarrow> n_consensus n \<noteq> None)
     \<and> (n_consensus n = None \<longleftrightarrow> n_transaction n = None) \<and> (n_consensus n = None \<longleftrightarrow> n_vertex n = None)"

lemma node_ok_made:
  assumes "node_ok blake nid n" and "cc_ok blake cc" and "ch_values (vc_broadcastCh vc) = []" and "chan_ok (vc_vertexCh vc)"
    and "chan_all (vertex_ok blake) (vc_vertexCh vc)"
  shows "node_ok blake nid (n\<lparr>n_consensus := Some cc, n_transaction := Some ts, n_vertex := Some vc\<rparr>)"
  using assms by (simp add: node_ok_def)

lemma node_ok_SetRunning: "node_ok blake nid n \<Longrightarrow> n_consensus n \<noteq> None \<Longrightarrow> node_ok blake nid (SetRunning b n)"
  by (auto simp: node_ok_def SetRunning_def)

lemma VC_frame:
  "VC_Start b vc = (e, vc') \<Longrightarrow> vc_broadcastCh vc' = vc_broadcastCh vc \<and> vc_vertexCh vc' = vc_vertexCh vc"
  "VC_Stop env vc = (ret, vc') \<Longrightarrow> vc_broadcastCh vc' = vc_broadcastCh vc \<and> vc_vertexCh vc' = vc_vertexCh vc"
  "ch_values (vc_broadcastCh (VC_New a com)) = []" "chan_ok (vc_vertexCh (VC_New a com))"
  "chan_all P (vc_vertexCh (VC_New a com))"
  by (auto simp: VC_Start_def VC_Stop_def VC_New_def Let_def split: if_splits option.splits prod.splits bool.splits)

lemma node_ok_start:
  assumes "Node_Start blake now1 now2 ls st n \<in> {Start_returns err n', Start_waits n'}" and "node_ok blake nid n"
  shows "node_ok blake nid n'"
proof (cases "IsRunning n")
  case True
  then show ?thesis using assms by (simp add: Node_Start_def)
next
  case False
  obtain cc where cc: "CC_New blake now1 now2 (n_id n) (n_committee n) = Some cc"
    using assms(1) False by (auto simp: Node_Start_def split: option.splits)
  obtain e1 ts1 where t: "Tx_Start (tx_listens ls) (tx_service_new (n_id n) (n_committee n)) = (e1, ts1)"
    by fastforce
  obtain e2 vc1 where v: "VC_Start (vertex_listens ls) (VC_New (n_id n) (n_committee n)) = (e2, vc1)"
    by fastforce
  obtain e3 cc1 where c: "CC_Start (consensus_listens ls) cc = (e3, cc1)" by fastforce
  obtain b1 ts2 where ts: "Tx_Stop (tx_stop st) ts1 = (b1, ts2)" by fastforce
  obtain b2 vc2 where vs: "VC_Stop (vertex_stop st) vc1 = (b2, vc2)" by fastforce
  have ok: "cc_ok blake cc" using cc cc_ok_new unfolding CC_New_def cc_init_def by blast
  note facts = ok cc_ok_frame(1) [OF c] VC_frame(3-) VC_frame(1) [OF v] VC_frame(2) [OF vs] assms(2)
  show ?thesis
    using assms(1) False cc t v c ts vs
    by (cases e1; cases e2; cases e3; cases b1; cases b2)
      (simp_all add: Node_Start_def Let_def, use facts in \<open>auto intro!: node_ok_made node_ok_SetRunning\<close>)
qed

lemma node_ok_forward_block:
  assumes "forward_block blake n = Some n'" and "node_ok blake nid n"
  shows "node_ok blake nid n'"
  using assms cc_ok_HandleBlock
  by (fastforce simp: forward_block_def node_ok_def split: option.splits prod.splits handled.splits)

lemma node_ok_forward_vertex:
  assumes "forward_vertex n = Some n'" and "node_ok blake nid n"
  shows "node_ok blake nid n'"
proof -
  from assms(1) obtain vc cc v ch res cc' where *: "n_vertex n = Some vc" "n_consensus n = Some cc"
    "chan_recv (vc_vertexCh vc) = Some (v, ch)" "CC_HandleVertex v cc = (res, cc')"
    "n' = n\<lparr>n_vertex := Some (vc\<lparr>vc_vertexCh := ch\<rparr>), n_consensus := Some cc'\<rparr>"
    by (auto simp: forward_vertex_def split: option.splits prod.splits handled.splits)
  have "chan_ok ch" and v: "vertex_ok blake v \<and> chan_all (vertex_ok blake) ch" and cc: "cc_ok blake cc"
    using assms(2) * chan_ok_recv [OF _ *(3)] chan_all_recv [of "vertex_ok blake", OF _ *(3)]
    by (simp_all add: node_ok_def)
  moreover have "cc_ok blake cc'" using cc_ok_HandleVertex [OF *(4)] v cc by blast
  ultimately
  show ?thesis using assms(2) * by (simp add: node_ok_def)
qed

lemma node_ok_silent:
  assumes "node_ok blake nid n"
  shows "forward_broadcast n = None" "handle_output n = None"
    "n_vertex n = Some vc \<Longrightarrow> broadcast_turn vo jobs vc = None"
proof -
  show "forward_broadcast n = None"
    using assms cc_ok_silent(2) by (auto simp: forward_broadcast_def node_ok_def split: option.splits)
  show "handle_output n = None"
    using assms cc_ok_silent(1) by (auto simp: handle_output_def node_ok_def split: option.splits)
  show "broadcast_turn vo jobs vc = None" if "n_vertex n = Some vc"
    using assms that chan.get_None [of "vc_broadcastCh vc"] by (simp add: broadcast_turn_def node_ok_def)
qed

lemma node_ok_message:
  assumes "VC_HandleMessage blake now it pick data vc = (res, vc')"
    and "chan_ok (vc_vertexCh vc)" and "chan_all (vertex_ok blake) (vc_vertexCh vc)"
  shows "chan_ok (vc_vertexCh vc')" and "vc_broadcastCh vc' = vc_broadcastCh vc"
    and "chan_all (vertex_ok blake) (vc_vertexCh vc')"
proof -
  have "vertex_ok blake v" if "Vertex_UnmarshalBinary blake now it data zero_vertex = Some v" for v
    by (rule Vertex_UnmarshalBinary_well_formed [OF that]) (simp add: zero_vertex_def)
  then show "chan_ok (vc_vertexCh vc')" "vc_broadcastCh vc' = vc_broadcastCh vc"
    "chan_all (vertex_ok blake) (vc_vertexCh vc')"
    using assms by (auto simp: VC_HandleMessage_def split: option.splits if_splits intro: chan_ok_send chan_all_send)
qed

text \<open>\<open>Stop\<close> of a node with its coordinators: how far it gets.\<close>

lemma Node_Stop_cases:
  assumes "n_consensus n = Some cc" and "n_transaction n = Some ts" and "n_vertex n = Some vc"
    and "CC_Stop (consensus_stop st) cc = (b1, cc')" and "Tx_Stop (tx_stop st) ts = (b2, ts')"
    and "VC_Stop (vertex_stop st) vc = (b3, vc')"
  shows "Node_Stop st n =
     Ok (b1 \<and> b2 \<and> b3,
         n\<lparr>n_done := True, n_running := n_running n \<and> \<not> (b1 \<and> b2 \<and> b3), n_consensus := Some cc',
           n_transaction := Some (if b1 then ts' else ts), n_vertex := Some (if b1 \<and> b2 then vc' else vc)\<rparr>)"
  using assms by (cases b1; cases b2; cases b3) (simp_all add: Node_Stop_def SetRunning_def Let_def)

lemma node_ok_stop:
  assumes "Node_Stop st n = Ok (ret, n')" and "node_ok blake nid n"
  shows "node_ok blake nid n'"
proof -
  obtain cc ts vc where *: "n_consensus n = Some cc" "n_transaction n = Some ts" "n_vertex n = Some vc"
    using assms(1) by (simp add: Node_Stop_def Let_def split: option.splits)
  obtain b1 cc' where c: "CC_Stop (consensus_stop st) cc = (b1, cc')" by fastforce
  obtain b2 ts' where t: "Tx_Stop (tx_stop st) ts = (b2, ts')" by fastforce
  obtain b3 vc' where v: "VC_Stop (vertex_stop st) vc = (b3, vc')" by fastforce
  have "cc_ok blake cc'" using cc_ok_frame(2) [of blake "consensus_stop st" cc] c assms(2) * by (simp add: node_ok_def)
  then show ?thesis
    using Node_Stop_cases [OF * c t v] assms VC_frame(2) [OF v] * by (auto simp: node_ok_def)
qed

text \<open>
  C20. Stop stops the consensus, then the transaction, then the vertex coordinator, and
  returns exactly when, for each of them, every peer closes or resets its connection or
  the listener cannot be closed; it stays at the first one that waits for a peer, with the
  node still running and the later coordinators not stopped.
\<close>

theorem Node_Stop_spec:
  assumes "n_consensus n = Some cc" and "n_transaction n = Some ts" and "n_vertex n = Some vc"
    and "cc_receiver cc = Some r1" and "ts_receiver ts = Some r2" and "vc_receiver vc = Some r3"
    and "r_listening r1" and "r_listening r2" and "r_listening r3"
  shows "\<exists>n' cc' ts' vc'.
       Node_Stop st n =
         Ok (stop_returns (consensus_stop st) \<and> stop_returns (tx_stop st) \<and> stop_returns (vertex_stop st), n')
     \<and> n_done n' \<and> n_consensus n' = Some cc' \<and> n_transaction n' = Some ts' \<and> n_vertex n' = Some vc'
     \<and> IsRunning n' = (IsRunning n \<and> \<not> (stop_returns (consensus_stop st) \<and> stop_returns (tx_stop st)
                                        \<and> stop_returns (vertex_stop st)))
     \<and> cc_done cc' \<and> tc_done (ts_coord ts') = (tc_done (ts_coord ts) \<or> stop_returns (consensus_stop st))
     \<and> vc_done vc' = (vc_done vc \<or> stop_returns (consensus_stop st) \<and> stop_returns (tx_stop st))"
proof -
  obtain b1 cc' where c: "CC_Stop (consensus_stop st) cc = (b1, cc')" by fastforce
  obtain b2 ts' where t: "Tx_Stop (tx_stop st) ts = (b2, ts')" by fastforce
  obtain b3 vc' where v: "VC_Stop (vertex_stop st) vc = (b3, vc')" by fastforce
  have "b1 = stop_returns (consensus_stop st)" "cc_done cc'" "b2 = stop_returns (tx_stop st)"
    "tc_done (ts_coord ts')" "b3 = stop_returns (vertex_stop st)" "vc_done vc'"
    using c t v assms(4-) by (auto simp: CC_Stop_def Tx_Stop_def VC_Stop_def Let_def split: if_splits)
  then show ?thesis using Node_Stop_cases [OF assms(1-3) c t v] by (simp add: IsRunning_def)
qed

lemma node_ok_step:
  assumes "node_step blake n n'" and "node_ok blake nid n"
  shows "node_ok blake nid n'"
  using assms(1)
proof (cases rule: node_step.cases)
  case ns_start
  then show ?thesis using node_ok_start assms(2) by blast
next
  case ns_stop
  then show ?thesis using assms(2) by (rule node_ok_stop)
next
  case (ns_consensus cc cc')
  then show ?thesis using assms(2) cc_ok_step [OF ns_consensus(3)] by (simp add: node_ok_def)
next
  case (ns_message vc now it pick data res vc')
  then show ?thesis using assms(2) node_ok_message [OF ns_message(3)] by (auto simp: node_ok_def)
next
  case ns_block
  then show ?thesis using assms(2) by (rule node_ok_forward_block)
next
  case ns_vertex
  then show ?thesis using assms(2) by (rule node_ok_forward_vertex)
next
  case ns_broadcast
  then show ?thesis using node_ok_silent(1) [OF assms(2)] by simp
next
  case ns_output
  then show ?thesis using node_ok_silent(2) [OF assms(2)] by simp
next
  case ns_transaction
  then show ?thesis using assms(2) by (auto simp: node_ok_def)
next
  case ns_send
  then show ?thesis using node_ok_silent(3) [OF assms(2)] by simp
qed

interpretation node_inv: inductive_invariant "node_init pub blake rnd nid" "node_step blake" "node_ok blake nid"
proof
  show "node_ok blake nid n" if "node_init pub blake rnd nid n" for n
  proof -
    from that obtain now1 now2 where "Node_New pub blake rnd now1 now2 nid = Ok n"
      unfolding node_init_def by blast
    then show ?thesis using Node_New_parts [of pub blake rnd now1 now2 nid n] by (simp add: node_ok_def IsRunning_def)
  qed
  show "node_ok blake nid n'" if "node_ok blake nid n" "node_step blake n n'" for n n'
    using node_ok_step that by blast
qed

text \<open>What a node has stored is well formed and stands where its round and hash say.\<close>

lemma stored_vertex_ok:
  assumes "reach (node_init pub blake rnd nid) (node_step blake) n"
    and "n_consensus n = Some cc" and "map_of (round_map (cc_dag cc) r) h = Some v"
  shows "vertex_ok blake v" and "vx_hash v = h" and "vx_round v = r"
proof -
  have "cc_ok blake cc" using node_inv.reach_inv [OF assms(1)] assms(2) by (simp add: node_ok_def)
  then show "vertex_ok blake v" "vx_hash v = h" "vx_round v = r"
    using assms(3) round_map_entry [of "cc_dag cc" r h v] by (auto simp: cc_ok_def dag_all_def)
qed

text \<open>
  C18. Through all starts, stops, messages and turns of its goroutines a node counts no
  committed vertex, its outgoing goroutines find nothing to move, the vertex coordinator
  broadcasts nothing, and the state of pkg/consensus/state.go stays as it was made.
\<close>

theorem node_never_commits:
  assumes "reach (node_init pub blake rnd nid) (node_step blake) n"
  shows "GetCommittedVertices n = 0 \<and> handle_output n = None \<and> forward_broadcast n = None
     \<and> (\<forall>vc. n_vertex n = Some vc \<longrightarrow> broadcast_turn vo jobs vc = None)
     \<and> (\<exists>g. GetState n = NewState g) \<and> n_id n = nid"
proof -
  have ok: "node_ok blake nid n" using assms by (rule node_inv.reach_inv)
  then show ?thesis
    using node_ok_silent [OF ok] by (simp add: GetCommittedVertices_def GetState_def node_ok_def)
qed

text \<open>
  C19. Start of the node of a committee member that does not run: the first listener that
  fails gives the error, the coordinators started before it are stopped, in which it waits
  when a peer of them stays, and the node does not run; with all three listening it runs
  and nothing is stopped.
\<close>

theorem Node_Start_spec:
  assumes "map_of (Validators (n_committee n)) (n_id n) = Some val" and "\<not> IsRunning n"
  shows "\<exists>n' cc ts vc.
       Node_Start blake now1 now2 ls st n =
         (if \<not> tx_listens ls then Start_returns (Some (TxFailed ListenFailed)) n'
          else if \<not> vertex_listens ls then
            (if stop_returns (tx_stop st) then Start_returns (Some (VertexFailed ListenFailed)) n' else Start_waits n')
          else if \<not> consensus_listens ls then
            (if stop_returns (tx_stop st) \<and> stop_returns (vertex_stop st)
             then Start_returns (Some (ConsensusFailed ListenFailed)) n' else Start_waits n')
          else Start_returns None n')
     \<and> IsRunning n' = (tx_listens ls \<and> vertex_listens ls \<and> consensus_listens ls)
     \<and> n_consensus n' = Some cc \<and> n_transaction n' = Some ts \<and> n_vertex n' = Some vc
     \<and> tc_done (ts_coord ts) = (tx_listens ls \<and> \<not> (vertex_listens ls \<and> consensus_listens ls))
     \<and> vc_done vc = (tx_listens ls \<and> vertex_listens ls \<and> \<not> consensus_listens ls \<and> stop_returns (tx_stop st))
     \<and> \<not> cc_done cc \<and> n_done n' = n_done n \<and> n_state n' = n_state n
     \<and> GetCommittedVertices n' = GetCommittedVertices n \<and> n_id n' = n_id n"
  using assms by (rule Node_Start_result)

lemma Node_New_value:
  assumes "NewCommittee pub blake rnd = Ok com"
  shows "Node_New pub blake rnd now1 now2 nid =
    (case GetNodeKey com nid of None \<Rightarrow> Panic
     | Some key \<Rightarrow>
         Ok \<lparr>n_id = nid, n_committee = com, n_consensus = None, n_transaction = None, n_vertex = None,
             n_done = False, n_state = NewState (NewVertex blake now2 key 0 (Some (NewBlock blake now1 0 None)) []),
             n_running = False, n_committedVertices = 0\<rparr>)"
  using assms by (simp add: Node_New_def Let_def split: option.split)

text \<open>The program for an identifier that is no member, and for a member.\<close>

lemma node_main_stranger:
  assumes "NewCommittee pub blake rnd = Ok (genesis_committee pub blake rnd)"
    and "\<not> (0 < (ucast nodeID :: node_id) \<and> (ucast nodeID :: node_id) \<le> 7)"
  shows "node_main pub blake rnd clock ls st nodeID = MainFatal"
proof -
  have "GetNodeKey (genesis_committee pub blake rnd) (ucast nodeID) = None"
    using assms(2) by (simp add: GetNodeKey_def genesis_committee_member)
  then show ?thesis by (simp add: node_main_def Node_New_value [OF assms(1)])
qed

lemma node_main_member:
  assumes com: "NewCommittee pub blake rnd = Ok (genesis_committee pub blake rnd)"
    and member: "0 < (ucast nodeID :: node_id)" "(ucast nodeID :: node_id) \<le> 7"
  shows "let res = node_main pub blake rnd clock ls st nodeID in
     if tx_listens ls \<and> vertex_listens ls \<and> consensus_listens ls
     then \<exists>n. res = MainServes n \<and> IsRunning n \<and> n_id n = ucast nodeID
     else res = MainStartWaits \<or> (\<exists>e. res = MainStartFailed e)"
proof -
  let ?com = "genesis_committee pub blake rnd" and ?nid = "ucast nodeID :: node_id"
  obtain val where val: "map_of (Validators ?com) ?nid = Some val"
    using member by (simp add: genesis_committee_member)
  obtain n where n: "Node_New pub blake rnd (clock 0) (clock 1) ?nid = Ok n" "n_id n = ?nid"
    "n_committee n = ?com" "\<not> IsRunning n"
    using val by (simp add: Node_New_value [OF com] GetNodeKey_def IsRunning_def)
  have start: "map_of (Validators (n_committee n)) (n_id n) = Some val" using val n by simp
  have "nodeID \<noteq> 0" using member by auto
  then have main: "node_main pub blake rnd clock ls st nodeID = (case Node_Start blake (clock 2) (clock 3) ls st n of
      Start_fatal \<Rightarrow> MainFatal | Start_waits _ \<Rightarrow> MainStartWaits
    | Start_returns (Some e) _ \<Rightarrow> MainStartFailed e | Start_returns None n' \<Rightarrow> MainServes n')"
    using n(1) by (simp add: node_main_def)
  obtain n' where "Node_Start blake (clock 2) (clock 3) ls st n =
       (if \<not> tx_listens ls then Start_returns (Some (TxFailed ListenFailed)) n'
        else if \<not> vertex_listens ls then
          (if stop_returns (tx_stop st) then Start_returns (Some (VertexFailed ListenFailed)) n' else Start_waits n')
        else if \<not> consensus_listens ls then
          (if stop_returns (tx_stop st) \<and> stop_returns (vertex_stop st)
           then Start_returns (Some (ConsensusFailed ListenFailed)) n' else Start_waits n')
        else Start_returns None n')"
    and "IsRunning n' = (tx_listens ls \<and> vertex_listens ls \<and> consensus_listens ls)" "n_id n' = ?nid"
    using Node_Start_result [OF start n(4), of blake "clock 2" "clock 3" ls st] n(2) by (elim exE conjE) simp
  then show ?thesis using main by (simp add: Let_def)
qed

text \<open>
  C21. The node program serves exactly when the low 32 bits of its identifier are 1 to 7
  and all listeners start, and then as that member; it fails to start, or waits in a
  failed start, when a listener fails, and ends at once for all other identifiers, so 2^32
  + 1 is node 1 and 2^32 passes the test for zero and ends in New.
\<close>

theorem node_main_spec:
  assumes "\<And>i. i \<in> {1..7} \<Longrightarrow> \<exists>seed. rnd i = Some seed \<and> length seed = 32"
    and "\<And>bs. length (blake bs) = 32"
  shows "let member = (0 < (ucast nodeID :: node_id) \<and> (ucast nodeID :: node_id) \<le> 7);
             res = node_main pub blake rnd clock ls st nodeID in
       (res = MainFatal \<longleftrightarrow> \<not> member)
     \<and> ((\<exists>n. res = MainServes n \<and> IsRunning n \<and> n_id n = ucast nodeID)
          \<longleftrightarrow> member \<and> tx_listens ls \<and> vertex_listens ls \<and> consensus_listens ls)
     \<and> (res = MainStartWaits \<or> (\<exists>e. res = MainStartFailed e)
          \<longleftrightarrow> member \<and> \<not> (tx_listens ls \<and> vertex_listens ls \<and> consensus_listens ls))"
proof -
  have com: "NewCommittee pub blake rnd = Ok (genesis_committee pub blake rnd)" using assms by (rule NewCommittee_value)
  show ?thesis
  proof (cases "0 < (ucast nodeID :: node_id) \<and> (ucast nodeID :: node_id) \<le> 7")
    case False
    then show ?thesis using node_main_stranger [OF com False, of clock ls st] by (auto simp: Let_def)
  next
    case True
    note m = node_main_member [OF com conjunct1 [OF True] conjunct2 [OF True], of clock ls st, unfolded Let_def]
    show ?thesis
      using m True by (cases "tx_listens ls \<and> vertex_listens ls \<and> consensus_listens ls") (auto simp: Let_def)
  qed
qed

section \<open>Instances\<close>

definition all_listen :: listens where
  "all_listen = \<lparr>tx_listens = True, vertex_listens = True, consensus_listens = True\<rparr>"

definition sample_node :: node where
  "sample_node = \<lparr>n_id = 2, n_committee = sample_committee, n_consensus = None, n_transaction = None,
     n_vertex = None, n_done = False, n_state = NewState (sample_vertex 2 0 []), n_running = False,
     n_committedVertices = 0\<rparr>"

definition closing :: stop_envs where
  "closing = \<lparr>tx_stop = (True, []), vertex_stop = (True, []), consensus_stop = (True, [])\<rparr>"

theorem Node_Start_spec_witness:
  "\<exists>n' ts. Node_Start rev zero_time zero_time (all_listen\<lparr>consensus_listens := False\<rparr>) closing sample_node
       = Start_returns (Some (ConsensusFailed ListenFailed)) n'
     \<and> \<not> IsRunning n' \<and> n_transaction n' = Some ts \<and> tc_done (ts_coord ts)"
proof -
  have "map_of (Validators (n_committee sample_node)) (n_id sample_node) = Some (genesis_validator (\<lambda>x. x) (\<lambda>x. x) [2])"
    "\<not> IsRunning sample_node"
    by (simp_all add: sample_node_def sample_committee_def IsRunning_def)
  from Node_Start_spec [OF this, of rev zero_time zero_time "all_listen\<lparr>consensus_listens := False\<rparr>" closing]
  show ?thesis by (auto simp: all_listen_def closing_def stop_returns_def)
qed

text \<open>
  One peer of the consensus stays connected and silent: \<open>Stop\<close> does not return, and the node
  takes transactions on.
\<close>

theorem Node_Stop_spec_witness:
  "\<exists>r n' ts'. Node_Stop (closing\<lparr>consensus_stop := (True, [\<lparr>c_events = [], c_end = Timeout_forever\<rparr>])\<rparr>)
      (sample_node\<lparr>n_running := True, n_consensus := Some (sample_cc\<lparr>cc_receiver := Some r\<rparr>),
         n_transaction := Some \<lparr>ts_coord = Tx_New 2 sample_committee, ts_receiver = Some r, ts_sender = None\<rparr>,
         n_vertex := Some ((VC_New 2 sample_committee)\<lparr>vc_receiver := Some r\<rparr>)\<rparr>) = Ok (False, n')
     \<and> IsRunning n' \<and> n_transaction n' = Some ts' \<and> \<not> tc_done (ts_coord ts')"
proof -
  let ?r = "(NewReceiver (resolve_tcp 0))\<lparr>r_listening := True\<rparr>"
  let ?cc = "sample_cc\<lparr>cc_receiver := Some ?r\<rparr>" and ?vc = "(VC_New 2 sample_committee)\<lparr>vc_receiver := Some ?r\<rparr>"
  let ?ts = "\<lparr>ts_coord = Tx_New 2 sample_committee, ts_receiver = Some ?r, ts_sender = None\<rparr>"
  let ?n = "sample_node\<lparr>n_running := True, n_consensus := Some ?cc, n_transaction := Some ?ts, n_vertex := Some ?vc\<rparr>"
  let ?st = "closing\<lparr>consensus_stop := (True, [\<lparr>c_events = [], c_end = Timeout_forever\<rparr>])\<rparr>"
  have parts: "n_consensus ?n = Some ?cc" "n_transaction ?n = Some ?ts" "n_vertex ?n = Some ?vc"
    "cc_receiver ?cc = Some ?r" "ts_receiver ?ts = Some ?r" "vc_receiver ?vc = Some ?r"
    "r_listening ?r" "r_listening ?r" "r_listening ?r"
    by simp_all
  have ret: "\<not> stop_returns (consensus_stop ?st)" by (simp add: stop_returns_def)
  obtain n' ts' where "Node_Stop ?st ?n = Ok (False, n')" "IsRunning n'" "n_transaction n' = Some ts'"
    "\<not> tc_done (ts_coord ts')"
    using Node_Stop_spec [OF parts, of ?st] ret by (auto simp: IsRunning_def Tx_New_def)
  then show ?thesis by blast
qed

text \<open>A node that was started, with its genesis vertex.\<close>

definition sample_genesis :: vertex where
  "sample_genesis = NewVertex pad32 zero_time (array32 (pad32 (replicate 32 1))) 0
     (Some (NewBlock pad32 zero_time 0 None)) []"

lemma sample_run:
  "\<exists>n cc. reach (node_init (\<lambda>x. x) pad32 sample_seeds 1) (node_step pad32) n \<and> IsRunning n
     \<and> n_consensus n = Some cc \<and> map_of (round_map (cc_dag cc) 0) (vx_hash sample_genesis) = Some sample_genesis"
proof -
  let ?com = "genesis_committee (\<lambda>x. x) pad32 sample_seeds"
  have com: "NewCommittee (\<lambda>x. x) pad32 sample_seeds = Ok ?com"
    by (rule NewCommittee_value [OF sample_seeds_ok length_pad32])
  obtain val where val: "map_of (Validators ?com) 1 = Some val"
    and key: "PublicKey val = array32 (pad32 (replicate 32 1))"
    by (simp add: genesis_committee_member genesis_validator_def sample_seeds_def)
  note addresses = member_addresses [OF val]
  obtain n where n: "Node_New (\<lambda>x. x) pad32 sample_seeds zero_time zero_time 1 = Ok n"
    "n_id n = 1" "n_committee n = ?com" "\<not> IsRunning n"
    using val by (simp add: Node_New_value [OF com] GetNodeKey_def IsRunning_def)
  have init: "reach (node_init (\<lambda>x. x) pad32 sample_seeds 1) (node_step pad32) n"
    by (rule reach_init) (use n(1) in \<open>auto simp: node_init_def\<close>)
  obtain cc where cc: "CC_New pad32 zero_time zero_time 1 ?com = Some cc" "cc_dag cc = NewDAG sample_genesis"
    "cc_committee cc = ?com" "cc_nodeID cc = 1"
    using addresses key by (simp add: CC_New_def NewWithRound_def Let_def sample_genesis_def)
  obtain n' cc' where n': "Node_Start pad32 zero_time zero_time all_listen closing n = Start_returns None n'" "IsRunning n'"
    "n_consensus n' = Some cc'" "cc_dag cc' = NewDAG sample_genesis"
    using n(2-4) cc addresses
    by (simp add: Node_Start_def Tx_Start_def VC_Start_def CC_Start_def Receiver_Start_def tx_service_new_def
        Tx_New_def VC_New_def Let_def SetRunning_def IsRunning_def all_listen_def)
  have "map_of (round_map (cc_dag cc') 0) (vx_hash sample_genesis) = Some sample_genesis"
    unfolding n'(4) round_map_NewDAG by simp
  moreover have "node_step pad32 n n'"
    by (rule ns_start [where err = None and ?now1.0 = zero_time and ?now2.0 = zero_time and ls = all_listen and st = closing]) (use n'(1) in simp)
  ultimately show ?thesis using n'(2,3) reach_step [OF init] by blast
qed

lemma sample_inputs_inj: "inj_on (\<lambda>x. array32 (pad32 x)) (vertex_inputs pad32 sample_genesis)"
proof -
  let ?ones = "replicate 32 (1 :: byte)"
  have ones: "bytes_of (array32 (pad32 ?ones)) = ?ones"
    using pad32_long [of ?ones "[]"] bytes_of_array32 [of ?ones] by (simp only: length_replicate append_Nil2)
  have v: "pad32 (vertex_hash_input sample_genesis bh) = ?ones" for bh
    unfolding vertex_hash_input_def sample_genesis_def NewVertex_simps ones
    by (rule pad32_long) (rule length_replicate)
  have b: "pad32 (block_hash_input (NewBlock pad32 zero_time 0 None)) = replicate 32 0"
    unfolding pad32_def block_hash_input_def NewBlock_simps put_u64_def
    by (simp only: unat_0 be_bytes_0 elems_simps concat.simps append_Nil2 take_append take_replicate length_replicate) (simp flip: replicate_add)
  have "bytes_of (array32 ?ones) \<noteq> bytes_of (array32 (replicate 32 0))"
    by (simp only: bytes_of_array32 length_replicate replicate_eq_replicate) simp
  then have ne: "array32 ?ones \<noteq> array32 (replicate 32 0)" by auto
  have blk: "vx_block sample_genesis = Some (NewBlock pad32 zero_time 0 None)"
    by (simp add: sample_genesis_def NewVertex_def vertex_calculateHash_def Let_def Block_Hash_NewBlock del: b_hash_NewBlock)
  show ?thesis
    unfolding vertex_inputs_def blk option.set image_insert image_empty
    by (rule inj_on_pair) (unfold v b, rule ne)
qed

theorem node_never_commits_witness:
  "\<exists>n :: node. IsRunning n \<and> GetCommittedVertices n = 0 \<and> handle_output n = None"
proof -
  obtain n where n: "reach (node_init (\<lambda>x. x) pad32 sample_seeds 1) (node_step pad32) n" "IsRunning n"
    using sample_run by blast
  from node_never_commits [OF n(1)] show ?thesis using n(2) by blast
qed

theorem node_main_spec_witness:
  "\<exists>n. node_main (\<lambda>x. x) pad32 sample_seeds (\<lambda>_. zero_time) all_listen closing (2 ^ 32 + 1) = MainServes n \<and> n_id n = 1"
proof -
  have "ucast (2 ^ 32 + 1 :: u64) = (1 :: node_id)" by simp
  then show ?thesis
    using node_main_spec [of sample_seeds pad32 "2 ^ 32 + 1" "\<lambda>x. x" "\<lambda>_. zero_time" all_listen closing,
        OF sample_seeds_ok length_pad32]
    by (auto simp: Let_def all_listen_def)
qed

end
