(* ===== verification/Node_Rounds.thy ===== *)
theory Node_Rounds
  imports Node
begin

text \<open>
  How transactions move the round of the consensus: through the transaction coordinator, the
  goroutine of the node that forwards blocks, and the loop of the consensus coordinator.
\<close>

text \<open>
  What a node does by itself and with its clients: every step of \<open>node_step\<close> but the messages
  from other nodes.
\<close>

inductive quiet_step :: "(byte list \<Rightarrow> byte list) \<Rightarrow> node \<Rightarrow> node \<Rightarrow> bool"
  for blake :: "byte list \<Rightarrow> byte list" where
  qs_start: "Node_Start blake now1 now2 ls st n \<in> {Start_returns err n', Start_waits n'} \<Longrightarrow> quiet_step blake n n'"
| qs_stop: "Node_Stop st n = Ok (ret, n') \<Longrightarrow> quiet_step blake n n'"
| qs_block: "forward_block blake n = Some n' \<Longrightarrow> quiet_step blake n n'"
| qs_vertex: "forward_vertex n = Some n' \<Longrightarrow> quiet_step blake n n'"
| qs_broadcast: "forward_broadcast n = Some n' \<Longrightarrow> quiet_step blake n n'"
| qs_output: "handle_output n = Some n' \<Longrightarrow> quiet_step blake n n'"
| qs_turn: "n_consensus n = Some cc \<Longrightarrow> run_turn blake now it vit envs ch cc = Some cc'
    \<Longrightarrow> quiet_step blake n (n\<lparr>n_consensus := Some cc'\<rparr>)"
| qs_transaction: "n_transaction n = Some ts
    \<Longrightarrow> tc = Tx_HandleMessage w1 w2 t1 t2 (ts_coord ts) data
      \<or> tc = snd (createBlock blake now elapsed (ts_coord ts)) \<or> tc = snd (printMetrics now (ts_coord ts))
    \<Longrightarrow> quiet_step blake n (n\<lparr>n_transaction := Some (ts\<lparr>ts_coord := tc\<rparr>)\<rparr>)"
| qs_send: "n_vertex n = Some vc \<Longrightarrow> broadcast_turn vo jobs vc = Some vc'
    \<Longrightarrow> quiet_step blake n (n\<lparr>n_vertex := Some vc'\<rparr>)"

lemma quiet_step_node_step: "quiet_step blake n n' \<Longrightarrow> node_step blake n n'"
  by (induction rule: quiet_step.induct)
    (auto intro: node_step.intros cc_turn)

lemma quiet_steps_node_steps: "(quiet_step blake)\<^sup>*\<^sup>* n n' \<Longrightarrow> (node_step blake)\<^sup>*\<^sup>* n n'"
  by (rule rtranclp_mono [THEN predicate2D, rotated]) (auto intro: quiet_step_node_step)

lemma Node_Start_frame:
  "Node_Start blake now1 now2 ls st n \<in> {Start_returns err n', Start_waits n'}
    \<Longrightarrow> n_id n' = n_id n \<and> n_committee n' = n_committee n"
  by (auto simp: Node_Start_def SetRunning_def Let_def split: if_splits option.splits prod.splits bool.splits)

lemma Node_Stop_frame:
  "Node_Stop st n = Ok (ret, n') \<Longrightarrow> n_id n' = n_id n \<and> n_committee n' = n_committee n"
  by (auto simp: Node_Stop_def SetRunning_def Let_def split: option.splits prod.splits bool.splits)

lemma quiet_step_frame:
  assumes "quiet_step blake n n'"
  shows "n_id n' = n_id n \<and> n_committee n' = n_committee n"
  using assms
proof (cases rule: quiet_step.cases)
  case qs_start
  then show ?thesis by (rule Node_Start_frame)
next
  case qs_stop
  then show ?thesis by (rule Node_Stop_frame)
next
  case qs_block
  then show ?thesis by (auto simp: forward_block_def split: option.splits prod.splits handled.splits)
next
  case qs_vertex
  then show ?thesis by (auto simp: forward_vertex_def Let_def split: option.splits prod.splits handled.splits)
next
  case qs_broadcast
  then show ?thesis by (auto simp: forward_broadcast_def Let_def split: option.splits prod.splits handled.splits)
next
  case qs_output
  then show ?thesis by (auto simp: handle_output_def IncrementCommittedVertices_def split: option.splits)
qed simp_all

lemma quiet_steps_frame:
  "(quiet_step blake)\<^sup>*\<^sup>* n n' \<Longrightarrow> n_id n' = n_id n \<and> n_committee n' = n_committee n"
  by (induction rule: rtranclp_induct) (auto dest: quiet_step_frame)

text \<open>
  The graph of a node with nothing but the genesis vertex that \<open>NewWithRound\<close> makes: of the
  node's own key, of round 0, with a new empty block and no parents.
\<close>

definition own_genesis :: "(byte list \<Rightarrow> byte list) \<Rightarrow> node \<Rightarrow> dag \<Rightarrow> bool" where
  "own_genesis blake n d \<longleftrightarrow> (\<exists>key now1 now2. GetNodeKey (n_committee n) (n_id n) = Some key
     \<and> d = NewDAG (NewVertex blake now2 key 0 (Some (NewBlock blake now1 0 None)) []))"

lemma own_genesis_simps [simp]:
  "own_genesis blake (n\<lparr>n_consensus := cc\<rparr>) d = own_genesis blake n d"
  "own_genesis blake (n\<lparr>n_transaction := ts\<rparr>) d = own_genesis blake n d"
  "own_genesis blake (n\<lparr>n_vertex := vc\<rparr>) d = own_genesis blake n d"
  "own_genesis blake (n\<lparr>n_running := b\<rparr>) d = own_genesis blake n d"
  "own_genesis blake (n\<lparr>n_done := b\<rparr>) d = own_genesis blake n d"
  by (simp_all add: own_genesis_def)

lemma own_genesis_frame:
  "n_id n' = n_id n \<Longrightarrow> n_committee n' = n_committee n \<Longrightarrow> own_genesis blake n' d = own_genesis blake n d"
  by (simp add: own_genesis_def)

lemma CC_New_genesis:
  assumes "CC_New blake now1 now2 (n_id n) (n_committee n) = Some cc"
  shows "own_genesis blake n (cc_dag cc)"
proof -
  obtain key where "GetNodeKey (n_committee n) (n_id n) = Some key"
    "cc_dag cc = NewDAG (NewVertex blake now2 key 0 (Some (NewBlock blake now1 0 None)) [])"
    using assms by (auto simp: CC_New_def NewWithRound_def Let_def split: option.splits)
  then show ?thesis unfolding own_genesis_def by (intro exI conjI)
qed

text \<open>A node whose queues between the transactions and the consensus are empty.\<close>

definition idle_node :: "node \<Rightarrow> tx_service \<Rightarrow> coordinator \<Rightarrow> bool" where
  "idle_node n ts cc \<longleftrightarrow> n_transaction n = Some ts \<and> n_consensus n = Some cc
     \<and> \<not> tc_done (ts_coord ts) \<and> 0 < bufferSize (ts_coord ts) \<and> txBuffer (ts_coord ts) = []
     \<and> ch_values (blockCh (ts_coord ts)) = [] \<and> 0 < ch_cap (blockCh (ts_coord ts))
     \<and> \<not> cc_done cc \<and> ch_values (cc_blockCh cc) = [] \<and> 0 < ch_cap (cc_blockCh cc)"

text \<open>
  One transaction: it is received, the next tick puts it into a block, the node forwards the block,
  and the consensus takes the height of the block for the round.
\<close>

lemma height_Block_Hash: "b_height (snd (Block_Hash blake b)) = b_height b"
  by (simp add: Block_Hash_def Let_def split: option.split)

lemma one_block:
  assumes "\<not> tc_done t" and "0 < bufferSize t" and "txBuffer t = []" and "ch_values (blockCh t) = []" and "0 < ch_cap (blockCh t)"
    and "length (tx :: transaction) \<le> BlockSize Config"
  obtains b where "b_height b = blockHeight t"
    "txBuffer (snd (createBlock blake zero_time 0 (Tx_HandleMessage 0 0 0 0 t tx))) = []"
    "bufferSize (snd (createBlock blake zero_time 0 (Tx_HandleMessage 0 0 0 0 t tx))) = bufferSize t"
    "\<not> tc_done (snd (createBlock blake zero_time 0 (Tx_HandleMessage 0 0 0 0 t tx)))"
    "blockCh (snd (createBlock blake zero_time 0 (Tx_HandleMessage 0 0 0 0 t tx))) = \<lparr>ch_values = [b], ch_cap = ch_cap (blockCh t)\<rparr>"
    "blockHeight (snd (createBlock blake zero_time 0 (Tx_HandleMessage 0 0 0 0 t tx))) = blockHeight t + 1"
proof -
  let ?t1 = "Tx_HandleMessage 0 0 0 0 t tx"
  have b1: "txBuffer ?t1 = [tx]" "bufferSize ?t1 = bufferSize t" "\<not> tc_done ?t1" "blockCh ?t1 = blockCh t"
    "blockHeight ?t1 = blockHeight t"
    using assms by (simp_all add: Tx_HandleMessage_def AddTransaction_def add_check_def add_commit_def add_finish_def
        upd_metrics_def Let_def)
  let ?t2 = "snd (createBlock blake zero_time 0 ?t1)" and ?b = "next_block blake zero_time ?t1"
  have ne: "txBuffer ?t1 \<noteq> []" using b1(1) by simp
  have "createBlock blake zero_time 0 ?t1 = (fst (createBlock blake zero_time 0 ?t1), ?t2)" by simp
  note f = createBlock_fields [OF ne this]
  have "ch_values (blockCh ?t2) = [?b]" "ch_cap (blockCh ?t2) = ch_cap (blockCh t)" using f(10,11) b1 assms by auto
  then have "blockCh ?t2 = \<lparr>ch_values = [?b], ch_cap = ch_cap (blockCh t)\<rparr>" by (simp add: chan.equality)
  moreover have "txBuffer ?t2 = []" "bufferSize ?t2 = bufferSize t" "\<not> tc_done ?t2" "blockHeight ?t2 = blockHeight t + 1"
    using f(1-4) b1 assms(6) by auto
  moreover have "b_height ?b = blockHeight t" using b1(5) by simp
  ultimately show thesis using that by blast
qed

lemma one_transaction:
  assumes "idle_node n ts cc" and "length (tx :: transaction) \<le> BlockSize Config"
  shows "\<exists>n' ts' cc'. (quiet_step blake)\<^sup>*\<^sup>* n n' \<and> idle_node n' ts' cc'
     \<and> blockHeight (ts_coord ts') = blockHeight (ts_coord ts) + 1 \<and> cc_dag cc' = cc_dag cc
     \<and> cc_round cc' = (if cc_round cc \<le> blockHeight (ts_coord ts) then blockHeight (ts_coord ts) else cc_round cc)"
proof -
  note idle = assms(1) [unfolded idle_node_def]
  let ?t = "ts_coord ts"
  let ?t1 = "Tx_HandleMessage 0 0 0 0 ?t tx"
  let ?t2 = "snd (createBlock blake zero_time 0 ?t1)"
  obtain b where b: "b_height b = blockHeight ?t" and b2: "txBuffer ?t2 = []" "bufferSize ?t2 = bufferSize ?t" "\<not> tc_done ?t2"
    "blockCh ?t2 = \<lparr>ch_values = [b], ch_cap = ch_cap (blockCh ?t)\<rparr>" "blockHeight ?t2 = blockHeight ?t + 1"
    by (rule one_block [of ?t tx blake]) (use idle assms(2) in simp_all)
  let ?ts1 = "ts\<lparr>ts_coord := ?t1\<rparr>" and ?ts2 = "ts\<lparr>ts_coord := ?t2\<rparr>"
  let ?n1 = "n\<lparr>n_transaction := Some ?ts1\<rparr>" and ?n2 = "n\<lparr>n_transaction := Some ?ts2\<rparr>"
  have s1: "quiet_step blake n ?n1"
    by (rule qs_transaction [of n ts ?t1 0 0 0 0 tx blake zero_time 0]) (use idle in simp_all)
  have "quiet_step blake ?n1 (?n1\<lparr>n_transaction := Some (?ts1\<lparr>ts_coord := ?t2\<rparr>)\<rparr>)"
    by (rule qs_transaction [of ?n1 ?ts1 ?t2 0 0 0 0 tx blake zero_time 0]) simp_all
  then have s2: "quiet_step blake ?n1 ?n2" by simp
  let ?ch = "(blockCh ?t2)\<lparr>ch_values := []\<rparr>"
  have ch: "chan_recv (blockCh ?t2) = Some (b, ?ch)" "ch_cap ?ch = ch_cap (blockCh ?t)"
    using b2(4) by (simp_all add: chan_recv_def)
  let ?cc1 = "cc\<lparr>cc_blockCh := (cc_blockCh cc)\<lparr>ch_values := [snd (Block_Hash blake b)]\<rparr>\<rparr>"
  have "CC_HandleBlock blake b cc = (Taken, ?cc1)"
    using idle by (simp add: CC_HandleBlock_def chan_send_def)
  let ?ts3 = "?ts2\<lparr>ts_coord := ?t2\<lparr>blockCh := ?ch\<rparr>\<rparr>"
  let ?n3 = "?n2\<lparr>n_transaction := Some ?ts3, n_consensus := Some ?cc1\<rparr>"
  have "forward_block blake ?n2 = Some ?n3"
    using idle ch(1) \<open>CC_HandleBlock blake b cc = _\<close> by (simp add: forward_block_def)
  then have s3: "quiet_step blake ?n2 ?n3" by (rule qs_block)
  let ?cc2 = "handleBlock blake (snd (Block_Hash blake b)) (?cc1\<lparr>cc_blockCh := (cc_blockCh cc)\<lparr>ch_values := []\<rparr>\<rparr>)"
  have cc2: "run_turn blake zero_time rev rev (\<lambda>_. good_env 0) FromBlockCh ?cc1 = Some ?cc2"
    by (simp add: run_turn_def chan_recv_def)
  have round2: "cc_round ?cc2 = (if cc_round cc \<le> blockHeight ?t then blockHeight ?t else cc_round cc)"
    using b by (simp add: height_Block_Hash)
  let ?n4 = "?n3\<lparr>n_consensus := Some ?cc2\<rparr>"
  have s4: "quiet_step blake ?n3 ?n4"
    by (rule qs_turn [OF _ cc2]) simp
  have "(quiet_step blake)\<^sup>*\<^sup>* n ?n4"
    using s1 s2 s3 s4 by (meson rtranclp.rtrancl_refl rtranclp.rtrancl_into_rtrancl)
  moreover have "idle_node ?n4 ?ts3 ?cc2" using idle b2 ch by (simp add: idle_node_def)
  moreover have "blockHeight (ts_coord ?ts3) = blockHeight ?t + 1" using b2(5) by simp
  moreover have "cc_dag ?cc2 = cc_dag cc" by simp
  ultimately show ?thesis using round2 by blast
qed


lemma transactions_raise_round:
  assumes "idle_node n ts cc" and "blockHeight (ts_coord ts) = 0" and "cc_round cc = 0"
    and "k < 2 ^ 64"
  shows "\<exists>n' ts' cc'. (quiet_step blake)\<^sup>*\<^sup>* n n' \<and> idle_node n' ts' cc' \<and> cc_dag cc' = cc_dag cc
     \<and> cc_round cc' = of_nat k \<and> blockHeight (ts_coord ts') = of_nat (Suc k)"
  using assms(4)
proof (induction k)
  case 0
  show ?case
    using one_transaction [OF assms(1), of "[]" blake] assms(2,3) by (auto simp: Config_def)
next
  case (Suc k)
  then obtain n1 ts1 cc1 where 1: "(quiet_step blake)\<^sup>*\<^sup>* n n1" "idle_node n1 ts1 cc1" "cc_dag cc1 = cc_dag cc"
    "cc_round cc1 = of_nat k" "blockHeight (ts_coord ts1) = of_nat (Suc k)"
    by auto
  obtain n2 ts2 cc2 where 2: "(quiet_step blake)\<^sup>*\<^sup>* n1 n2" "idle_node n2 ts2 cc2" "cc_dag cc2 = cc_dag cc1"
    "blockHeight (ts_coord ts2) = blockHeight (ts_coord ts1) + 1"
    "cc_round cc2 = (if cc_round cc1 \<le> blockHeight (ts_coord ts1) then blockHeight (ts_coord ts1) else cc_round cc1)"
    using one_transaction [OF 1(2), of "[]" blake] by (auto simp: Config_def)
  have "(of_nat k :: u64) \<le> of_nat (Suc k)"
    using Suc.prems by (simp add: word_le_nat_alt unat_of_nat64 del: of_nat_Suc)
  then show ?case
    using 1 2 by (intro exI [of _ n2] exI [of _ ts2] exI [of _ cc2]) (auto intro: rtranclp_trans)
qed

lemma started_idle:
  assumes "Node_Start blake now1 now2 ls st n = Start_returns None n1"
  obtains ts cc where "idle_node n1 ts cc" "blockHeight (ts_coord ts) = 0" "cc_round cc = 0"
    "own_genesis blake n1 (cc_dag cc)"
proof -
  obtain cc where cc: "CC_New blake now1 now2 (n_id n) (n_committee n) = Some cc" and run: "\<not> IsRunning n"
    using assms by (auto simp: Node_Start_def split: if_splits option.splits)
  let ?ts = "tx_service_new (n_id n) (n_committee n)" and ?vc = "VC_New (n_id n) (n_committee n)"
  obtain e1 ts1 where t: "Tx_Start (tx_listens ls) ?ts = (e1, ts1)" by fastforce
  obtain e2 vc1 where v: "VC_Start (vertex_listens ls) ?vc = (e2, vc1)" by fastforce
  obtain e3 cc1 where c: "CC_Start (consensus_listens ls) cc = (e3, cc1)" by fastforce
  have n1: "n1 = SetRunning True (n\<lparr>n_consensus := Some cc1, n_transaction := Some ts1, n_vertex := Some vc1\<rparr>)"
    using assms cc run t v c by (auto simp: Node_Start_def Let_def split: option.splits prod.splits bool.splits)
  have "own_genesis blake n1 (cc_dag cc)"
    using CC_New_genesis [OF cc] own_genesis_frame [of n1 n] by (simp add: n1 SetRunning_def)
  moreover have "\<not> cc_done cc" "ch_values (cc_blockCh cc) = []" "ch_cap (cc_blockCh cc) = 1000" "cc_round cc = 0"
    using cc by (auto simp: CC_New_def NewWithRound_def Let_def split: option.splits)
  moreover have "cc_done cc1 = cc_done cc" "cc_blockCh cc1 = cc_blockCh cc" "cc_round cc1 = cc_round cc" "cc_dag cc1 = cc_dag cc"
    using c by (auto simp: CC_Start_def split: option.splits prod.splits)
  moreover have "ts_coord ts1 = Tx_New (n_id n) (n_committee n)"
    using t by (auto simp: Tx_Start_def tx_service_new_def split: option.splits prod.splits bool.splits)
  ultimately have "idle_node n1 ts1 cc1 \<and> blockHeight (ts_coord ts1) = 0"
    by (simp add: idle_node_def n1 SetRunning_def Tx_New_def DefaultChannelCapacity_def)
  then show thesis using that [of ts1 cc1] \<open>cc_round cc = 0\<close> \<open>own_genesis blake n1 (cc_dag cc)\<close>
      \<open>cc_round cc1 = cc_round cc\<close> \<open>cc_dag cc1 = cc_dag cc\<close> by simp
qed

text \<open>
  A started node can reach every consensus round by its own transactions alone: each
  transaction becomes a block whose height counts the blocks, the node forwards it, and
  the consensus takes that height for its round, while its graph has nothing but the
  genesis vertex.
\<close>

theorem transactions_drive_round:
  assumes "Node_Start blake now1 now2 ls st n = Start_returns None n1" and "k < 2 ^ 64"
  shows "\<exists>n2 cc. (node_step blake)\<^sup>*\<^sup>* n1 n2 \<and> n_consensus n2 = Some cc
     \<and> cc_round cc = of_nat k \<and> own_genesis blake n1 (cc_dag cc)"
proof -
  obtain ts cc where s: "idle_node n1 ts cc" "blockHeight (ts_coord ts) = 0" "cc_round cc = 0"
    "own_genesis blake n1 (cc_dag cc)"
    using started_idle [OF assms(1)] .
  obtain n2 ts2 cc2 where "(node_step blake)\<^sup>*\<^sup>* n1 n2" "idle_node n2 ts2 cc2" "cc_dag cc2 = cc_dag cc" "cc_round cc2 = of_nat k"
    using transactions_raise_round [OF s(1-3) assms(2), of blake] quiet_steps_node_steps by blast
  then show ?thesis using s(4) by (auto simp: idle_node_def)
qed

theorem transactions_drive_round_witness:
  "\<exists>n1 n2 cc. Node_Start rev zero_time zero_time all_listen closing sample_node = Start_returns None n1
     \<and> (node_step rev)\<^sup>*\<^sup>* n1 n2 \<and> n_consensus n2 = Some cc \<and> cc_round cc = 1000000
     \<and> own_genesis rev n1 (cc_dag cc)"
proof -
  have "map_of (Validators (n_committee sample_node)) (n_id sample_node) = Some (genesis_validator (\<lambda>x. x) (\<lambda>x. x) [2])"
    "\<not> IsRunning sample_node"
    by (simp_all add: sample_node_def sample_committee_def IsRunning_def)
  from Node_Start_result [OF this, of rev zero_time zero_time all_listen closing]
  obtain n1 where n1: "Node_Start rev zero_time zero_time all_listen closing sample_node = Start_returns None n1"
    by (auto simp: all_listen_def)
  show ?thesis using n1 transactions_drive_round [OF n1, of 1000000] by simp
qed

end
