(* ===== verification/Node_System.thy ===== *)
theory Node_System
  imports Node_Rounds
begin

text \<open>
  Several nodes as one system.  Each node does what it does by itself and with its clients
  (\<open>quiet_step\<close>), and what it gets from another node is what some node wrote.  No node lies, but
  the network may delay, lose, repeat and interrupt, and may bring a message to any node.
\<close>

section \<open>What a connection hands over\<close>

fun carried :: "conn_event list \<Rightarrow> byte list" where
  "carried [] = []"
| "carried (Byte b # es) = b # carried es"
| "carried (Fail # es) = carried es"

text \<open>The messages that the loop of a connection hands over, also when it never returns.\<close>

inductive handed :: "conn \<Rightarrow> byte list \<Rightarrow> bool" where
  handed_now: "conn_turn c = Deliver m c' \<Longrightarrow> handed c m"
| handed_later: "conn_turn c = Deliver x c' \<Longrightarrow> handed c' m \<Longrightarrow> handed c m"
| handed_on: "conn_turn c = Continue c' \<Longrightarrow> handed c' m \<Longrightarrow> handed c m"

lemma read_full_carried:
  "read_full e n acc es = (r, es') \<Longrightarrow>
     length (carried es') \<le> length (carried es) \<and> (\<forall>bs. r = Inr bs \<longrightarrow> length (carried es) = length (carried es') + n)"
  by (induction e n acc es rule: read_full.induct) auto

lemma ReadFull_carried:
  "ReadFull n c = (r, c') \<Longrightarrow> length (carried (c_events c')) \<le> length (carried (c_events c))
     \<and> (\<forall>bs. r = Inr bs \<longrightarrow> length (carried (c_events c)) = length (carried (c_events c')) + n)"
  by (auto simp: ReadFull_def split: prod.splits dest: read_full_carried)

lemma conn_turn_carried:
  "conn_turn c = Deliver m c' \<Longrightarrow> 4 + length (carried (c_events c')) + length m \<le> length (carried (c_events c))"
  "conn_turn c = Continue c' \<Longrightarrow> length (carried (c_events c')) \<le> length (carried (c_events c))"
proof -
  show "conn_turn c = Continue c' \<Longrightarrow> length (carried (c_events c')) \<le> length (carried (c_events c))"
    by (fastforce simp: conn_turn_def Let_def split: prod.splits sum.splits if_splits dest: ReadFull_carried)
  assume d: "conn_turn c = Deliver m c'"
  then obtain header c1 where r: "ReadFull 4 c = (Inr header, c1)" "ReadFull (unat (get_u32 header)) c1 = (Inr m, c')"
    by (auto simp: conn_turn_def Let_def split: prod.splits sum.splits if_splits)
  have "length m = unat (get_u32 header)"
    using r(2) read_full_len by (force simp: ReadFull_def split: prod.splits)
  then show "4 + length (carried (c_events c')) + length m \<le> length (carried (c_events c))"
    using ReadFull_carried [OF r(1)] ReadFull_carried [OF r(2)] by simp
qed

text \<open>A message that is handed over was carried, header and data.\<close>

lemma handed_length: "handed c m \<Longrightarrow> 4 + length m \<le> length (carried (c_events c))"
  by (induction rule: handed.induct) (auto dest: conn_turn_carried)

section \<open>The system\<close>

text \<open>The bytes that the senders of a node have written, connection by connection.\<close>

definition node_senders :: "node \<Rightarrow> sender set" where
  "node_senders n = set_option (Option.bind (n_consensus n) cc_sender)
     \<union> set_option (Option.bind (n_transaction n) ts_sender) \<union> set_option (Option.bind (n_vertex n) vc_sender)"

definition node_wires :: "node \<Rightarrow> byte list set" where
  "node_wires n = {s_wire s c | s c. s \<in> node_senders n}"

text \<open>The nodes, and what was ever written on a connection.\<close>

record system =
  sy_nodes :: "node list"
  sy_wires :: "byte list set"

text \<open>
  A message can arrive when a connection that carries, between whatever errors, the beginning
  of what was written hands it over.
\<close>

definition arrives :: "byte list \<Rightarrow> system \<Rightarrow> bool" where
  "arrives m sy \<longleftrightarrow> (\<exists>c. handed c m \<and> (\<exists>w\<in>sy_wires sy. prefix (carried (c_events c)) w))"

definition put_node :: "nat \<Rightarrow> node \<Rightarrow> system \<Rightarrow> system" where
  "put_node i n sy = sy\<lparr>sy_nodes := (sy_nodes sy)[i := n], sy_wires := sy_wires sy \<union> node_wires n\<rparr>"

inductive system_step :: "(byte list \<Rightarrow> byte list) \<Rightarrow> system \<Rightarrow> system \<Rightarrow> bool"
  for blake :: "byte list \<Rightarrow> byte list" where
  sy_quiet: "i < length (sy_nodes sy) \<Longrightarrow> quiet_step blake (sy_nodes sy ! i) n \<Longrightarrow> system_step blake sy (put_node i n sy)"
| sy_consensus: "i < length (sy_nodes sy) \<Longrightarrow> arrives m sy \<Longrightarrow> n_consensus (sy_nodes sy ! i) = Some cc
    \<Longrightarrow> CC_HandleMessage blake now it m cc = (res, cc')
    \<Longrightarrow> system_step blake sy (put_node i ((sy_nodes sy ! i)\<lparr>n_consensus := Some cc'\<rparr>) sy)"
| sy_vertex: "i < length (sy_nodes sy) \<Longrightarrow> arrives m sy \<Longrightarrow> n_vertex (sy_nodes sy ! i) = Some vc
    \<Longrightarrow> VC_HandleMessage blake now it pick m vc = (res, vc')
    \<Longrightarrow> system_step blake sy (put_node i ((sy_nodes sy ! i)\<lparr>n_vertex := Some vc'\<rparr>) sy)"

definition system_init ::
  "(byte list \<Rightarrow> byte list) \<Rightarrow> (byte list \<Rightarrow> byte list) \<Rightarrow> ((nat \<Rightarrow> byte list option) \<times> node_id) list \<Rightarrow> system \<Rightarrow> bool" where
  "system_init pub blake setups sy \<longleftrightarrow> sy_wires sy = {}
     \<and> list_all2 (\<lambda>s n. node_init pub blake (fst s) (snd s) n) setups (sy_nodes sy)"

lemma list_all2_put: "list_all2 P xs ys \<Longrightarrow> P (xs ! i) y \<Longrightarrow> list_all2 P xs (ys[i := y])"
  by (metis list_all2_update_cong list_update_id)

text \<open>A step of the system is a step of one of its nodes, so what holds of a node alone holds of each of them.\<close>

lemma system_step_node:
  assumes "system_step blake sy sy'"
  obtains i n where "i < length (sy_nodes sy)" "node_step blake (sy_nodes sy ! i) n" "sy' = put_node i n sy"
  using assms
proof (cases rule: system_step.cases)
  case (sy_quiet i n)
  then show ?thesis using that quiet_step_node_step by blast
next
  case (sy_consensus i m cc now it res cc')
  then show ?thesis using that cc_message ns_consensus by blast
next
  case (sy_vertex i m vc now it pick res vc')
  then show ?thesis using that ns_message by blast
qed

lemma system_nodes_reachable:
  assumes "reach (system_init pub blake setups) (system_step blake) sy"
  shows "list_all2 (\<lambda>s n. reach (node_init pub blake (fst s) (snd s)) (node_step blake) n) setups (sy_nodes sy)"
  using assms
proof (induction rule: reach.induct)
  case (reach_init sy)
  then show ?case by (auto simp: system_init_def elim!: list_all2_mono intro: reach.reach_init)
next
  case (reach_step sy sy')
  obtain i n where *: "i < length (sy_nodes sy)" "node_step blake (sy_nodes sy ! i) n" "sy' = put_node i n sy"
    using reach_step.hyps(2) by (rule system_step_node)
  have "reach (node_init pub blake (fst (setups ! i)) (snd (setups ! i))) (node_step blake) n"
    using list_all2_nthD2 [OF reach_step.IH *(1)] *(2) by (rule reach.reach_step)
  from list_all2_put [OF reach_step.IH this] show ?case by (simp add: *(3) put_node_def)
qed

section \<open>Silence\<close>

definition unwritten :: "sender option \<Rightarrow> bool" where
  "unwritten so \<longleftrightarrow> (\<forall>s. so = Some s \<longrightarrow> s_wire s = (\<lambda>_. []))"

definition quiet_node :: "(byte list \<Rightarrow> byte list) \<Rightarrow> node \<Rightarrow> bool" where
  "quiet_node blake n \<longleftrightarrow>
     (\<forall>cc. n_consensus n = Some cc \<longrightarrow> ch_values (cc_vertexCh cc) = [] \<and> own_genesis blake n (cc_dag cc) \<and> unwritten (cc_sender cc))
   \<and> (\<forall>ts. n_transaction n = Some ts \<longrightarrow> unwritten (ts_sender ts))
   \<and> (\<forall>vc. n_vertex n = Some vc \<longrightarrow> ch_values (vc_vertexCh vc) = [] \<and> unwritten (vc_sender vc))"

lemma quiet_node_wires: "quiet_node blake n \<Longrightarrow> node_wires n \<subseteq> {[]}"
  by (auto simp: quiet_node_def node_wires_def node_senders_def unwritten_def bind_eq_Some_conv)

lemma unwritten_simps [simp]: "unwritten None" "unwritten (Some NewSender)" "unwritten (map_option Sender_Close so) = unwritten so"
  by (auto simp: unwritten_def NewSender_def Sender_Close_def)

lemma quiet_Stop:
  "CC_Stop env cc = (b, cc') \<Longrightarrow> cc_vertexCh cc' = cc_vertexCh cc \<and> cc_dag cc' = cc_dag cc \<and> unwritten (cc_sender cc') = unwritten (cc_sender cc)"
  "Tx_Stop env ts = (b, ts') \<Longrightarrow> unwritten (ts_sender ts') = unwritten (ts_sender ts)"
  "VC_Stop env vc = (b, vc') \<Longrightarrow> vc_vertexCh vc' = vc_vertexCh vc \<and> unwritten (vc_sender vc') = unwritten (vc_sender vc)"
  by (auto simp: CC_Stop_def Tx_Stop_def VC_Stop_def Let_def split: if_splits)

lemma quiet_new:
  "CC_New blake now1 now2 nid com = Some cc \<Longrightarrow> ch_values (cc_vertexCh cc) = [] \<and> cc_sender cc = None"
  "CC_Start ok cc = (e, cc') \<Longrightarrow> cc_vertexCh cc' = cc_vertexCh cc \<and> cc_dag cc' = cc_dag cc \<and> (unwritten (cc_sender cc) \<longrightarrow> unwritten (cc_sender cc'))"
  "Tx_Start ok ts = (e, ts') \<Longrightarrow> unwritten (ts_sender ts) \<Longrightarrow> unwritten (ts_sender ts')"
  "VC_Start ok vc = (e, vc') \<Longrightarrow> vc_vertexCh vc' = vc_vertexCh vc \<and> (unwritten (vc_sender vc) \<longrightarrow> unwritten (vc_sender vc'))"
  "ts_sender (tx_service_new nid com) = None" "vc_sender (VC_New nid com) = None" "ch_values (vc_vertexCh (VC_New nid com)) = []"
  by (auto simp: CC_New_def NewWithRound_def CC_Start_def Tx_Start_def VC_Start_def tx_service_new_def VC_New_def Let_def
      split: option.splits prod.splits bool.splits if_splits)

lemma quiet_stop:
  assumes "Node_Stop st n = Ok (ret, n')" and "quiet_node blake n"
  shows "quiet_node blake n'"
proof -
  obtain cc ts vc where *: "n_consensus n = Some cc" "n_transaction n = Some ts" "n_vertex n = Some vc"
    using assms(1) by (simp add: Node_Stop_def Let_def split: option.splits)
  obtain b1 cc' where c: "CC_Stop (consensus_stop st) cc = (b1, cc')" by fastforce
  obtain b2 ts' where t: "Tx_Stop (tx_stop st) ts = (b2, ts')" by fastforce
  obtain b3 vc' where v: "VC_Stop (vertex_stop st) vc = (b3, vc')" by fastforce
  show ?thesis
    using assms * Node_Stop_cases [OF * c t v] quiet_Stop(1) [OF c] quiet_Stop(2) [OF t] quiet_Stop(3) [OF v]
    by (auto simp: quiet_node_def)
qed

lemma quiet_start:
  assumes "Node_Start blake now1 now2 ls st n \<in> {Start_returns err n', Start_waits n'}" and "quiet_node blake n"
  shows "quiet_node blake n'"
proof (cases "IsRunning n")
  case True
  then show ?thesis using assms by (simp add: Node_Start_def)
next
  case False
  obtain cc where cc: "CC_New blake now1 now2 (n_id n) (n_committee n) = Some cc"
    using assms(1) False by (auto simp: Node_Start_def split: option.splits)
  obtain e1 ts1 where t: "Tx_Start (tx_listens ls) (tx_service_new (n_id n) (n_committee n)) = (e1, ts1)" by fastforce
  obtain e2 vc1 where v: "VC_Start (vertex_listens ls) (VC_New (n_id n) (n_committee n)) = (e2, vc1)" by fastforce
  obtain e3 cc1 where c: "CC_Start (consensus_listens ls) cc = (e3, cc1)" by fastforce
  obtain b1 ts2 where ts: "Tx_Stop (tx_stop st) ts1 = (b1, ts2)" by fastforce
  obtain b2 vc2 where vs: "VC_Stop (vertex_stop st) vc1 = (b2, vc2)" by fastforce
  note facts = CC_New_genesis [OF cc] quiet_new(1) [OF cc] quiet_new(2) [OF c] quiet_new(3) [OF t] quiet_new(4) [OF v] quiet_Stop(2) [OF ts] quiet_Stop(3) [OF vs]
    quiet_new(5-)
  show ?thesis
    using assms(1) False cc t v c ts vs
    by (cases e1; cases e2; cases e3; cases b1; cases b2)
      (simp_all add: Node_Start_def Let_def, use facts in \<open>auto simp: quiet_node_def SetRunning_def\<close>)
qed

lemma quiet_forward_block:
  assumes "forward_block blake n = Some n'" and "quiet_node blake n"
  shows "quiet_node blake n'"
  using assms
  by (auto simp: forward_block_def quiet_node_def CC_HandleBlock_def Let_def split: option.splits prod.splits handled.splits if_splits)

lemma quiet_turn:
  assumes "run_turn blake now it vit envs ch cc = Some cc'" and "ch_values (cc_vertexCh cc) = []"
  shows "cc_vertexCh cc' = cc_vertexCh cc \<and> cc_dag cc' = cc_dag cc \<and> cc_sender cc' = cc_sender cc"
  using assms chan.get_None [of "cc_vertexCh cc"]
  by (auto simp: run_turn_def handleBlock_def Let_def split: choice.splits option.splits)

lemma quiet_node_step:
  assumes "quiet_step blake n n'" and "node_ok blake nid n" and "quiet_node blake n"
  shows "quiet_node blake n'"
  using assms(1)
proof (cases rule: quiet_step.cases)
  case qs_start
  then show ?thesis using quiet_start assms(3) by blast
next
  case qs_stop
  then show ?thesis using quiet_stop assms(3) by blast
next
  case qs_block
  then show ?thesis using assms(3) by (rule quiet_forward_block)
next
  case qs_vertex
  then obtain vc v ch where "n_vertex n = Some vc" "chan_recv (vc_vertexCh vc) = Some (v, ch)"
    by (auto simp: forward_vertex_def split: option.splits)
  then show ?thesis using assms(3) chan.get_None [of "vc_vertexCh vc"] by (simp add: quiet_node_def)
next
  case qs_broadcast
  then show ?thesis using node_ok_silent(1) [OF assms(2)] by simp
next
  case qs_output
  then show ?thesis using node_ok_silent(2) [OF assms(2)] by simp
next
  case (qs_turn cc now it vit envs ch cc')
  then show ?thesis using assms(3) quiet_turn [OF qs_turn(3)] by (simp add: quiet_node_def)
next
  case qs_transaction
  then show ?thesis using assms(3) by (auto simp: quiet_node_def)
next
  case qs_send
  then show ?thesis using node_ok_silent(3) [OF assms(2)] by simp
qed

text \<open>Where nothing was written nothing arrives.\<close>

lemma nothing_arrives: "sy_wires sy \<subseteq> {[]} \<Longrightarrow> \<not> arrives m sy"
  using handed_length by (fastforce simp: arrives_def)

definition system_ok :: "(byte list \<Rightarrow> byte list) \<Rightarrow> ((nat \<Rightarrow> byte list option) \<times> node_id) list \<Rightarrow> system \<Rightarrow> bool" where
  "system_ok blake setups sy \<longleftrightarrow> sy_wires sy \<subseteq> {[]}
     \<and> list_all2 (\<lambda>s n. node_ok blake (snd s) n \<and> quiet_node blake n) setups (sy_nodes sy)"

lemma quiet_init: "node_init pub blake rnd nid n \<Longrightarrow> node_ok blake nid n \<and> quiet_node blake n"
  using node_inv.init_inv [of pub blake rnd nid n]
  by (auto simp: node_init_def quiet_node_def dest: Node_New_parts)

lemma system_ok_step:
  assumes "system_step blake sy sy'" and "system_ok blake setups sy"
  shows "system_ok blake setups sy'"
  using assms(1)
proof (cases rule: system_step.cases)
  case (sy_quiet i n)
  have all: "list_all2 (\<lambda>s n. node_ok blake (snd s) n \<and> quiet_node blake n) setups (sy_nodes sy)"
    using assms(2) by (simp add: system_ok_def)
  have new: "node_ok blake (snd (setups ! i)) n \<and> quiet_node blake n"
    using list_all2_nthD2 [OF all sy_quiet(2)] sy_quiet(3) node_ok_step [OF quiet_step_node_step] quiet_node_step by blast
  then show ?thesis
    using assms(2) list_all2_put [OF all new] quiet_node_wires [of blake n] unfolding sy_quiet(1) put_node_def
    by (simp add: system_ok_def)
next
  case sy_consensus
  then show ?thesis using assms(2) nothing_arrives by (auto simp: system_ok_def)
next
  case sy_vertex
  then show ?thesis using assms(2) nothing_arrives by (auto simp: system_ok_def)
qed

interpretation system_inv: inductive_invariant "system_init pub blake setups" "system_step blake" "system_ok blake setups"
proof
  show "system_ok blake setups sy" if "system_init pub blake setups sy" for sy
    using that quiet_init by (fastforce simp: system_init_def system_ok_def elim!: list_all2_mono)
  show "system_ok blake setups sy'" if "system_ok blake setups sy" "system_step blake sy sy'" for sy sy'
    using system_ok_step that by blast
qed

text \<open>
  C24. In a system of nodes that only do what the program does, over a network that may
  lose, delay, repeat, cut off and misdeliver, no node ever writes a byte to another, no
  message can arrive anywhere, and every graph keeps nothing but the genesis vertex of its
  own node.
\<close>

theorem honest_nodes_never_communicate:
  assumes "reach (system_init pub blake setups) (system_step blake) sy" and "n \<in> set (sy_nodes sy)"
  shows "node_wires n \<subseteq> {[]} \<and> (\<nexists>m. arrives m sy) \<and> (\<forall>cc. n_consensus n = Some cc \<longrightarrow> own_genesis blake n (cc_dag cc))"
proof -
  have ok: "system_ok blake setups sy" by (rule system_inv.reach_inv [OF assms(1)])
  obtain i where i: "i < length (sy_nodes sy)" "n = sy_nodes sy ! i" using assms(2) by (metis in_set_conv_nth)
  have "quiet_node blake n" using ok i by (auto simp: system_ok_def dest!: list_all2_nthD2)
  then show ?thesis
    using ok nothing_arrives [of sy] quiet_node_wires by (simp add: system_ok_def) (auto simp: quiet_node_def)
qed

section \<open>Rounds drift apart\<close>

lemma quiet_steps_system:
  assumes "(quiet_step blake)\<^sup>*\<^sup>* (sy_nodes sy ! i) n" and "i < length (sy_nodes sy)"
  shows "\<exists>sy'. (system_step blake)\<^sup>*\<^sup>* sy sy' \<and> sy_nodes sy' = (sy_nodes sy)[i := n]"
  using assms(1)
proof (induction rule: rtranclp_induct)
  case base
  show ?case by (intro exI [of _ sy]) simp
next
  case (step n n')
  then obtain sy1 where sy1: "(system_step blake)\<^sup>*\<^sup>* sy sy1" "sy_nodes sy1 = (sy_nodes sy)[i := n]" by blast
  have "system_step blake sy1 (put_node i n' sy1)"
    by (rule sy_quiet) (use sy1(2) step(2) assms(2) in simp_all)
  then show ?case
    using sy1 by (intro exI [of _ "put_node i n' sy1"]) (auto simp: put_node_def intro: rtranclp.rtrancl_into_rtrancl)
qed

definition just_started :: "(byte list \<Rightarrow> byte list) \<Rightarrow> node \<Rightarrow> bool" where
  "just_started blake n \<longleftrightarrow> (\<exists>now1 now2 ls st n0. Node_Start blake now1 now2 ls st n0 = Start_returns None n)"

definition at_round :: "(byte list \<Rightarrow> byte list) \<Rightarrow> nat \<Rightarrow> node \<Rightarrow> bool" where
  "at_round blake k n \<longleftrightarrow> (\<exists>cc. n_consensus n = Some cc \<and> cc_round cc = of_nat k \<and> own_genesis blake n (cc_dag cc))"

lemma just_startedI: "Node_Start blake now1 now2 ls st n0 = Start_returns None n \<Longrightarrow> just_started blake n"
  unfolding just_started_def by (intro exI)

lemma started_reaches_round:
  assumes "just_started blake n" and "k < 2 ^ 64"
  shows "\<exists>n'. (quiet_step blake)\<^sup>*\<^sup>* n n' \<and> at_round blake k n'"
proof -
  obtain now1 now2 ls st n0 where "Node_Start blake now1 now2 ls st n0 = Start_returns None n"
    using assms(1) by (auto simp: just_started_def)
  then obtain ts cc where s: "idle_node n ts cc" "blockHeight (ts_coord ts) = 0" "cc_round cc = 0"
    "own_genesis blake n (cc_dag cc)"
    by (rule started_idle)
  obtain n' ts' cc' where n': "(quiet_step blake)\<^sup>*\<^sup>* n n'" "idle_node n' ts' cc'" "cc_dag cc' = cc_dag cc"
    "cc_round cc' = of_nat k"
    using transactions_raise_round [OF s(1-3) assms(2), of blake] by blast
  have "own_genesis blake n' (cc_dag cc')"
    using own_genesis_frame [of n' n] quiet_steps_frame [OF n'(1)] s(4) n'(3) by simp
  then show ?thesis using n' by (intro exI [of _ n']) (simp add: idle_node_def at_round_def)
qed

lemma rounds_diverge:
  assumes "\<forall>n\<in>set (sy_nodes sy). just_started blake n" and "\<forall>k\<in>set ks. k < 2 ^ 64" and "length ks = length (sy_nodes sy)"
    and "m \<le> length ks"
  shows "\<exists>sy'. (system_step blake)\<^sup>*\<^sup>* sy sy' \<and> length (sy_nodes sy') = length ks
     \<and> (\<forall>i<m. at_round blake (ks ! i) (sy_nodes sy' ! i)) \<and> (\<forall>i. m \<le> i \<longrightarrow> sy_nodes sy' ! i = sy_nodes sy ! i)"
  using assms(4)
proof (induction m)
  case 0
  show ?case by (intro exI [of _ sy]) (simp add: assms(3))
next
  case (Suc m)
  then obtain sy1 where sy1: "(system_step blake)\<^sup>*\<^sup>* sy sy1" "length (sy_nodes sy1) = length ks"
    "\<forall>i<m. at_round blake (ks ! i) (sy_nodes sy1 ! i)" "\<forall>i. m \<le> i \<longrightarrow> sy_nodes sy1 ! i = sy_nodes sy ! i" by auto
  have m: "m < length ks" using Suc.prems by simp
  then have "just_started blake (sy_nodes sy1 ! m)" "ks ! m < 2 ^ 64" using assms(1-3) sy1(4) by simp_all
  then obtain n where n: "(quiet_step blake)\<^sup>*\<^sup>* (sy_nodes sy1 ! m) n" "at_round blake (ks ! m) n"
    using started_reaches_round by blast
  obtain sy2 where sy2: "(system_step blake)\<^sup>*\<^sup>* sy1 sy2" "sy_nodes sy2 = (sy_nodes sy1)[m := n]"
    using quiet_steps_system [OF n(1)] sy1(2) m by auto
  show ?case
    using sy1 sy2 n(2) m
    by (intro exI [of _ sy2]) (auto simp: nth_list_update less_Suc_eq intro: rtranclp_trans)
qed

text \<open>
  C25. For any rounds, one for each node, a system of started nodes that only do what the
  program does can come to be at these rounds, each node by the transactions of its own
  clients, with nothing but its genesis vertex: each transaction becomes a block whose
  height counts the blocks, the node forwards it, and the consensus takes that height for
  its round.
\<close>

theorem honest_rounds_diverge:
  assumes "\<forall>n\<in>set (sy_nodes sy). just_started blake n" and "\<forall>k\<in>set ks. k < 2 ^ 64" and "length ks = length (sy_nodes sy)"
  shows "\<exists>sy'. (system_step blake)\<^sup>*\<^sup>* sy sy' \<and> list_all2 (at_round blake) ks (sy_nodes sy')"
proof -
  obtain sy' where "(system_step blake)\<^sup>*\<^sup>* sy sy'" "length (sy_nodes sy') = length ks"
    "\<forall>i<length ks. at_round blake (ks ! i) (sy_nodes sy' ! i)"
    using rounds_diverge [OF assms le_refl] by blast
  then show ?thesis by (intro exI [of _ sy']) (simp add: list_all2_conv_all_nth)
qed

section \<open>Witnesses\<close>

lemma member_can_start:
  assumes "0 < nid" and "nid \<le> 7"
  obtains n n' cc where "node_init (\<lambda>x. x) pad32 sample_seeds nid n"
    "Node_Start pad32 zero_time zero_time all_listen closing n = Start_returns None n'" "n_consensus n' = Some cc"
proof -
  let ?com = "genesis_committee (\<lambda>x. x) pad32 sample_seeds"
  have com: "NewCommittee (\<lambda>x. x) pad32 sample_seeds = Ok ?com"
    by (rule NewCommittee_value [OF sample_seeds_ok length_pad32])
  obtain val where val: "map_of (Validators ?com) nid = Some val"
    using assms by (simp add: genesis_committee_member)
  obtain n where n: "Node_New (\<lambda>x. x) pad32 sample_seeds zero_time zero_time nid = Ok n"
    "n_id n = nid" "n_committee n = ?com" "\<not> IsRunning n"
    using val by (simp add: Node_New_value [OF com] GetNodeKey_def IsRunning_def)
  have "map_of (Validators (n_committee n)) (n_id n) = Some val" using n val by simp
  from Node_Start_result [OF this n(4), of pad32 zero_time zero_time all_listen closing]
  obtain n' cc where "Node_Start pad32 zero_time zero_time all_listen closing n = Start_returns None n'" "n_consensus n' = Some cc"
    by (auto simp: all_listen_def)
  moreover have "node_init (\<lambda>x. x) pad32 sample_seeds nid n" unfolding node_init_def using n(1) by (intro exI)
  ultimately show thesis using that by simp
qed

theorem honest_nodes_never_communicate_witness:
  "\<exists>sy n m. reach (system_init (\<lambda>x. x) pad32 [(sample_seeds, 1), (sample_seeds, 2)]) (system_step pad32) sy
     \<and> sy_nodes sy = [n, m] \<and> n_consensus n \<noteq> None \<and> n_consensus m \<noteq> None
     \<and> node_wires n \<subseteq> {[]} \<and> node_wires m \<subseteq> {[]} \<and> (\<nexists>x. arrives x sy)"
proof -
  obtain n n' c where n: "node_init (\<lambda>x. x) pad32 sample_seeds 1 n"
    "Node_Start pad32 zero_time zero_time all_listen closing n = Start_returns None n'" "n_consensus n' = Some c"
    by (rule member_can_start [of 1]) simp_all
  obtain m m' d where m: "node_init (\<lambda>x. x) pad32 sample_seeds 2 m"
    "Node_Start pad32 zero_time zero_time all_listen closing m = Start_returns None m'" "n_consensus m' = Some d"
    by (rule member_can_start [of 2]) simp_all
  let ?S = "reach (system_init (\<lambda>x. x) pad32 [(sample_seeds, 1), (sample_seeds, 2)]) (system_step pad32)"
  let ?s0 = "\<lparr>sy_nodes = [n, m], sy_wires = {}\<rparr>"
  have r0: "?S ?s0" by (rule reach_init) (use n(1) m(1) in \<open>simp add: system_init_def\<close>)
  have "quiet_step pad32 (sy_nodes ?s0 ! 0) n'"
    by (rule qs_start [where err = None and ?now1.0 = zero_time and ?now2.0 = zero_time and ls = all_listen and st = closing]) (use n(2) in simp)
  then have "system_step pad32 ?s0 (put_node 0 n' ?s0)" by (intro sy_quiet) simp_all
  then have r1: "?S (put_node 0 n' ?s0)" by (rule reach_step [OF r0])
  have "quiet_step pad32 (sy_nodes (put_node 0 n' ?s0) ! 1) m'"
    by (rule qs_start [where err = None and ?now1.0 = zero_time and ?now2.0 = zero_time and ls = all_listen and st = closing])
      (use m(2) in \<open>simp add: put_node_def\<close>)
  then have "system_step pad32 (put_node 0 n' ?s0) (put_node 1 m' (put_node 0 n' ?s0))"
    by (intro sy_quiet) (simp_all add: put_node_def)
  then have r2: "?S (put_node 1 m' (put_node 0 n' ?s0))" by (rule reach_step [OF r1])
  have nodes: "sy_nodes (put_node 1 m' (put_node 0 n' ?s0)) = [n', m']" by (simp add: put_node_def)
  note silent = honest_nodes_never_communicate [OF r2, unfolded nodes]
  show ?thesis
    by (intro exI [of _ "put_node 1 m' (put_node 0 n' ?s0)"] exI [of _ n'] exI [of _ m'])
      (use r2 nodes n(3) m(3) silent [of n'] silent [of m'] in simp)
qed

theorem honest_rounds_diverge_witness:
  "\<exists>sy sy'. (system_step pad32)\<^sup>*\<^sup>* sy sy' \<and> list_all2 (at_round pad32) [5, 1000000] (sy_nodes sy')"
proof -
  obtain n n' c where n: "Node_Start pad32 zero_time zero_time all_listen closing n = Start_returns None n'" "n_consensus n' = Some c"
    by (rule member_can_start [of 1]) simp_all
  obtain m m' d where m: "Node_Start pad32 zero_time zero_time all_listen closing m = Start_returns None m'" "n_consensus m' = Some d"
    by (rule member_can_start [of 2]) simp_all
  let ?sy = "\<lparr>sy_nodes = [n', m'], sy_wires = {}\<rparr>"
  have "\<forall>n\<in>set (sy_nodes ?sy). just_started pad32 n" using n(1) m(1) just_startedI by simp
  from honest_rounds_diverge [OF this, of "[5, 1000000]"] show ?thesis by auto
qed

end
