(* ===== verification/Client.thy ===== *)
theory Client
  imports Network_Sender "HOL-Library.Signed_Division"
begin

text \<open>
  cmd/client/main.go: the load generator.  It writes \<open>transactions\<close> messages to one
  connection, at most one per tick of a ticker.  The choices of the \<open>select\<close>, with the results
  of the writes, are a list of events; what it only logs is left out.
\<close>

section \<open>The program\<close>

definition DefaultTxSize :: nat where
  "DefaultTxSize = 64"

definition DefaultTxCount :: u64 where
  "DefaultTxCount = 1000"

definition DefaultRate :: u64 where
  "DefaultRate = 100"

record client_flags =
  fl_txCount :: u64
  fl_rate :: u64
  fl_duration :: u64

definition default_flags :: client_flags where
  "default_flags = \<lparr>fl_txCount = DefaultTxCount, fl_rate = DefaultRate, fl_duration = 0\<rparr>"

text \<open>
  \<open>time.Second / time.Duration(rate)\<close>: the conversion reinterprets the 64 bits as signed, the
  division truncates, and panics (\<open>None\<close>) for 0.
\<close>

definition client_interval :: "u64 \<Rightarrow> int option" where
  "client_interval rate = (if rate = 0 then None else Some (1000000000 sdiv sint rate))"

text \<open>The timer, when there is one: \<open>time.Duration(duration) * time.Second\<close> wraps.\<close>

definition client_timer :: "u64 \<Rightarrow> int option" where
  "client_timer duration = (if duration > 0 then Some (sint (duration * 1000000000)) else None)"

text \<open>A write of the connection appends all bytes, or fails after \<open>k\<close> of them.\<close>

definition client_write :: "byte list \<Rightarrow> nat option \<Rightarrow> byte list \<Rightarrow> bool \<times> byte list" where
  "client_write bs fails wire =
     (case fails of None \<Rightarrow> (True, wire @ bs) | Some k \<Rightarrow> (False, wire @ take k bs))"

datatype client_event = Tick "nat option" "nat option" | TimerFires

text \<open>How it ends: a panic, \<open>log.Fatalf\<close>, the end with the number sent; or it waits for the next event.\<close>

datatype client_end = Client_panics | Client_fatal | Client_done u64 | Client_waits u64

text \<open>
  The loop.  \<open>select\<close> evaluates \<open>timer.C\<close> when it is entered, which panics on a nil timer,
  before the test for nil in its branch.
\<close>

fun client_loop ::
  "u64 \<Rightarrow> int option \<Rightarrow> client_event list \<Rightarrow> u64 \<Rightarrow> byte list \<Rightarrow> byte list \<Rightarrow> client_end \<times> byte list" where
  "client_loop txCount timer es sent txBuf wire =
     (if sent < txCount then
        (if timer = None then (Client_panics, wire)
         else case es of
           [] \<Rightarrow> (Client_waits sent, wire)
         | TimerFires # _ \<Rightarrow> (Client_done sent, wire)
         | Tick fails1 fails2 # es' \<Rightarrow>
             (let txBuf' = go_copy txBuf (put_u64 sent); lenBuf = put_u32 (of_nat DefaultTxSize)
              in case client_write lenBuf fails1 wire of
                   (False, wire1) \<Rightarrow> (Client_fatal, wire1)
                 | (True, wire1) \<Rightarrow>
                     (case client_write txBuf' fails2 wire1 of
                        (False, wire2) \<Rightarrow> (Client_fatal, wire2)
                      | (True, wire2) \<Rightarrow> client_loop txCount timer es' (sent + 1) txBuf' wire2)))
      else (Client_done sent, wire))"

declare client_loop.simps [simp del]

text \<open>\<open>main\<close>, with the bytes it writes.  \<open>time.NewTicker\<close> panics for an interval that is not positive.\<close>

definition client_main :: "bool \<Rightarrow> client_flags \<Rightarrow> client_event list \<Rightarrow> client_end \<times> byte list" where
  "client_main dial_ok fl es =
     (if \<not> dial_ok then (Client_fatal, [])
      else case client_interval (fl_rate fl) of
        None \<Rightarrow> (Client_panics, [])
      | Some interval \<Rightarrow>
          (if interval \<le> 0 then (Client_panics, [])
           else client_loop (fl_txCount fl) (client_timer (fl_duration fl)) es 0
                  (replicate DefaultTxSize 0) []))"

section \<open>Rates\<close>

lemma uint_bounds: "0 \<le> uint (x :: u64)" "uint (x :: u64) < 2 ^ 64"
  using uint_lt2p [of x] by simp_all

lemma sint_u64: "sint (x :: u64) = (if uint x < 2 ^ 63 then uint x else uint x - 2 ^ 64)"
proof -
  have *: "sint x = (uint x + 2 ^ 63) mod 2 ^ 64 - 2 ^ 63"
    using int_word_sint [of "uint x", where 'a = 64] by simp
  show ?thesis
  proof (cases "uint x < 2 ^ 63")
    case True
    then show ?thesis using * uint_bounds [of x] by simp
  next
    case False
    have "(uint x + 2 ^ 63) mod 2 ^ 64 = (uint x + 2 ^ 63 - 2 ^ 64) mod 2 ^ 64"
      by (rule minus_mod_self2 [symmetric])
    also have "\<dots> = uint x + 2 ^ 63 - 2 ^ 64"
      using False uint_bounds [of x] by (intro mod_pos_pos_trivial) auto
    finally show ?thesis using * False by simp
  qed
qed

lemma client_interval_pos:
  "(\<exists>d>0. client_interval rate = Some d) \<longleftrightarrow> 0 < rate \<and> rate \<le> 1000000000"
proof (cases "rate = 0")
  case True
  then show ?thesis by (simp add: client_interval_def)
next
  case False
  then have pos: "0 < uint rate" "0 < rate" using uint_bounds [of rate] by (simp_all add: word_gt_0 less_le uint_0_iff)
  have le: "rate \<le> 1000000000 \<longleftrightarrow> uint rate \<le> 1000000000" by (simp add: word_le_def)
  show ?thesis
  proof (cases "uint rate < 2 ^ 63")
    case True
    then have "1000000000 sdiv sint rate = 1000000000 div uint rate"
      using False pos(1) by (auto simp: sint_u64 signed_divide_int_def)
    then have "0 < 1000000000 sdiv sint rate \<longleftrightarrow> uint rate \<le> 1000000000"
      using pos_imp_zdiv_pos_iff [OF pos(1)] by simp
    then show ?thesis using False pos(2) le by (simp add: client_interval_def)
  next
    case big: False
    then have "sint rate < 0" using uint_bounds [of rate] by (simp add: sint_u64)
    then have "1000000000 sdiv sint rate \<le> 0"
      by (simp add: signed_divide_int_def pos_imp_zdiv_nonneg_iff)
    then show ?thesis using False big le by (simp add: client_interval_def)
  qed
qed

text \<open>
  C40. Without a duration, which is the default, the client panics before it sends
  anything, at every rate, unless it is asked to send nothing at a rate of 1 to 10^9.
\<close>

theorem client_without_duration_panics:
  "client_main True (fl\<lparr>fl_duration := 0\<rparr>) es =
     (if fl_txCount fl = 0 \<and> 0 < fl_rate fl \<and> fl_rate fl \<le> 1000000000 then Client_done 0 else Client_panics, [])"
proof (cases "0 < fl_rate fl \<and> fl_rate fl \<le> 1000000000")
  case True
  then obtain d where "d > 0" "client_interval (fl_rate fl) = Some d" using client_interval_pos by blast
  then show ?thesis
    using True by (subst client_main_def) (simp add: client_loop.simps [of _ _ es] client_timer_def word_gt_0)
next
  case False
  then have "client_interval (fl_rate fl) = None \<or> (\<exists>d\<le>0. client_interval (fl_rate fl) = Some d)"
    using client_interval_pos [of "fl_rate fl"] by (cases "client_interval (fl_rate fl)") force+
  then show ?thesis using False by (auto simp: client_main_def)
qed

section \<open>Messages\<close>

text \<open>The transaction with number \<open>i\<close>: the number in 8 bytes, then zeros.\<close>

definition client_tx :: "nat \<Rightarrow> byte list" where
  "client_tx i = put_u64 (of_nat i) @ replicate 56 0"

lemma length_client_tx [simp]: "length (client_tx i) = DefaultTxSize"
  unfolding client_tx_def by (simp only: length_append length_replicate length_put_u64) (simp add: DefaultTxSize_def)

lemma client_tx_number: "i < 2 ^ 64 \<Longrightarrow> unat (get_u64 (take 8 (client_tx i))) = i"
  by (simp add: client_tx_def unat_of_nat64)

lemma client_buffer:
  assumes "length buf = DefaultTxSize" and "drop 8 buf = replicate 56 0"
  shows "go_copy buf (put_u64 (of_nat i)) = client_tx i"
  using assms by (simp add: go_copy_def client_tx_def DefaultTxSize_def)

lemma client_frame: "put_u32 (of_nat DefaultTxSize) @ client_tx i = frame (client_tx i)"
  by (simp add: frame_def)

lemma client_tx_fits: "\<forall>d\<in>set (map client_tx is). length d \<le> MaxMessageSize"
  by (simp add: DefaultTxSize_def MaxMessageSize_def)

text \<open>The bytes of the first \<open>i\<close> messages, and what a receiver makes of them.\<close>

definition client_wire :: "nat \<Rightarrow> byte list" where
  "client_wire i = concat (map frame (map client_tx [0..<i]))"

lemma client_wire_simps [simp]:
  "client_wire 0 = []" "client_wire (Suc i) = client_wire i @ frame (client_tx i)"
  by (simp_all add: client_wire_def)

lemma client_received:
  "conn_loop (clean_conn (client_wire i @ bs)) [] = conn_loop (clean_conn bs) (map client_tx [0..<i])"
  using conn_loop_frames [OF client_tx_fits, of "clean_conn (client_wire i @ bs)" "[0..<i]" "map Byte bs" "[]"]
  by (simp add: clean_conn_def client_wire_def)

lemma client_received_part:
  "\<exists>j\<le>1. conn_loop (clean_conn (client_wire i @ take k (frame (client_tx i)))) [] = Some (map client_tx [0..<i + j])"
proof (cases "k < length (frame (client_tx i))")
  case True
  have "length (client_tx i) \<le> MaxMessageSize" by (simp add: DefaultTxSize_def MaxMessageSize_def)
  then show ?thesis
    using conn_loop_partial [OF True] by (intro exI [of _ 0]) (simp add: client_received)
next
  case False
  then have "client_wire i @ take k (frame (client_tx i)) = client_wire (Suc i) @ []" by simp
  then show ?thesis
    using conn_loop_Nil client_received [of "Suc i" "[]"]
    by (intro exI [of _ 1]) (simp add: clean_conn_def del: client_wire_simps)
qed

text \<open>The messages received, against the end of the client.\<close>

definition client_ok :: "u64 \<Rightarrow> client_end \<times> byte list \<Rightarrow> bool" where
  "client_ok txCount r \<longleftrightarrow>
     (\<exists>k\<le>unat txCount. conn_loop (clean_conn (snd r)) [] = Some (map client_tx [0..<k])
        \<and> (case fst r of Client_done sent \<Rightarrow> unat sent = k | Client_waits sent \<Rightarrow> unat sent = k | _ \<Rightarrow> True))"

lemma client_ok_whole:
  assumes "i \<le> unat txCount" and "\<forall>s. e = Client_done s \<or> e = Client_waits s \<longrightarrow> unat s = i"
  shows "client_ok txCount (e, client_wire i)"
  using assms client_received [of i "[]"] conn_loop_Nil
  by (auto simp: client_ok_def clean_conn_def intro!: exI [of _ i] split: client_end.split)

lemma client_ok_part:
  assumes "i < unat txCount"
  shows "client_ok txCount (Client_fatal, client_wire i @ take k (frame (client_tx i)))"
proof -
  obtain j where "j \<le> 1" "conn_loop (clean_conn (client_wire i @ take k (frame (client_tx i)))) []
     = Some (map client_tx [0..<i + j])"
    using client_received_part by blast
  then show ?thesis using assms unfolding client_ok_def by (intro exI [of _ "i + j"]) simp
qed

text \<open>One turn that sends: the writes fail after part of the frame, or the loop goes on with the next number.\<close>

lemma client_turn_ok:
  assumes "sent = of_nat i" and "i < unat txCount" and "length buf = DefaultTxSize" and "drop 8 buf = replicate 56 0"
    and next_ok: "client_ok txCount (client_loop txCount (Some t) es (sent + 1) (client_tx i) (client_wire (Suc i)))"
  shows "client_ok txCount (client_loop txCount (Some t) (Tick f1 f2 # es) sent buf (client_wire i))"
proof -
  let ?tx = "client_tx i"
  have sent: "unat sent = i" using assms(1,2) unat_lt2p [of txCount] by (simp add: unat_of_nat64)
  then have lt: "sent < txCount" using assms(2) by (simp add: word_less_nat_alt)
  have buf: "go_copy buf (put_u64 sent) = ?tx" using client_buffer [OF assms(3,4)] assms(1) by simp
  show ?thesis
  proof (cases f1)
    case (Some k)
    have "take k (put_u32 (of_nat DefaultTxSize)) = take (min k 4) (frame ?tx)"
      by (cases "k \<le> 4") (simp_all add: frame_def min_def)
    then show ?thesis
      using lt Some client_ok_part [OF assms(2), of "min k 4"]
      by (subst client_loop.simps) (simp add: client_write_def Let_def)
  next
    case f1: None
    show ?thesis
    proof (cases f2)
      case (Some k)
      have "put_u32 (of_nat DefaultTxSize) @ take k ?tx = take (4 + k) (frame ?tx)" by (simp add: frame_def)
      then show ?thesis
        using lt f1 Some buf client_ok_part [OF assms(2), of "4 + k"]
        by (subst client_loop.simps) (simp add: client_write_def Let_def)
    next
      case None
      then show ?thesis
        using lt f1 buf client_frame [of i] next_ok
        by (subst client_loop.simps) (simp add: client_write_def Let_def)
    qed
  qed
qed

lemma client_loop_ok:
  assumes "sent = of_nat i" and "i \<le> unat txCount"
    and "length buf = DefaultTxSize" and "drop 8 buf = replicate 56 0"
  shows "client_ok txCount (client_loop txCount timer es sent buf (client_wire i))"
  using assms
proof (induction es arbitrary: sent i buf)
  case Nil
  have "unat sent = i" using Nil.prems(1,2) unat_lt2p [of txCount] by (simp add: unat_of_nat64)
  then have "client_ok txCount (e, client_wire i)" if "e \<in> {Client_panics, Client_done sent, Client_waits sent}" for e
    using that by (intro client_ok_whole [OF Nil.prems(2)]) auto
  then show ?case by (subst client_loop.simps) simp
next
  case (Cons ev es)
  have sent: "unat sent = i" using Cons.prems(1,2) unat_lt2p [of txCount] by (simp add: unat_of_nat64)
  have whole: "client_ok txCount (e, client_wire i)" if "e \<in> {Client_panics, Client_done sent}" for e
    using that sent by (intro client_ok_whole [OF Cons.prems(2)]) auto
  show ?case
  proof (cases "sent < txCount \<and> timer \<noteq> None \<and> ev \<noteq> TimerFires")
    case False
    then show ?thesis using whole by (subst client_loop.simps) (cases ev; simp)
  next
    case True
    then obtain f1 f2 t where ev: "ev = Tick f1 f2" "timer = Some t" by (cases ev) auto
    have lt: "i < unat txCount" using True sent by (simp add: word_less_nat_alt)
    have "client_ok txCount (client_loop txCount timer es (sent + 1) (client_tx i) (client_wire (Suc i)))"
      using Cons.prems(1) lt by (intro Cons.IH) (simp_all add: client_tx_def DefaultTxSize_def)
    then show ?thesis using client_turn_ok [OF Cons.prems(1) lt Cons.prems(3,4)] ev by simp
  qed
qed

text \<open>
  Whatever happens, a receiver that reads what the client wrote handles the transactions with the
  numbers 0, 1, ... in order, at most as many as asked for, and as many as the client counts.
\<close>

lemma client_sends_numbered_transactions:
  "client_ok (fl_txCount fl) (client_main dial_ok fl es)"
proof -
  have none: "client_ok (fl_txCount fl) (e, [])" if "\<forall>s. e = Client_done s \<or> e = Client_waits s \<longrightarrow> unat s = 0" for e
    using client_ok_whole [of 0 "fl_txCount fl" e] that by simp
  have "client_ok (fl_txCount fl) (client_loop (fl_txCount fl) t es 0 (replicate DefaultTxSize 0) [])" for t
    using client_loop_ok [of 0 0 "fl_txCount fl" "replicate DefaultTxSize 0" t es]
    by (simp add: DefaultTxSize_def)
  then show ?thesis by (auto simp: client_main_def intro!: none split: option.split)
qed

text \<open>
  With a duration and a rate within bounds, and no failed write, every tick sends one message until
  all are sent or the timer fires.
\<close>

fun ticks_before :: "client_event list \<Rightarrow> nat" where
  "ticks_before (Tick _ _ # es) = Suc (ticks_before es)"
| "ticks_before _ = 0"

lemma client_loop_counts:
  assumes "\<forall>e\<in>set es. e = Tick None None \<or> e = TimerFires" and "timer \<noteq> None" and "sent \<le> txCount"
  shows "fst (client_loop txCount timer es sent buf wire) \<in>
     (let k = min (unat txCount) (unat sent + ticks_before es) in {Client_done (of_nat k), Client_waits (of_nat k)})
   \<and> (fst (client_loop txCount timer es sent buf wire) = Client_waits w
       \<longrightarrow> TimerFires \<notin> set es \<and> unat sent + length es < unat txCount)"
  using assms
proof (induction es arbitrary: sent buf wire)
  case Nil
  then show ?case
    by (subst (1 2) client_loop.simps) (auto simp: Let_def min_def word_less_nat_alt word_le_nat_alt word_unat_eq_iff)
next
  case (Cons ev es)
  show ?case
  proof (cases "sent < txCount \<and> ev = Tick None None")
    case True
    then have "sent \<noteq> - 1" by (metis word_order.extremum_strict)
    then have *: "unat (sent + 1) = unat sent + 1" by (rule unat_Suc)
    then have le: "sent + 1 \<le> txCount" using True by (simp add: word_less_nat_alt word_le_nat_alt)
    let ?buf = "go_copy buf (put_u64 sent)"
    let ?wire = "wire @ put_u32 (of_nat DefaultTxSize) @ ?buf"
    have step: "client_loop txCount timer (ev # es) sent buf wire = client_loop txCount timer es (sent + 1) ?buf ?wire"
      using True Cons.prems(2) by (subst client_loop.simps) (auto simp: client_write_def Let_def)
    show ?thesis
      unfolding step using Cons.IH [of "sent + 1" ?buf ?wire] Cons.prems(1,2) le * True by (simp add: Let_def)
  next
    case False
    then have "\<not> sent < txCount \<or> ev = TimerFires" using Cons.prems(1) by auto
    then show ?thesis
      using Cons.prems by (subst (1 2) client_loop.simps) (auto simp: Let_def min_def word_less_nat_alt word_le_nat_alt word_unat_eq_iff)
  qed
qed

theorem client_sends_every_tick:
  assumes "0 < fl_rate fl" and "fl_rate fl \<le> 1000000000" and "0 < fl_duration fl"
    and "\<forall>e\<in>set es. e = Tick None None \<or> e = TimerFires"
    and "unat (fl_txCount fl) \<le> ticks_before es \<or> TimerFires \<in> set es"
  shows "fst (client_main True fl es) = Client_done (of_nat (min (unat (fl_txCount fl)) (ticks_before es)))"
proof -
  obtain d where d: "d > 0" "client_interval (fl_rate fl) = Some d"
    using client_interval_pos assms(1,2) by blast
  have main: "client_main True fl es = client_loop (fl_txCount fl) (client_timer (fl_duration fl)) es 0 (replicate DefaultTxSize 0) []"
    using d by (simp add: client_main_def)
  have timer: "client_timer (fl_duration fl) \<noteq> None" using assms(3) by (simp add: client_timer_def)
  have short: "ticks_before es \<le> length es" by (induction es rule: ticks_before.induct) auto
  let ?r = "fst (client_loop (fl_txCount fl) (client_timer (fl_duration fl)) es 0 (replicate DefaultTxSize 0) [])"
  note counts = client_loop_counts [OF assms(4) timer, of 0 "fl_txCount fl" "replicate DefaultTxSize 0" "[]"]
  have "?r \<noteq> Client_waits w" for w
    using counts [of w] assms(5) short by auto
  then show ?thesis using counts unfolding main by (simp add: Let_def)
qed

theorem client_sends_every_tick_witness:
  "fst (client_main True (default_flags\<lparr>fl_duration := 5\<rparr>) [Tick None None, Tick None None, TimerFires]) = Client_done 2"
  using client_sends_every_tick [of "default_flags\<lparr>fl_duration := 5\<rparr>" "[Tick None None, Tick None None, TimerFires]"]
  by (simp add: default_flags_def DefaultRate_def DefaultTxCount_def)

end
