(* ===== verification/Consensus_Replicas.thy ===== *)
theory Consensus_Replicas
  imports Consensus_State
begin

text \<open>
  Two consensus states that got the same vertices in different orders: what they agree on (the
  vertices of every round, the ordered vertices of a wave up to the order in a round, the answers
  about links) and what they do not (the weak edges they keep).
\<close>

section \<open>The graph of a run\<close>

text \<open>
  When no two vertices share a hash the graph is a function of the set of inserted vertices,
  except for the weak edges, which depend on the order.
\<close>

lemma foldl_round_map:
  assumes "inj_on vx_hash (set log)" and "vx_hash g \<notin> vx_hash ` set log"
  shows "map_of (round_map (foldl InsertVertex (NewDAG g) log) r) h = Some v \<longleftrightarrow>
     (r = 0 \<and> h = vx_hash g \<and> v = g) \<or> (v \<in> set log \<and> r = vx_round v \<and> h = vx_hash v)"
  using assms
proof (induction log rule: rev_induct)
  case Nil
  then show ?case by (auto simp: round_map_NewDAG)
next
  case (snoc x log)
  then have IH: "map_of (round_map (foldl InsertVertex (NewDAG g) log) r) h = Some v \<longleftrightarrow>
      (r = 0 \<and> h = vx_hash g \<and> v = g) \<or> (v \<in> set log \<and> r = vx_round v \<and> h = vx_hash v)"
    by simp
  have "v = x" if "v \<in> set log" "vx_hash v = vx_hash x"
    using snoc.prems(1) that by (auto simp: inj_on_def)
  moreover have "vx_hash x \<noteq> vx_hash g" using snoc.prems(2) by auto
  ultimately show ?case using IH by (auto simp: InsertVertex_lookup)
qed

lemma foldl_strongEdges:
  assumes "inj_on vx_hash (set log)"
  shows "edge_set (strongEdges (foldl InsertVertex (NewDAG g) log)) h
       = (\<Union>v\<in>{v \<in> set log. vx_hash v = h}. fst ` set (vx_parents v))"
  using assms
proof (induction log rule: rev_induct)
  case Nil
  then show ?case by (simp add: NewDAG_def edge_set_def)
next
  case (snoc x log)
  have "{v \<in> set (log @ [x]). vx_hash v = vx_hash x} = {x}"
    using snoc.prems by (auto simp: inj_on_def)
  moreover have "{v \<in> set (log @ [x]). vx_hash v = h} = {v \<in> set log. vx_hash v = h}" if "h \<noteq> vx_hash x"
    using that by auto
  ultimately show ?case using snoc by (auto simp: strongEdges_InsertVertex edge_set_update)
qed

text \<open>Weak edges skip at least two rounds and never lead to the genesis vertex.\<close>

lemma foldl_weakEdges:
  assumes "inj_on vx_hash (set log)" and "vx_hash g \<notin> vx_hash ` set log" and "vx_round g = 0"
    and "x \<in> edge_set (weakEdges (foldl InsertVertex (NewDAG g) log)) h"
  shows "\<exists>v\<in>set log. \<exists>w\<in>set log. vx_hash v = h \<and> vx_hash w = x \<and> unat (vx_round w) + 2 < unat (vx_round v)"
  using assms
proof (induction log rule: rev_induct)
  case Nil
  then show ?case by (simp add: NewDAG_def edge_set_def)
next
  case (snoc y log)
  let ?d = "foldl InsertVertex (NewDAG g) log"
  have inj: "inj_on vx_hash (set log)" and ng: "vx_hash g \<notin> vx_hash ` set log"
    using snoc.prems(1,2) by (auto simp: inj_on_def)
  have "dag_ok ?d" using snoc.prems(3) by (intro dag_ok_foldl dag_ok_NewDAG)
  from InsertVertex_edge_sets [OF this, of y h] snoc.prems(4)
  have "h = vx_hash y \<and> (\<exists>r w. 1 \<le> r \<and> unat r + 2 < unat (vx_round y) \<and> map_of (round_map ?d r) x = Some w)
      \<or> x \<in> edge_set (weakEdges ?d) h"
    by (auto split: if_splits)
  then show ?case
  proof (elim disjE conjE exE)
    fix r w assume *: "h = vx_hash y" "1 \<le> r" "unat r + 2 < unat (vx_round y)" "map_of (round_map ?d r) x = Some w"
    then have "r \<noteq> 0" by auto
    then have "w \<in> set log" "r = vx_round w" "x = vx_hash w"
      using *(4) unfolding foldl_round_map [OF inj ng] by auto
    then show ?case using * by auto
  next
    assume "x \<in> edge_set (weakEdges ?d) h"
    from snoc.IH [OF inj ng snoc.prems(3) this] show ?case by auto
  qed
qed

definition delivered_set :: "vertex \<Rightarrow> state_op list \<Rightarrow> vertex set" where
  "delivered_set g ops =
     {v \<in> arrivals ops. vx_hash v \<noteq> vx_hash g
        \<and> deliverable {vx_hash g} (arrivals ops) (of_nat (advances ops)) (vx_hash v)}"

text \<open>The vertices that entered the graph in a run, as a set, follow from the specification.\<close>

lemma run_log:
  assumes "inj_on vx_hash (arrivals ops)" and "advances ops < 2 ^ 64"
  obtains log where "s_dag (run_ops state_step (NewState g) ops) = foldl InsertVertex (NewDAG g) log"
    and "set log = delivered_set g ops" and "inj_on vx_hash (set log)" and "vx_hash g \<notin> vx_hash ` set log"
proof -
  let ?s = "run_ops state_step (NewState g) ops"
  have rel: "state_rel g (arrivals ops) ?s" and "unat (currentRound ?s) = advances ops"
    using state_rel_run [OF state_rel_NewState, of g ops] assms(2) by (simp_all add: NewState_def)
  then have cr: "currentRound ?s = of_nat (advances ops)" by (simp add: of_nat_of_unat)
  from rel obtain log where log: "s_dag ?s = foldl InsertVertex (NewDAG g) log" "set log \<subseteq> arrivals ops"
    "vx_hash g \<notin> vx_hash ` set log"
    by (auto simp: state_rel_def)
  have inj: "inj_on vx_hash (set log)" using assms(1) log(2) by (rule inj_on_subset)
  have has: "h \<in> vx_hash ` set log \<or> h = vx_hash g
      \<longleftrightarrow> deliverable {vx_hash g} (arrivals ops) (of_nat (advances ops)) h" for h
    using rel by (simp add: state_rel_def log(1) cr dag_store.has_foldl contains_NewDAG)
  have "v \<in> set log \<longleftrightarrow> v \<in> delivered_set g ops" for v
  proof
    assume "v \<in> set log"
    then have "vx_hash v \<in> vx_hash ` set log" by simp
    then show "v \<in> delivered_set g ops"
    proof -
      have "vx_hash v \<noteq> vx_hash g" using \<open>vx_hash v \<in> _\<close> log(3) by metis
      moreover have "v \<in> arrivals ops" using \<open>v \<in> set log\<close> log(2) by (rule subsetD [rotated])
      moreover have "deliverable {vx_hash g} (arrivals ops) (of_nat (advances ops)) (vx_hash v)"
        using \<open>vx_hash v \<in> _\<close> has [of "vx_hash v"] by (simp only: simp_thms)
      ultimately show ?thesis unfolding delivered_set_def by (intro CollectI conjI)
    qed
  next
    assume "v \<in> delivered_set g ops"
    then have "v \<in> arrivals ops" "vx_hash v \<in> vx_hash ` set log"
      using has [of "vx_hash v"] unfolding delivered_set_def mem_Collect_eq by (simp_all only: simp_thms)
    then show "v \<in> set log" using assms(1) log(2) by (auto dest: inj_onD)
  qed
  then show thesis using that log inj by blast
qed

section \<open>Replicas\<close>

lemma run_dag_ok:
  "vx_round g = 0 \<Longrightarrow> dag_ok (s_dag (run_ops state_step (NewState g) ops))"
  using state_reachable_ok [of g ops] by (simp add: state_ok_def)

lemma run_round_map:
  assumes "inj_on vx_hash (arrivals ops)" and "advances ops < 2 ^ 64"
  shows "map_of (round_map (s_dag (run_ops state_step (NewState g) ops)) r) h = Some v \<longleftrightarrow>
     (r = 0 \<and> h = vx_hash g \<and> v = g) \<or> (v \<in> delivered_set g ops \<and> r = vx_round v \<and> h = vx_hash v)"
proof -
  obtain log where log: "s_dag (run_ops state_step (NewState g) ops) = foldl InsertVertex (NewDAG g) log"
    "set log = delivered_set g ops" "inj_on vx_hash (set log)" "vx_hash g \<notin> vx_hash ` set log"
    using run_log [OF assms] .
  show ?thesis unfolding log(1) foldl_round_map [OF log(3,4)] log(2) ..
qed

lemma run_same_vertex:
  assumes "inj_on vx_hash (set log)" and "vx_hash g \<notin> vx_hash ` set log"
    and "x \<in> insert g (set log)" and "y \<in> insert g (set log)" and "vx_hash x = vx_hash y"
  shows "x = y"
proof -
  have "x = g \<longleftrightarrow> y = g" using assms(2-) by (metis image_eqI insertE)
  then show ?thesis using assms inj_onD [OF assms(1), of x y] by blast
qed

lemma IsStronglyLinked_run:
  assumes "inj_on vx_hash (arrivals ops)" and "advances ops < 2 ^ 64"
    and "v \<in> insert g (delivered_set g ops)"
  shows "IsStronglyLinked (s_dag (run_ops state_step (NewState g) ops)) v w \<longleftrightarrow>
     v \<noteq> g \<and> vx_hash w \<in> fst ` set (vx_parents v)"
proof -
  obtain log where log: "s_dag (run_ops state_step (NewState g) ops) = foldl InsertVertex (NewDAG g) log"
    "set log = delivered_set g ops" "inj_on vx_hash (set log)" "vx_hash g \<notin> vx_hash ` set log"
    using run_log [OF assms(1,2)] .
  have v: "v \<in> insert g (set log)" using assms(3) log(2) by simp
  have "{x \<in> set log. vx_hash x = vx_hash v} = (if v = g then {} else {v})"
    using run_same_vertex [OF log(3,4) _ v] v log(4) by (auto simp: image_iff)
  then show ?thesis
    by (simp add: IsStronglyLinked_def log(1) foldl_strongEdges [OF log(3)] del: Collect_empty_eq)
qed

text \<open>
  Asked about vertices of the graph, \<open>IsLinked\<close> gives an answer that does not depend on the
  order: the weak edges it looks at are among those it would add.
\<close>

lemma IsLinked_run:
  assumes "inj_on vx_hash (arrivals ops)" and "advances ops < 2 ^ 64" and "vx_round g = 0"
    and "v \<in> insert g (delivered_set g ops)" and "w \<in> insert g (delivered_set g ops)"
  shows "fst (IsLinked (s_dag (run_ops state_step (NewState g) ops)) v w) \<longleftrightarrow>
     (v \<noteq> g \<and> vx_hash w \<in> fst ` set (vx_parents v)) \<or> unat (vx_round w) + 2 < unat (vx_round v)"
proof -
  obtain log where log: "s_dag (run_ops state_step (NewState g) ops) = foldl InsertVertex (NewDAG g) log"
    "set log = delivered_set g ops" "inj_on vx_hash (set log)" "vx_hash g \<notin> vx_hash ` set log"
    using run_log [OF assms(1,2)] .
  let ?d = "foldl InsertVertex (NewDAG g) log"
  have v: "v \<in> insert g (set log)" and w: "w \<in> insert g (set log)" using assms(4,5) log(2) by simp_all
  have weak: "unat (vx_round w) + 2 < unat (vx_round v)"
    if edge: "vx_hash w \<in> edge_set (weakEdges ?d) (vx_hash v)"
  proof -
    obtain v' w' where *: "v' \<in> set log" "w' \<in> set log" "vx_hash v' = vx_hash v" "vx_hash w' = vx_hash w"
      "unat (vx_round w') + 2 < unat (vx_round v')"
      using foldl_weakEdges [OF log(3,4) assms(3) edge] by blast
    have "v' = v" "w' = w" using run_same_vertex [OF log(3,4)] * v w by blast+
    then show ?thesis using * by simp
  qed
  have "map_of (round_map ?d (vx_round w)) (vx_hash w) = Some w"
    using w assms(3) by (auto simp: foldl_round_map [OF log(3,4)])
  then show ?thesis
    using weak IsStronglyLinked_run [OF assms(1,2,4), of w]
    unfolding log(1) IsLinked_spec [THEN conjunct1] IsStronglyLinked_def by auto
qed

lemma GetVerticesInRound_agree:
  assumes "dag_ok d" and "dag_ok d'" and "map_of (round_map d r) = map_of (round_map d' r)"
    and "iteration it" and "iteration it'"
  shows "mset (elems (GetVerticesInRound it d r)) = mset (elems (GetVerticesInRound it' d' r))"
    and "map vx_round (elems (GetVerticesInRound it d r)) = map vx_round (elems (GetVerticesInRound it' d' r))"
proof -
  have els: "mset (elems (GetVerticesInRound i x r)) = mset (map snd (round_map x r))" if "iteration i" for i x
    using that by (simp add: GetVerticesInRound_def round_map_def iteration_def split: option.split)
  have "mset (round_map d r) = mset (round_map d' r)"
    by (rule gomap_mset_eq) (use assms in auto)
  then show ms: "mset (elems (GetVerticesInRound it d r)) = mset (elems (GetVerticesInRound it' d' r))"
    using els assms(4,5) by simp
  have "map vx_round (elems (GetVerticesInRound i x r)) = replicate (length (elems (GetVerticesInRound i x r))) r"
    if "dag_ok x" "iteration i" for i x
    using set_GetVerticesInRound [OF that(2), of x r] round_map_entry [OF that(1), of r]
      gomap_ok_round_map [OF that(1), of r]
    by (intro replicate_eqI) (auto simp: map_of_in_iff)
  then show "map vx_round (elems (GetVerticesInRound it d r)) = map vx_round (elems (GetVerticesInRound it' d' r))"
    using assms mset_eq_length [OF ms] by simp
qed

text \<open>
  C3. Two consensus states that saw the same vertices, no two with one hash, and the same
  number of rounds, in whatever order, hold the same vertices in every round, give the
  same ordered vertices of a wave up to the order inside a round, and answer alike whether
  two stored vertices are linked or strongly linked.
\<close>

theorem replicas_agree:
  assumes "arrivals ops = arrivals ops'" and "advances ops = advances ops'" and "advances ops < 2 ^ 64"
    and "inj_on vx_hash (arrivals ops)" and "vx_round g = 0" and "iteration it" and "iteration it'"
    and "GetRoundForWave w \<noteq> - 4"
  shows "let s = run_ops state_step (NewState g) ops; t = run_ops state_step (NewState g) ops' in
       map_of (round_map (s_dag s) r) = map_of (round_map (s_dag t) r)
     \<and> State_GetVertexCountInRound s r = State_GetVertexCountInRound t r
     \<and> (\<exists>vs us. GetOrderedVertices it s w = Some vs \<and> GetOrderedVertices it' t w = Some us
          \<and> mset vs = mset us \<and> map vx_round vs = map vx_round us)
     \<and> (\<forall>r1 r2 x y. x \<in> ran (map_of (round_map (s_dag s) r1)) \<longrightarrow> y \<in> ran (map_of (round_map (s_dag s) r2))
          \<longrightarrow> fst (IsLinked (s_dag s) x y) = fst (IsLinked (s_dag t) x y)
            \<and> IsStronglyLinked (s_dag s) x y = IsStronglyLinked (s_dag t) x y)"
proof -
  let ?s = "run_ops state_step (NewState g) ops" and ?t = "run_ops state_step (NewState g) ops'"
  have inj': "inj_on vx_hash (arrivals ops')" and adv': "advances ops' < 2 ^ 64"
    using assms by simp_all
  have set: "delivered_set g ops = delivered_set g ops'" by (simp add: delivered_set_def assms(1,2))
  have ok: "dag_ok (s_dag ?s)" "dag_ok (s_dag ?t)" using assms(5) by (auto intro: run_dag_ok)
  note rm = run_round_map [OF assms(4,3), of g] and rm' = run_round_map [OF inj' adv', of g]
  have maps: "map_of (round_map (s_dag ?s) r) = map_of (round_map (s_dag ?t) r)" for r
  proof
    fix h
    have "map_of (round_map (s_dag ?s) r) h = Some v \<longleftrightarrow> map_of (round_map (s_dag ?t) r) h = Some v" for v
      unfolding rm rm' set ..
    then show "map_of (round_map (s_dag ?s) r) h = map_of (round_map (s_dag ?t) r) h" by (rule option_eq_by_Some)
  qed
  have "mset (round_map (s_dag ?s) r) = mset (round_map (s_dag ?t) r)"
    using ok maps by (intro gomap_mset_eq) auto
  then have count: "State_GetVertexCountInRound ?s r = State_GetVertexCountInRound ?t r"
    unfolding State_GetVertexCountInRound_def GetVertexCountInRound_round_map by (rule mset_eq_length)
  note agree = GetVerticesInRound_agree [OF ok maps assms(6,7)]
  have stored: "x \<in> insert g (delivered_set g ops)" if x: "x \<in> ran (map_of (round_map (s_dag ?s) r'))" for x r'
  proof -
    obtain h where "map_of (round_map (s_dag ?s) r') h = Some x" using x by (auto simp: ran_def)
    then show ?thesis unfolding rm by blast
  qed
  have "fst (IsLinked (s_dag ?s) x y) = fst (IsLinked (s_dag ?t) x y)"
    and "IsStronglyLinked (s_dag ?s) x y = IsStronglyLinked (s_dag ?t) x y"
    if "x \<in> insert g (delivered_set g ops)" "y \<in> insert g (delivered_set g ops)" for x y
    using IsLinked_run [OF assms(4,3,5) that] IsLinked_run [OF inj' adv' assms(5), folded set, OF that]
      IsStronglyLinked_run [OF assms(4,3) that(1), of y]
      IsStronglyLinked_run [where g = g, OF inj' adv', folded set, OF that(1), of y] by (simp_all only:)
  note links = this
  have "\<exists>vs us. GetOrderedVertices it ?s w = Some vs \<and> GetOrderedVertices it' ?t w = Some us
      \<and> mset vs = mset us \<and> map vx_round vs = map vx_round us"
    unfolding GetOrderedVertices_result [OF assms(8)]
    by (intro exI conjI, rule refl, rule refl) (intro mset_concat_map map_concat_map agree)+
  then show ?thesis
    unfolding Let_def by (intro conjI maps count allI impI links stored)
qed

text \<open>
  Two replicas, one of which gets the vertices in the other order and buffers one of them; they
  read the maps of their graphs in different orders.
\<close>

theorem replicas_agree_witness:
  "let s = run_ops state_step (NewState (sample_vertex 0 0 []))
             [AdvanceRoundOp, AddVertexOp (sample_vertex 1 1 [(0, 0)]), AddVertexOp (sample_vertex 2 1 [(0, 0)])];
       t = run_ops state_step (NewState (sample_vertex 0 0 []))
             [AddVertexOp (sample_vertex 2 1 [(0, 0)]), AdvanceRoundOp, AddVertexOp (sample_vertex 1 1 [(0, 0)])]
   in State_GetVertexCountInRound s 1 = State_GetVertexCountInRound t 1
    \<and> (\<exists>vs us. GetOrderedVertices rev s 0 = Some vs \<and> GetOrderedVertices (\<lambda>m. m) t 0 = Some us \<and> mset vs = mset us)"
proof -
  let ?a = "sample_vertex 1 1 [(0, 0)]" and ?b = "sample_vertex 2 1 [(0, 0)]"
  let ?ops = "[AdvanceRoundOp, AddVertexOp ?a, AddVertexOp ?b]"
  let ?ops' = "[AddVertexOp ?b, AdvanceRoundOp, AddVertexOp ?a]"
  have "arrivals ?ops = {?a, ?b}" "arrivals ?ops' = {?a, ?b}" by (auto simp: arrivals_def)
  then have arr: "arrivals ?ops = arrivals ?ops'" and inj: "inj_on vx_hash (arrivals ?ops)" by (simp_all add: inj_on_def)
  have adv: "advances ?ops = advances ?ops'" "advances ?ops < 2 ^ 64" by (simp_all add: advances_def)
  have its: "iteration rev" "iteration (\<lambda>m. m)" by (simp_all add: iteration_def)
  have wave: "GetRoundForWave 0 \<noteq> - 4" by (simp add: GetRoundForWave_def)
  have g: "vx_round (sample_vertex 0 0 []) = 0" by simp
  from replicas_agree [OF arr adv inj g its wave, of 1] show ?thesis unfolding Let_def by blast
qed

section \<open>What replicas do not agree on\<close>

text \<open>
  The weak edges themselves: a vertex gets one to an earlier round only if that vertex was there
  first.
\<close>

lemma processBuffer_empty: "buffer s = [] \<Longrightarrow> processBuffer s = s"
  by (subst processBuffer.simps) simp

lemma AddVertex_ready:
  assumes "vx_hash v \<notin> deliveredVertices s" and "ready (currentRound s) (s_dag s) v" and "buffer s = []"
  shows "AddVertex s v = s\<lparr>s_dag := InsertVertex (s_dag s) v, deliveredVertices := insert (vx_hash v) (deliveredVertices s)\<rparr>"
  using assms by (simp add: AddVertex_def ready_iff processBuffer_empty)

theorem weak_edges_depend_on_order:
  assumes "state_ok s" and "buffer s = []" and "vx_hash v \<notin> deliveredVertices s" and "vx_hash w \<notin> deliveredVertices s"
    and "vx_hash v \<noteq> vx_hash w" and "ready (currentRound s) (s_dag s) v" and "ready (currentRound s) (s_dag s) w"
    and "1 \<le> vx_round w" and "unat (vx_round w) + 2 < unat (vx_round v)"
  shows "vx_hash w \<in> edge_set (weakEdges (s_dag (AddVertex (AddVertex s w) v))) (vx_hash v)
       \<and> vx_hash w \<notin> edge_set (weakEdges (s_dag (AddVertex (AddVertex s v) w))) (vx_hash v)"
proof -
  let ?d = "s_dag s"
  have ok: "dag_ok ?d" and dl: "deliveredVertices s = {h. contains_vertex ?d h}"
    using assms(1) by (simp_all add: state_ok_def)
  have ready': "ready (currentRound s) (InsertVertex ?d u) u'" if "ready (currentRound s) ?d u'" for u u'
    using that by (rule ready_mono) (auto simp: dag_store.has_ins)
  have no_parent: "vx_hash w \<notin> fst ` set (vx_parents v)"
    using assms(4,6) dl by (auto simp: ready_def)
  have absent: "map_of (round_map ?d r) (vx_hash w) = None" for r
    using assms(4) dl contains_vertex_iff [OF ok, of "vx_hash w"] by (cases "map_of (round_map ?d r) (vx_hash w)") auto
  have wv: "s_dag (AddVertex (AddVertex s w) v) = InsertVertex (InsertVertex ?d w) v"
    using assms ready' by (simp add: AddVertex_ready [of w s] AddVertex_ready)
  have vw: "s_dag (AddVertex (AddVertex s v) w) = InsertVertex (InsertVertex ?d v) w"
    using assms ready' by (simp add: AddVertex_ready [of v s] AddVertex_ready)
  have r2: "vx_round v > 2" using assms(9) by (simp add: word_less_nat_alt)
  show ?thesis
  proof
    show "vx_hash w \<in> edge_set (weakEdges (s_dag (AddVertex (AddVertex s w) v))) (vx_hash v)"
      unfolding wv using InsertVertex_edge_sets [OF dag_ok_InsertVertex [OF ok], of w v "vx_hash v"] assms(8,9) r2 no_parent
      by (auto simp: InsertVertex_lookup)
    show "vx_hash w \<notin> edge_set (weakEdges (s_dag (AddVertex (AddVertex s v) w))) (vx_hash v)"
      unfolding vw using InsertVertex_edge_sets [OF dag_ok_InsertVertex [OF ok], of v w "vx_hash v"]
        InsertVertex_edge_sets [OF ok, of v "vx_hash v"] assms(5) r2 absent
      by (auto simp: InsertVertex_lookup)
  qed
qed

theorem weak_edges_depend_on_order_witness:
  "\<exists>s v w. vx_hash w \<in> edge_set (weakEdges (s_dag (AddVertex (AddVertex s w) v))) (vx_hash v)
       \<and> vx_hash w \<notin> edge_set (weakEdges (s_dag (AddVertex (AddVertex s v) w))) (vx_hash v)"
proof -
  let ?g = "sample_vertex 0 0 []" and ?v = "sample_vertex 4 4 [(0, 0)]" and ?w = "sample_vertex 1 1 [(0, 0)]"
  let ?s = "run_ops state_step (NewState ?g) [AdvanceRoundOp, AdvanceRoundOp, AdvanceRoundOp, AdvanceRoundOp]"
  have s: "?s = (NewState ?g)\<lparr>currentRound := 4\<rparr>"
    by (simp add: AdvanceRound_def NewState_def processBuffer_empty)
  have ok: "state_ok ?s" by (rule state_reachable_ok) simp
  have pre: "buffer ?s = []" "vx_hash ?v \<notin> deliveredVertices ?s" "vx_hash ?w \<notin> deliveredVertices ?s"
    "vx_hash ?v \<noteq> vx_hash ?w" "ready (currentRound ?s) (s_dag ?s) ?v" "ready (currentRound ?s) (s_dag ?s) ?w"
    "1 \<le> vx_round ?w" "unat (vx_round ?w) + 2 < unat (vx_round ?v)"
    unfolding s by (simp_all add: NewState_def ready_def contains_NewDAG)
  from weak_edges_depend_on_order [OF ok pre] show ?thesis by blast
qed

end
