(* ===== verification/Consensus_Broadcast.thy ===== *)
theory Consensus_Broadcast
  imports Consensus_Coordinator
begin

text \<open>
  The end of a round over a network without errors, from the coordinator that ends it to the
  coordinator that reads the connection.
\<close>

section \<open>A block without transactions is a small message\<close>

lemma empty_block_small:
  assumes "b_transactions b = None" and "Block_MarshalBinary b = Some data"
  shows "length data \<le> MaxMessageSize"
proof -
  have "unat (b_height b) < 10 ^ 20" using unat_lt2p [of "b_height b"] by simp
  then have "length (dec_digits (unat (b_height b))) \<le> 20" by (rule length_dec_digits) simp
  then have "length (print_json (block_json b)) \<le> 200"
    using length_rfc3339 [of "b_timestamp b"] assms(1)
    by (simp add: block_json_def enc_u64_def enc_transactions_def str_def)
  then show ?thesis using assms(2) by (simp add: Block_MarshalBinary_def MaxMessageSize_def split: if_splits)
qed

section \<open>Sending to all addresses\<close>

text \<open>
  A network without errors: each dial opens the connection that \<open>dial\<close> says, every connection
  is alive and takes what is written.
\<close>

lemma Send_good:
  assumes "Send a data (good_env d) s = (res, s')"
  shows "res = Sent \<and> (\<exists>c. map_of (s_conns s') (addr_string a) = Some c \<and> s_wire s' = (s_wire s)(c := s_wire s c @ frame data))
     \<and> (\<forall>x c. map_of (s_conns s) x = Some c \<longrightarrow> map_of (s_conns s') x = Some c)"
  using assms
  by (auto simp: send_eval frame_def split: option.splits)

text \<open>What \<open>Send\<close> adds to the connections: copies of one frame, at least one for each address.\<close>

definition send_from :: "byte list \<Rightarrow> (nat \<Rightarrow> nat) \<Rightarrow> nat \<Rightarrow> net_addr list \<Rightarrow> sender \<Rightarrow> sender" where
  "send_from data dial k as s = fold (\<lambda>(i, addr) s. snd (Send addr data (good_env (dial i)) s)) (enumerate k as) s"

lemma send_from_simps [simp]:
  "send_from data dial k [] s = s"
  "send_from data dial k (a # as) s = send_from data dial (Suc k) as (snd (Send a data (good_env (dial k)) s))"
  by (simp_all add: send_from_def)

lemma send_all_from: "send_all as data (\<lambda>i. good_env (dial i)) s = send_from data dial 0 as s"
  by (simp add: send_all_def send_from_def)

lemma send_from_conns:
  "map_of (s_conns s) x = Some c \<Longrightarrow> map_of (s_conns (send_from data dial k as s)) x = Some c"
proof (induction as arbitrary: k s)
  case (Cons a as)
  obtain res s1 where run: "Send a data (good_env (dial k)) s = (res, s1)" by fastforce
  then show ?case using Cons Send_good [OF run] by simp
qed simp

lemma send_from_wire:
  "\<exists>n. s_wire (send_from data dial k as s) = (\<lambda>c. s_wire s c @ concat (replicate (n c) (frame data)))
     \<and> (\<forall>a\<in>set as. \<exists>c. map_of (s_conns (send_from data dial k as s)) (addr_string a) = Some c \<and> 0 < n c)"
proof (induction as arbitrary: k s)
  case Nil
  show ?case by (rule exI [of _ "\<lambda>_. 0"]) simp
next
  case (Cons a as)
  obtain res s1 where run: "Send a data (good_env (dial k)) s = (res, s1)" by fastforce
  obtain c1 where c1: "map_of (s_conns s1) (addr_string a) = Some c1"
    "s_wire s1 = (s_wire s)(c1 := s_wire s c1 @ frame data)"
    using Send_good [OF run] by blast
  let ?t = "send_from data dial (Suc k) as s1"
  have t: "send_from data dial k (a # as) s = ?t" using run by simp
  obtain n where n: "s_wire ?t = (\<lambda>c. s_wire s1 c @ concat (replicate (n c) (frame data)))"
    "\<forall>a\<in>set as. \<exists>c. map_of (s_conns ?t) (addr_string a) = Some c \<and> 0 < n c"
    using Cons.IH by blast
  let ?n = "n(c1 := Suc (n c1))"
  have "s_wire ?t = (\<lambda>c. s_wire s c @ concat (replicate (?n c) (frame data)))"
    unfolding n(1) c1(2) by (simp add: fun_eq_iff)
  moreover have "map_of (s_conns ?t) (addr_string a) = Some c1 \<and> 0 < ?n c1"
    using send_from_conns [OF c1(1)] by simp
  moreover have "\<exists>c. map_of (s_conns ?t) (addr_string x) = Some c \<and> 0 < ?n c" if x: "x \<in> set as" for x
  proof -
    obtain c where "map_of (s_conns ?t) (addr_string x) = Some c" "0 < n c" using n(2) x by blast
    then show ?thesis by (intro exI [of _ c]) simp
  qed
  ultimately show ?case unfolding t by (intro exI [of _ ?n]) auto
qed

lemma send_all_wire:
  assumes "a \<in> set as"
  shows "\<exists>c n. map_of (s_conns (send_all as data (\<lambda>i. good_env (dial i)) s)) (addr_string a) = Some c
     \<and> s_wire (send_all as data (\<lambda>i. good_env (dial i)) s) c = s_wire s c @ concat (replicate (Suc n) (frame data))"
proof -
  let ?t = "send_from data dial 0 as s"
  obtain n where n: "s_wire ?t = (\<lambda>c. s_wire s c @ concat (replicate (n c) (frame data)))"
    "\<forall>a\<in>set as. \<exists>c. map_of (s_conns ?t) (addr_string a) = Some c \<and> 0 < n c"
    using send_from_wire by blast
  then obtain c where c: "map_of (s_conns ?t) (addr_string a) = Some c" "0 < n c" using assms by blast
  then obtain m where "n c = Suc m" by (cases "n c") auto
  then show ?thesis unfolding send_all_from using c(1) n(1) by (intro exI [of _ c] exI [of _ m]) simp
qed

section \<open>The end of a round at a peer\<close>

text \<open>
  C10. When a coordinator ends its round over a network without errors, the block is the
  last message on the connection to every block address, a coordinator that reads it there
  ends with the same last block hash, and it moves up to the round that was ended, one
  behind the sender, unless it is further already.
\<close>

theorem ended_round_reaches_peer:
  assumes "iteration it" and "time_ok now" and "cc_sender cA = Some s"
    and "Size (cc_committee cA) \<le> GetVertexCountInRound (InsertVertex (cc_dag cA) v) (cc_round cA)"
    and "a \<in> set (GetBlockReceiverAddresses vit (cc_committee cA))"
    and "\<And>c. \<exists>ms. (\<forall>m\<in>set ms. length m \<le> MaxMessageSize) \<and> s_wire s c = concat (map frame ms)"
    and "\<not> cc_done cB" and "ch_values (cc_blockCh cB) = []" and "0 < ch_cap (cc_blockCh cB)"
  shows "\<exists>cA' s' c ms data cB1 cB2.
       handleVertex blake now it vit (\<lambda>i. good_env (dial i)) v cA = Ok cA' \<and> cc_round cA' = cc_round cA + 1
     \<and> cc_sender cA' = Some s' \<and> map_of (s_conns s') (addr_string a) = Some c
     \<and> conn_loop (clean_conn (s_wire s' c)) [] = Some (ms @ [data])
     \<and> CC_HandleMessage blake now' it' data cB = (Taken, cB1)
     \<and> run_turn blake now'' vo vit' envs FromBlockCh cB1 = Some cB2
     \<and> cc_lastBlock cB2 = cc_lastBlock cA' \<and> cc_lastBlock cA' \<noteq> None
     \<and> cc_round cB2 = (if cc_round cB \<le> cc_round cA then cc_round cA else cc_round cB)"
proof -
  let ?b = "NewBlock blake now (cc_round cA) None"
  obtain data cA' where A: "Block_MarshalBinary ?b = Some data"
    "handleVertex blake now it vit (\<lambda>i. good_env (dial i)) v cA = Ok cA'" "cc_round cA' = cc_round cA + 1"
    "cc_lastBlock cA' = Some (block_calculateHash blake ?b)"
    "cc_sender cA' = Some (send_all (GetBlockReceiverAddresses vit (cc_committee cA)) data (\<lambda>i. good_env (dial i)) s)"
    using handleVertex_result [OF assms(1-3), of v blake vit "\<lambda>i. good_env (dial i)"] assms(4)
    by (auto simp: Let_def)
  obtain c n where c: "map_of (s_conns (send_all (GetBlockReceiverAddresses vit (cc_committee cA)) data (\<lambda>i. good_env (dial i)) s))
      (addr_string a) = Some c"
    "s_wire (send_all (GetBlockReceiverAddresses vit (cc_committee cA)) data (\<lambda>i. good_env (dial i)) s) c
      = s_wire s c @ concat (replicate (Suc n) (frame data))"
    using send_all_wire [OF assms(5), of data dial s] by blast
  obtain ms where ms: "\<forall>m\<in>set ms. length m \<le> MaxMessageSize" "s_wire s c = concat (map frame ms)"
    using assms(6) by blast
  have small: "length data \<le> MaxMessageSize" using empty_block_small [OF _ A(1)] by simp
  let ?ds = "ms @ replicate (Suc n) data"
  have "s_wire (send_all (GetBlockReceiverAddresses vit (cc_committee cA)) data (\<lambda>i. good_env (dial i)) s) c
      = concat (map frame ?ds)"
    unfolding c(2) ms(2) by simp
  moreover have "\<forall>m\<in>set ?ds. length m \<le> MaxMessageSize" using ms(1) small by auto
  moreover have "?ds = (ms @ replicate n data) @ [data]" by (simp flip: replicate_append_same)
  ultimately have wire: "conn_loop (clean_conn (s_wire (send_all (GetBlockReceiverAddresses vit (cc_committee cA)) data
      (\<lambda>i. good_env (dial i)) s) c)) [] = Some ((ms @ replicate n data) @ [data])"
    using frames_received_in_order by metis
  have "time_ok (b_timestamp ?b)" using assms(2) by simp
  from block_from_wire [OF this assms(7-), of blake now' it' now'' vo vit' envs]
  obtain cB1 cB2 where "CC_HandleMessage blake now' it' data cB = (Taken, cB1)"
    "run_turn blake now'' vo vit' envs FromBlockCh cB1 = Some cB2"
    "cc_round cB2 = (if cc_round cB \<le> cc_round cA then cc_round cA else cc_round cB)"
    "cc_lastBlock cB2 = Some (block_calculateHash blake ?b)"
    unfolding A(1) option.inject NewBlock_simps by blast
  then show ?thesis using A wire c(1) by (metis option.distinct(1))
qed

theorem ended_round_reaches_peer_witness:
  "\<exists>(cA' :: coordinator) (cB2 :: coordinator). cc_round cA' = 4 \<and> cc_lastBlock cB2 = cc_lastBlock cA' \<and> cc_lastBlock cA' \<noteq> None \<and> cc_round cB2 = 3"
proof -
  let ?cA = "sample_cc\<lparr>cc_sender := Some NewSender, cc_dag := InsertVertex (cc_dag sample_cc) (sample_vertex 1 3 [])\<rparr>"
  let ?a = "BlockAddress (genesis_validator (\<lambda>x. x) (\<lambda>x. x) [1])"
  have count: "GetVertexCountInRound (InsertVertex (cc_dag ?cA) (sample_vertex 2 3 [])) 3 = Suc (Suc 0)"
    by (subst count_insert_fresh) (simp_all add: count_insert_fresh round_map_InsertVertex)
  have s: "cc_sender ?cA = Some NewSender" by simp
  have full: "Size (cc_committee ?cA) \<le> GetVertexCountInRound (InsertVertex (cc_dag ?cA) (sample_vertex 2 3 [])) (cc_round ?cA)"
    using count by simp
  have a: "?a \<in> set (GetBlockReceiverAddresses rev (cc_committee ?cA))"
    by (simp add: GetBlockReceiverAddresses_def sample_committee_def)
  have wires: "\<exists>ms. (\<forall>m\<in>set ms. length m \<le> MaxMessageSize) \<and> s_wire NewSender c = concat (map frame ms)" for c
    by (rule exI [of _ "[]"]) (simp add: NewSender_def)
  have b: "\<not> cc_done sample_cc" "ch_values (cc_blockCh sample_cc) = []" "0 < ch_cap (cc_blockCh sample_cc)" by simp_all
  from ended_round_reaches_peer [OF iteration_rev time_ok_zero s full a wires b, of rev "\<lambda>i. i" zero_time rev zero_time rev rev "\<lambda>_. good_env 0"]
  obtain cA' cB2 :: coordinator where "cc_round cA' = cc_round ?cA + 1" "cc_lastBlock cB2 = cc_lastBlock cA'" "cc_lastBlock cA' \<noteq> None"
    "cc_round cB2 = (if cc_round sample_cc \<le> cc_round ?cA then cc_round ?cA else cc_round sample_cc)"
    by blast
  then show ?thesis by (intro exI [of _ cA'] exI [of _ cB2]) simp
qed

end
