(* ===== verification/Network_Workers.thy ===== *)
theory Network_Workers
  imports Network_Receiver "HOL-Library.Multiset"
begin

text \<open>
  pkg/network/network.go: a connection together with the workers that handle its messages.  The
  20 workers are shared by all connections of a receiver, and run at the same time as the loop that
  reads, so messages can be handled in another order than they were sent in.  A call of the handler
  takes effect at one moment (\<open>link_handle\<close>, \<open>link_handle_inline\<close>).
\<close>

section \<open>A connection and its workers\<close>

text \<open>
  \<open>lk_others\<close> counts the workers that other connections hold.  A message is numbered in the
  order in which it was read.  \<open>lk_workers\<close> are goroutines whose call of the handler has not
  taken effect, \<open>lk_inline\<close> is the message that the goroutine of the connection handles itself;
  \<open>lk_releasing\<close> counts workers between the handler and the release.
\<close>

record link =
  lk_conn :: conn
  lk_receiver :: receiver
  lk_workers :: "(nat \<times> byte list) list"
  lk_inline :: "(nat \<times> byte list) option"
  lk_releasing :: nat
  lk_others :: nat
  lk_read :: "byte list list"
  lk_handled :: "(nat \<times> byte list) list"

definition link_init :: "net_addr \<Rightarrow> conn \<Rightarrow> link \<Rightarrow> bool" where
  "link_init a c l \<longleftrightarrow>
     l = \<lparr>lk_conn = c, lk_receiver = snd (Receiver_Start True (NewReceiver a)), lk_workers = [], lk_inline = None,
          lk_releasing = 0, lk_others = 0, lk_read = [], lk_handled = []\<rparr>"

inductive link_step :: "link \<Rightarrow> link \<Rightarrow> bool" where
  link_continue: "lk_inline l = None \<Longrightarrow> conn_turn (lk_conn l) = Continue c \<Longrightarrow> link_step l (l\<lparr>lk_conn := c\<rparr>)"
| link_worker: "lk_inline l = None \<Longrightarrow> conn_turn (lk_conn l) = Deliver m c
    \<Longrightarrow> dispatch_message (lk_receiver l) = (InWorker, r)
    \<Longrightarrow> link_step l (l\<lparr>lk_conn := c, lk_receiver := r, lk_workers := lk_workers l @ [(length (lk_read l), m)],
                      lk_read := lk_read l @ [m]\<rparr>)"
| link_inline: "lk_inline l = None \<Longrightarrow> conn_turn (lk_conn l) = Deliver m c
    \<Longrightarrow> dispatch_message (lk_receiver l) = (InConnection, r)
    \<Longrightarrow> link_step l (l\<lparr>lk_conn := c, lk_receiver := r, lk_inline := Some (length (lk_read l), m),
                      lk_read := lk_read l @ [m]\<rparr>)"
| link_handle: "lk_workers l = xs @ x # ys
    \<Longrightarrow> link_step l (l\<lparr>lk_workers := xs @ ys, lk_releasing := lk_releasing l + 1, lk_handled := lk_handled l @ [x]\<rparr>)"
| link_handle_inline: "lk_inline l = Some x
    \<Longrightarrow> link_step l (l\<lparr>lk_inline := None, lk_handled := lk_handled l @ [x]\<rparr>)"
| link_release: "lk_releasing l = Suc n \<Longrightarrow> release_worker (lk_receiver l) = Some r
    \<Longrightarrow> link_step l (l\<lparr>lk_receiver := r, lk_releasing := n\<rparr>)"
| link_other_takes: "dispatch_message (lk_receiver l) = (InWorker, r)
    \<Longrightarrow> link_step l (l\<lparr>lk_receiver := r, lk_others := lk_others l + 1\<rparr>)"
| link_other_releases: "lk_others l = Suc n \<Longrightarrow> release_worker (lk_receiver l) = Some r
    \<Longrightarrow> link_step l (l\<lparr>lk_receiver := r, lk_others := n\<rparr>)"

definition pool_used :: "receiver \<Rightarrow> nat" where
  "pool_used r = length (ch_values (r_workerPool r))"

definition in_flight :: "link \<Rightarrow> (nat \<times> byte list) multiset" where
  "in_flight l = mset (lk_workers l) + mset_set (set_option (lk_inline l))"

definition link_ok :: "conn \<Rightarrow> link \<Rightarrow> bool" where
  "link_ok c l \<longleftrightarrow> ch_cap (r_workerPool (lk_receiver l)) = 20 \<and> pool_used (lk_receiver l) \<le> 20
     \<and> pool_used (lk_receiver l) = length (lk_workers l) + lk_releasing l + lk_others l
     \<and> conn_loop (lk_conn l) (lk_read l) = conn_loop c [] \<and> c_end (lk_conn l) = c_end c
     \<and> mset (lk_handled l) + in_flight l = mset (enumerate 0 (lk_read l))
     \<and> (\<forall>j<length (lk_handled l). fst (lk_handled l ! j) \<le> j + 20)"

lemma dispatch_used:
  "dispatch_message r = (InWorker, r') \<Longrightarrow> pool_used r' = pool_used r + 1 \<and> pool_used r < ch_cap (r_workerPool r)
     \<and> ch_cap (r_workerPool r') = ch_cap (r_workerPool r)"
  "dispatch_message r = (InConnection, r') \<Longrightarrow> r' = r \<and> ch_cap (r_workerPool r) \<le> pool_used r"
  by (auto simp: dispatch_message_def pool_used_def chan_send_def split: option.splits if_splits)

lemma release_used:
  "release_worker r = Some r' \<Longrightarrow> pool_used r = pool_used r' + 1 \<and> ch_cap (r_workerPool r') = ch_cap (r_workerPool r)"
  "release_worker r = None \<longleftrightarrow> pool_used r = 0"
  by (auto simp: release_worker_def pool_used_def chan_recv_def split: option.splits list.splits)

lemma conn_loop_turn:
  "conn_turn c = Continue c' \<Longrightarrow> conn_loop c ms = conn_loop c' ms"
  "conn_turn c = Deliver m c' \<Longrightarrow> conn_loop c ms = conn_loop c' (ms @ [m])"
  "conn_turn c = Return \<Longrightarrow> conn_loop c ms = Some ms"
  by (simp_all add: conn_loop.simps [of c ms])

text \<open>The next message that takes effect was read at most 20 messages after the number of those before it.\<close>

lemma link_ok_handled:
  assumes "link_ok c l" and "in_flight l = add_mset x F"
  shows "fst x \<le> length (lk_handled l) + 20"
proof -
  have all: "mset (lk_handled l) + in_flight l = mset (enumerate 0 (lk_read l))" using assms(1) by (simp add: link_ok_def)
  have "x \<in># mset (enumerate 0 (lk_read l))" unfolding all [symmetric] assms(2) by simp
  then have "fst x < length (lk_read l)" by (cases x) (auto simp: in_set_enumerate_eq)
  moreover have "size (mset (lk_handled l) + in_flight l) = length (lk_read l)"
    unfolding all by simp
  moreover have "size (in_flight l) \<le> 21"
    using assms(1) by (cases "lk_inline l") (simp_all add: in_flight_def link_ok_def)
  ultimately show ?thesis by simp
qed

lemma handled_bound_snoc:
  "\<forall>j<length xs. fst (xs ! j) \<le> j + 20 \<Longrightarrow> fst x \<le> length xs + 20 \<Longrightarrow>
     \<forall>j<length (xs @ [x]). fst ((xs @ [x]) ! j) \<le> j + 20"
  by (simp add: nth_append less_Suc_eq)

lemma link_ok_step:
  assumes "link_ok c l" and "link_step l l'"
  shows "link_ok c l'"
  using assms(2)
proof (cases rule: link_step.cases)
  case (link_continue c')
  then show ?thesis
    using assms(1) conn_loop_turn(1) conn_turn_end(1) by (auto simp: link_ok_def in_flight_def)
next
  case (link_worker m c' r)
  then show ?thesis
    using assms(1) dispatch_used(1) [OF link_worker(4)] conn_loop_turn(2) [OF link_worker(3), of "lk_read l"] conn_turn_end(2) [OF link_worker(3)]
    by (simp add: link_ok_def in_flight_def enumerate_append_eq)
next
  case (link_inline m c' r)
  then show ?thesis
    using assms(1) dispatch_used(2) [OF link_inline(4)] conn_loop_turn(2) [OF link_inline(3), of "lk_read l"] conn_turn_end(2) [OF link_inline(3)]
    by (simp add: link_ok_def in_flight_def enumerate_append_eq)
next
  case (link_handle xs x ys)
  have "fst x \<le> length (lk_handled l) + 20"
    by (rule link_ok_handled [OF assms(1)]) (simp add: in_flight_def link_handle(2))
  then show ?thesis
    using assms(1) link_handle handled_bound_snoc [of "lk_handled l" x] by (simp add: link_ok_def in_flight_def)
next
  case (link_handle_inline x)
  have "fst x \<le> length (lk_handled l) + 20"
    by (rule link_ok_handled [OF assms(1)]) (simp add: in_flight_def link_handle_inline(2))
  then show ?thesis
    using assms(1) link_handle_inline handled_bound_snoc [of "lk_handled l" x] by (simp add: link_ok_def in_flight_def)
next
  case (link_release n r)
  then show ?thesis
    using assms(1) release_used(1) [OF link_release(3)] by (simp add: link_ok_def in_flight_def)
next
  case (link_other_takes r)
  then show ?thesis
    using assms(1) dispatch_used(1) [OF link_other_takes(2)] by (simp add: link_ok_def in_flight_def)
next
  case (link_other_releases n r)
  then show ?thesis
    using assms(1) release_used(1) [OF link_other_releases(3)] by (simp add: link_ok_def in_flight_def)
qed

interpretation link_inv: inductive_invariant "link_init a c" link_step "link_ok c"
proof
  show "link_ok c l" if "link_init a c l" for l
    using that by (simp add: link_init_def link_ok_def pool_used_def in_flight_def Receiver_Start_def NewReceiver_def)
qed (rule link_ok_step)

section \<open>Done\<close>

definition link_done :: "link \<Rightarrow> bool" where
  "link_done l \<longleftrightarrow> conn_turn (lk_conn l) = Return \<and> lk_workers l = [] \<and> lk_inline l = None"

definition link_todo :: "link \<Rightarrow> nat" where
  "link_todo l = 2 * length (c_events (lk_conn l)) + length (lk_workers l) + card (set_option (lk_inline l))"

lemma link_progress:
  assumes "link_ok c l" and "c_end c = Eof_forever" and "\<not> link_done l"
  shows "\<exists>l'. link_step l l' \<and> link_todo l' < link_todo l"
proof (cases "lk_inline l")
  case (Some x)
  from link_step.link_handle_inline [OF this] show ?thesis
    by - (intro exI conjI, assumption, simp add: link_todo_def Some)
next
  case None
  show ?thesis
  proof (cases "lk_workers l")
    case (Cons x ys)
    then have "lk_workers l = [] @ x # ys" by simp
    from link_step.link_handle [OF this] show ?thesis
      by - (intro exI conjI, assumption, simp add: link_todo_def Cons)
  next
    case Nil
    have eof: "c_end (lk_conn l) = Eof_forever" using assms(1,2) by (simp add: link_ok_def)
    have turn: "conn_turn (lk_conn l) \<noteq> Return" using assms(3) Nil None by (simp add: link_done_def)
    then have ne: "c_events (lk_conn l) \<noteq> []" using conn_turn_Nil [of "lk_conn l"] eof by auto
    show ?thesis
    proof (cases "conn_turn (lk_conn l)")
      case (Continue c')
      from link_step.link_continue [OF None Continue] show ?thesis
        using conn_turn_progress(1) [OF ne Continue] by - (intro exI conjI, assumption, simp add: link_todo_def)
    next
      case (Deliver m c')
      obtain d r where r: "dispatch_message (lk_receiver l) = (d, r)" by fastforce
      note less = conn_turn_progress(2) [OF ne Deliver]
      show ?thesis
      proof (cases d)
        case InWorker
        from link_step.link_worker [OF None Deliver r [unfolded InWorker]] show ?thesis
          using less by - (intro exI conjI, assumption, simp add: link_todo_def None)
      next
        case InConnection
        from link_step.link_inline [OF None Deliver r [unfolded InConnection]] show ?thesis
          using less None by - (intro exI conjI, assumption, simp add: link_todo_def)
      qed
    qed (simp add: turn)
  qed
qed

interpretation link_run: can_finish "\<lambda>l. link_init a c l \<and> c_end c = Eof_forever" link_step
    "\<lambda>l. link_ok c l \<and> c_end c = Eof_forever" link_done link_todo
  by unfold_locales (use link_inv.init_inv link_ok_step link_progress in blast)+

lemma link_done_result:
  assumes "link_ok c l" and "link_done l"
  shows "conn_loop c [] = Some (lk_read l)"
    and "mset (lk_handled l) = mset (enumerate 0 (lk_read l))"
  using assms conn_loop_turn(3) [of "lk_conn l" "lk_read l"] by (simp_all add: link_ok_def link_done_def in_flight_def)

text \<open>A list with the numbered messages is a permutation of them.\<close>

lemma handled_permutation:
  assumes "mset hs = mset (enumerate 0 ms)"
  shows "mset (map fst hs) = mset [0..<length ms]" and "map snd hs = map (\<lambda>i. ms ! i) (map fst hs)"
proof -
  show "mset (map fst hs) = mset [0..<length ms]"
    using arg_cong [OF assms, of "image_mset fst"] by (simp flip: mset_map)
  have "snd p = ms ! fst p" if "p \<in> set hs" for p
  proof -
    have "p \<in> set (enumerate 0 ms)" using that mset_eq_setD [OF assms] by simp
    then show ?thesis by (simp add: in_set_enumerate_eq)
  qed
  then show "map snd hs = map (\<lambda>i. ms ! i) (map fst hs)" by simp
qed

lemma link_finishes:
  assumes "reach (link_init a c) link_step l" and "c_end c = Eof_forever"
  shows "\<exists>l'. link_step\<^sup>*\<^sup>* l l' \<and> link_done l'"
proof -
  have "link_ok c l \<and> c_end c = Eof_forever" using link_inv.reach_inv [OF assms(1)] assms(2) by blast
  then show ?thesis using link_run.inv_finishes by blast
qed

lemma link_result:
  assumes "reach (link_init a c) link_step l" and "link_done l"
  obtains order where "conn_loop c [] = Some (lk_read l)" "map snd (lk_handled l) = map (\<lambda>i. lk_read l ! i) order"
    "mset order = mset [0..<length (lk_read l)]" "\<forall>j<length (lk_read l). order ! j \<le> j + 20"
proof -
  have ok: "link_ok c l" using assms(1) by (rule link_inv.reach_inv)
  note perm = handled_permutation [OF link_done_result(2) [OF ok assms(2)]]
  have "length (lk_handled l) = length (lk_read l)"
    using mset_eq_length [OF link_done_result(2) [OF ok assms(2)]] by simp
  then have "\<forall>j<length (lk_read l). map fst (lk_handled l) ! j \<le> j + 20" using ok by (simp add: link_ok_def)
  then show thesis using that perm link_done_result(1) [OF ok assms(2)] by blast
qed

text \<open>
  C23. When a connection has been read to its end and its workers are done, every message
  that the loop read has been handled exactly once, and none before more than 20 places of
  its turn, although the 20 workers, shared with other connections, run at the same time.
\<close>

theorem messages_handled_once:
  assumes "reach (link_init a c) link_step l" and "link_done l"
  shows "\<exists>msgs order. conn_loop c [] = Some msgs \<and> map snd (lk_handled l) = map (\<lambda>i. msgs ! i) order
     \<and> mset order = mset [0..<length msgs] \<and> (\<forall>j<length msgs. order ! j \<le> j + 20)"
proof -
  obtain order where "conn_loop c [] = Some (lk_read l)" "map snd (lk_handled l) = map (\<lambda>i. lk_read l ! i) order"
    "mset order = mset [0..<length (lk_read l)]" "\<forall>j<length (lk_read l). order ! j \<le> j + 20"
    using link_result [OF assms] .
  then show ?thesis by (intro exI [of _ "lk_read l"] exI [of _ order] conjI)
qed

theorem connection_can_finish:
  assumes "reach (link_init a c) link_step l" and "c_end c = Eof_forever"
  shows "\<exists>l'. link_step\<^sup>*\<^sup>* l l' \<and> link_done l'"
  using assms by (rule link_finishes)

lemma link_done_exists:
  assumes "c_end c = Eof_forever"
  shows "\<exists>l. reach (link_init a c) link_step l \<and> link_done l"
proof -
  obtain l where l: "reach (link_init a c) link_step l"
    using reach_init [of "link_init a c"] by (auto simp: link_init_def)
  then obtain l' where "link_step\<^sup>*\<^sup>* l l'" "link_done l'" using link_finishes assms by blast
  then show ?thesis using reach_steps [OF l] by blast
qed

text \<open>Two messages that two workers handle in the other order.\<close>

definition sample_link :: conn where
  "sample_link = clean_conn (concat (map frame [[1], [2]]))"

lemma sample_link_run:
  "\<exists>l. reach (link_init a sample_link) link_step l \<and> link_done l \<and> map snd (lk_handled l) = [[2], [1]]"
proof -
  let ?r0 = "snd (Receiver_Start True (NewReceiver a))"
  let ?c1 = "sample_link\<lparr>c_events := map Byte (frame [2])\<rparr>" and ?c2 = "sample_link\<lparr>c_events := []\<rparr>"
  let ?l0 = "\<lparr>lk_conn = sample_link, lk_receiver = ?r0, lk_workers = [], lk_inline = None,
          lk_releasing = 0, lk_others = 0, lk_read = [], lk_handled = []\<rparr>"
  have t1: "conn_turn sample_link = Deliver [1] ?c1"
    by (rule conn_turn_frame) (simp_all add: sample_link_def clean_conn_def MaxMessageSize_def)
  have t2: "conn_turn ?c1 = Deliver [2] ?c2"
    using conn_turn_frame [of ?c1 "[2]" "[]"] by (simp add: MaxMessageSize_def)
  have t3: "conn_turn ?c2 = Return" by (subst conn_turn_Nil) (simp_all add: sample_link_def clean_conn_def)
  obtain r1 where r1: "dispatch_message ?r0 = (InWorker, r1)" "ch_values (r_workerPool r1) = [()]" "ch_cap (r_workerPool r1) = 20"
    by (simp add: dispatch_message_def chan_send_def Receiver_Start_def NewReceiver_def)
  obtain r2 where r2: "dispatch_message r1 = (InWorker, r2)"
    using r1 by (simp add: dispatch_message_def chan_send_def)
  let ?l1 = "?l0\<lparr>lk_conn := ?c1, lk_receiver := r1, lk_workers := [(0, [1])], lk_read := [[1]]\<rparr>"
  let ?l2 = "?l1\<lparr>lk_conn := ?c2, lk_receiver := r2, lk_workers := [(0, [1]), (1, [2])], lk_read := [[1], [2]]\<rparr>"
  let ?l3 = "?l2\<lparr>lk_workers := [(0, [1])], lk_releasing := 1, lk_handled := [(1, [2])]\<rparr>"
  let ?l4 = "?l3\<lparr>lk_workers := [], lk_releasing := Suc (Suc 0), lk_handled := [(1, [2]), (0, [1])]\<rparr>"
  have "reach (link_init a sample_link) link_step ?l0" by (rule reach_init) (simp add: link_init_def)
  moreover have "link_step ?l0 ?l1" using link_worker [of ?l0 "[1]" ?c1 r1] t1 r1(1) by simp
  moreover have "link_step ?l1 ?l2" using link_worker [of ?l1 "[2]" ?c2 r2] t2 r2 by simp
  moreover have "link_step ?l2 ?l3" using link_handle [of ?l2 "[(0, [1])]" "(1, [2])" "[]"] by simp
  moreover have "link_step ?l3 ?l4" using link_handle [of ?l3 "[]" "(0, [1])" "[]"] by simp
  ultimately have "reach (link_init a sample_link) link_step ?l4" by (meson reach_step)
  moreover have "link_done ?l4" using t3 by (simp add: link_done_def)
  ultimately show ?thesis by (intro exI conjI) (assumption, assumption, simp)
qed

theorem messages_handled_once_witness:
  "\<exists>msgs order. conn_loop sample_link [] = Some msgs \<and> map (\<lambda>i. msgs ! i) order = [[2], [1]]
     \<and> mset order = mset [0..<length msgs]"
proof -
  obtain l where l: "reach (link_init (resolve_tcp 0) sample_link) link_step l" "link_done l" "map snd (lk_handled l) = [[2], [1]]"
    using sample_link_run [of "resolve_tcp 0"] by (elim exE conjE) (rule that)
  from messages_handled_once [OF l(1,2)] obtain msgs order where "conn_loop sample_link [] = Some msgs"
    "[[2], [1]] = map (\<lambda>i. msgs ! i) order" "mset order = mset [0..<length msgs]"
    unfolding l(3) by (elim exE conjE) (rule that)
  then show ?thesis by (intro exI [of _ msgs] exI [of _ order]) simp
qed

theorem connection_can_finish_witness:
  "\<exists>l. link_step\<^sup>*\<^sup>*
        \<lparr>lk_conn = sample_link, lk_receiver = snd (Receiver_Start True (NewReceiver (resolve_tcp 0))), lk_workers = [],
         lk_inline = None, lk_releasing = 0, lk_others = 0, lk_read = [], lk_handled = []\<rparr> l \<and> link_done l"
proof (rule connection_can_finish)
  show "c_end sample_link = Eof_forever" by (simp add: sample_link_def clean_conn_def)
  show "reach (link_init (resolve_tcp 0) sample_link) link_step
     \<lparr>lk_conn = sample_link, lk_receiver = snd (Receiver_Start True (NewReceiver (resolve_tcp 0))), lk_workers = [],
         lk_inline = None, lk_releasing = 0, lk_others = 0, lk_read = [], lk_handled = []\<rparr>"
    by (rule reach_init) (simp add: link_init_def)
qed

end
