(* ===== verification/Network_Concurrent.thy ===== *)
theory Network_Concurrent
  imports Network_Sender
begin

text \<open>
  pkg/network/network.go, calls of \<open>Send\<close> that run at the same time on one \<open>Sender\<close>, as in
  the goroutines of \<open>Broadcast\<close>.  A call is a job with its own answers from the network; the
  jobs share the sender.  One step of a job is what it does between two points where another
  can come in: a section under \<open>connsMux\<close>, or one write.  Whether the connection that was
  found is alive is asked without the lock, but the answer is the job's own, so the question
  is part of the step before.  \<open>ss_locked\<close> says that a job waits for itself with the lock
  held, which no one else gets from then on.  A write succeeds or fails as the job's own answers
  say, also on a connection that another job has closed meanwhile; no property below is about a
  run where that happens.

  The theory shows that jobs for different addresses cannot be told from the same jobs one
  after the other (\<open>sends\<close>), and what goes wrong between two jobs for one address.
\<close>

section \<open>Steps\<close>

record send_job =
  j_addr :: net_addr
  j_data :: "byte list"
  j_env :: net_env

datatype send_phase =
    Looking
  | Dropping
  | Locking
  | Connected nat
  | HeaderSent nat
  | Closing send_error
  | Finished send_result

record senders =
  ss_sender :: sender
  ss_locked :: bool
  ss_phase :: "nat \<Rightarrow> send_phase"

text \<open>
  What the goroutine of one job does next: the sender and its phase afterwards, and whether
  \<open>connsMux\<close> is held for ever from then on.
\<close>

definition send_advance :: "send_job \<Rightarrow> send_phase \<Rightarrow> sender \<Rightarrow> sender \<times> send_phase \<times> bool" where
  "send_advance j p s =
     (case p of
        Looking \<Rightarrow>
          (case map_of (s_conns s) (addr_string (j_addr j)) of
             None \<Rightarrow> (s, Locking, False)
           | Some c \<Rightarrow> (s, if alive_fast (j_env j) then Connected c else Dropping, False))
      | Dropping \<Rightarrow> (closeConnection (j_addr j) s, Locking, False)
      | Locking \<Rightarrow>
          (case get_locked (j_addr j) (j_env j) s of
             (GotConn c, s') \<Rightarrow> (s', Connected c, False)
           | (NoConn, s') \<Rightarrow> (s', Finished (SendError DialFailed), False)
           | (SelfDeadlock, s') \<Rightarrow> (s', Finished SendHangs, True))
      | Connected c \<Rightarrow>
          (case conn_write c (put_u32 (of_nat (length (j_data j)))) (header_fails (j_env j)) s of
             (True, s') \<Rightarrow> (s', HeaderSent c, False)
           | (False, s') \<Rightarrow> (s', Closing HeaderFailed, False))
      | HeaderSent c \<Rightarrow>
          (case conn_write c (j_data j) (data_fails (j_env j)) s of
             (True, s') \<Rightarrow> (s', Finished Sent, False)
           | (False, s') \<Rightarrow> (s', Closing DataFailed, False))
      | Closing e \<Rightarrow> (closeConnection (j_addr j) s, Finished (SendError e), False)
      | Finished r \<Rightarrow> (s, Finished r, False))"

fun needs_lock :: "send_phase \<Rightarrow> bool" where
  "needs_lock Looking = True"
| "needs_lock Dropping = True"
| "needs_lock Locking = True"
| "needs_lock (Closing e) = True"
| "needs_lock _ = False"

inductive send_step :: "send_job list \<Rightarrow> senders \<Rightarrow> senders \<Rightarrow> bool" for jobs :: "send_job list" where
  send_turn: "i < length jobs \<Longrightarrow> \<forall>r. ss_phase g i \<noteq> Finished r \<Longrightarrow> needs_lock (ss_phase g i) \<longrightarrow> \<not> ss_locked g
    \<Longrightarrow> send_advance (jobs ! i) (ss_phase g i) (ss_sender g) = (s, p, stuck)
    \<Longrightarrow> send_step jobs g (g\<lparr>ss_sender := s, ss_phase := (ss_phase g)(i := p), ss_locked := ss_locked g \<or> stuck\<rparr>)"

definition send_init :: "sender \<Rightarrow> senders \<Rightarrow> bool" where
  "send_init s g \<longleftrightarrow> g = \<lparr>ss_sender = s, ss_locked = False, ss_phase = (\<lambda>_. Looking)\<rparr>"

section \<open>Sends to different addresses\<close>

definition own_conns :: "sender \<Rightarrow> send_job \<Rightarrow> nat set" where
  "own_conns s j = set_option (map_of (s_conns s) (addr_string (j_addr j))) \<union> set_option (dialed (j_env j))"

definition independent :: "sender \<Rightarrow> send_job list \<Rightarrow> bool" where
  "independent s jobs \<longleftrightarrow> (\<forall>i<length jobs. \<forall>k<length jobs. i \<noteq> k \<longrightarrow>
     addr_string (j_addr (jobs ! i)) \<noteq> addr_string (j_addr (jobs ! k))
     \<and> own_conns s (jobs ! i) \<inter> own_conns s (jobs ! k) = {})"

definition send_alone :: "sender \<Rightarrow> send_job \<Rightarrow> send_result \<times> sender" where
  "send_alone s j = Send (j_addr j) (j_data j) (j_env j) s"

text \<open>What a job sees of a sender: the entry of its address and what was written to its connections.\<close>

definition job_view :: "sender \<Rightarrow> send_job \<Rightarrow> sender \<Rightarrow> nat option \<times> (nat \<Rightarrow> byte list)" where
  "job_view s0 j s = (map_of (s_conns s) (addr_string (j_addr j)),
     \<lambda>c. if c \<in> own_conns s0 j then s_wire s c else [])"

text \<open>Where a job can be, compared with the same job alone.\<close>

definition job_ok :: "sender \<Rightarrow> send_job \<Rightarrow> send_phase \<Rightarrow> sender \<Rightarrow> bool" where
  "job_ok s0 j p s = (let a = j_addr j; env = j_env j; got = getConnection a env s0 in
     case p of
       Looking \<Rightarrow> job_view s0 j s = job_view s0 j s0
     | Dropping \<Rightarrow> job_view s0 j s = job_view s0 j s0 \<and> \<not> alive_fast env \<and> map_of (s_conns s0) (addr_string a) \<noteq> None
     | Locking \<Rightarrow> job_view s0 j s = (None, snd (job_view s0 j s0)) \<and> fst (get_fast a env s0) = None
     | Connected c \<Rightarrow> fst got = GotConn c \<and> job_view s0 j s = job_view s0 j (snd got)
     | HeaderSent c \<Rightarrow> fst got = GotConn c \<and> header_fails env = None
         \<and> job_view s0 j s = job_view s0 j (snd (conn_write c (put_u32 (of_nat (length (j_data j)))) None (snd got)))
     | Closing e \<Rightarrow> fst (send_alone s0 j) = SendError e \<and> e \<noteq> DialFailed
         \<and> snd (job_view s0 j s) = snd (job_view s0 j (snd (send_alone s0 j)))
     | Finished r \<Rightarrow> r = fst (send_alone s0 j) \<and> job_view s0 j s = job_view s0 j (snd (send_alone s0 j)))"

lemma job_ok_view: "job_view s0 j s = job_view s0 j s' \<Longrightarrow> job_ok s0 j p s = job_ok s0 j p s'"
  by (simp add: job_ok_def Let_def split: send_phase.split)


lemma get_locked_after_fast:
  assumes "fst (get_fast a env s0) = None"
  shows "getConnection a env s0 =
     (case dialed env of None \<Rightarrow> (NoConn, snd (get_fast a env s0))
      | Some c \<Rightarrow> (GotConn c, (snd (get_fast a env s0))\<lparr>s_conns := AList.update (addr_string a) c (s_conns (snd (get_fast a env s0)))\<rparr>))"
    and "map_of (s_conns (snd (get_fast a env s0))) (addr_string a) = None" and "s_wire (snd (get_fast a env s0)) = s_wire s0"
proof -
  show none: "map_of (s_conns (snd (get_fast a env s0))) (addr_string a) = None"
    using assms by (auto simp: get_fast_def split: option.splits)
  show "s_wire (snd (get_fast a env s0)) = s_wire s0"
    by (simp add: get_fast_def split: option.split)
  show "getConnection a env s0 =
     (case dialed env of None \<Rightarrow> (NoConn, snd (get_fast a env s0))
      | Some c \<Rightarrow> (GotConn c, (snd (get_fast a env s0))\<lparr>s_conns := AList.update (addr_string a) c (s_conns (snd (get_fast a env s0)))\<rparr>))"
  proof -
    obtain b where "get_fast a env s0 = (None, b)" using assms by (cases "get_fast a env s0") auto
    then show ?thesis using none by (simp add: getConnection_def get_locked_def split: option.split)
  qed
qed

lemma got_own: "fst (getConnection (j_addr j) (j_env j) s0) = GotConn c \<Longrightarrow> c \<in> own_conns s0 j"
  by (auto simp: getConnection_def get_fast_def get_locked_def own_conns_def closeConnection_def split: option.splits if_splits)

lemma job_view_iff:
  "job_view s0 j s = job_view s0 j t \<longleftrightarrow>
     map_of (s_conns s) (addr_string (j_addr j)) = map_of (s_conns t) (addr_string (j_addr j))
     \<and> (\<forall>c\<in>own_conns s0 j. s_wire s c = s_wire t c)"
  by (auto simp: job_view_def fun_eq_iff)

lemma job_view_wires:
  "snd (job_view s0 j s) = snd (job_view s0 j t) \<longleftrightarrow> (\<forall>c\<in>own_conns s0 j. s_wire s c = s_wire t c)"
  by (auto simp: job_view_def fun_eq_iff)

lemma job_view_None:
  "job_view s0 j s = (None, snd (job_view s0 j t)) \<longleftrightarrow>
     map_of (s_conns s) (addr_string (j_addr j)) = None \<and> (\<forall>c\<in>own_conns s0 j. s_wire s c = s_wire t c)"
  by (auto simp: job_view_def fun_eq_iff)

lemmas views = job_view_iff job_view_wires job_view_None

lemma closeConnection_view [simp]:
  "map_of (s_conns (closeConnection a s)) (addr_string a) = None" "s_wire (closeConnection a s) = s_wire s"
  by simp_all

lemma job_ok_Looking:
  assumes "job_ok s0 j Looking s" and "send_advance j Looking s = (s', p, stuck)"
  shows "job_ok s0 j p s' \<and> \<not> stuck"
proof -
  have view: "map_of (s_conns s) (addr_string (j_addr j)) = map_of (s_conns s0) (addr_string (j_addr j))"
    and wire: "\<forall>c\<in>own_conns s0 j. s_wire s c = s_wire s0 c"
    using assms(1) by (simp_all add: job_ok_def views Let_def)
  show ?thesis
    using assms(2) view wire
    by (auto simp: job_ok_def send_advance_def views Let_def get_fast_def getConnection_def split: option.splits if_splits)
qed

lemma job_ok_Dropping:
  assumes "job_ok s0 j Dropping s" and "send_advance j Dropping s = (s', p, stuck)"
  shows "job_ok s0 j p s' \<and> \<not> stuck"
  using assms
  by (auto simp: job_ok_def send_advance_def views Let_def get_fast_def)

lemma job_ok_Locking:
  assumes "job_ok s0 j Locking s" and "send_advance j Locking s = (s', p, stuck)"
  shows "job_ok s0 j p s' \<and> \<not> stuck"
proof -
  have fast: "fst (get_fast (j_addr j) (j_env j) s0) = None"
    and none: "map_of (s_conns s) (addr_string (j_addr j)) = None"
    and wire: "\<forall>c\<in>own_conns s0 j. s_wire s c = s_wire s0 c"
    using assms(1) by (simp_all add: job_ok_def views Let_def)
  note got = get_locked_after_fast [OF fast]
  show ?thesis
  proof (cases "dialed (j_env j)")
    case None
    then show ?thesis
      using assms(2) none wire got
      by (auto simp: job_ok_def send_advance_def get_locked_def views Let_def send_alone_def Send_def)
  next
    case (Some c)
    then show ?thesis
      using assms(2) none wire got
      by (auto simp: job_ok_def send_advance_def get_locked_def views Let_def)
  qed
qed

lemma job_ok_Connected:
  assumes "job_ok s0 j (Connected c) s" and "send_advance j (Connected c) s = (s', p, stuck)"
  shows "job_ok s0 j p s' \<and> \<not> stuck"
proof -
  obtain s1 where got: "getConnection (j_addr j) (j_env j) s0 = (GotConn c, s1)"
    and view: "map_of (s_conns s) (addr_string (j_addr j)) = map_of (s_conns s1) (addr_string (j_addr j))"
    and wire: "\<forall>c\<in>own_conns s0 j. s_wire s c = s_wire s1 c"
    using assms(1) by (cases "getConnection (j_addr j) (j_env j) s0") (simp add: job_ok_def views Let_def)
  have own: "c \<in> own_conns s0 j" using got_own [of j s0 c] got by simp
  show ?thesis
    using assms(2) got view wire own
    by (cases "header_fails (j_env j)")
      (auto simp: job_ok_def send_advance_def views Let_def conn_write_def send_alone_def Send_def)
qed

lemma job_ok_HeaderSent:
  assumes "job_ok s0 j (HeaderSent c) s" and "send_advance j (HeaderSent c) s = (s', p, stuck)"
  shows "job_ok s0 j p s' \<and> \<not> stuck"
proof -
  obtain s1 where got: "getConnection (j_addr j) (j_env j) s0 = (GotConn c, s1)" and hdr: "header_fails (j_env j) = None"
    and view: "map_of (s_conns s) (addr_string (j_addr j)) = map_of (s_conns s1) (addr_string (j_addr j))"
    and wire: "\<forall>x\<in>own_conns s0 j. s_wire s x = s_wire (snd (conn_write c (put_u32 (of_nat (length (j_data j)))) None s1)) x"
    using assms(1) by (cases "getConnection (j_addr j) (j_env j) s0") (auto simp: job_ok_def views Let_def conn_write_def)
  have own: "c \<in> own_conns s0 j" using got_own [of j s0 c] got by simp
  show ?thesis
    using assms(2) got hdr view wire own
    by (cases "data_fails (j_env j)")
      (auto simp: job_ok_def send_advance_def views Let_def conn_write_def send_alone_def Send_def)
qed

lemma job_ok_Closing:
  assumes "job_ok s0 j (Closing e) s" and "send_advance j (Closing e) s = (s', p, stuck)"
  shows "job_ok s0 j p s' \<and> \<not> stuck"
proof -
  have "map_of (s_conns (snd (send_alone s0 j))) (addr_string (j_addr j)) = None"
    using assms(1)
    by (auto simp: job_ok_def Let_def send_alone_def Send_def split: conn_result.splits prod.splits bool.splits)
  then show ?thesis
    using assms by (auto simp: job_ok_def send_advance_def views Let_def)
qed

lemma job_ok_advance:
  assumes "job_ok s0 j p s" and "send_advance j p s = (s', p', stuck)"
  shows "job_ok s0 j p' s' \<and> \<not> stuck"
proof (cases p)
  case Looking show ?thesis using job_ok_Looking assms unfolding Looking .
next
  case Dropping show ?thesis using job_ok_Dropping assms unfolding Dropping .
next
  case Locking show ?thesis using job_ok_Locking assms unfolding Locking .
next
  case (Connected c) show ?thesis using job_ok_Connected assms unfolding Connected .
next
  case (HeaderSent c) show ?thesis using job_ok_HeaderSent assms unfolding HeaderSent .
next
  case (Closing e) show ?thesis using job_ok_Closing assms unfolding Closing .
next
  case (Finished r)
  then show ?thesis using assms by (simp add: send_advance_def)
qed

text \<open>A step of one job leaves the entries of other addresses and the other connections alone.\<close>

lemma closeConnection_other: "x \<noteq> addr_string a \<Longrightarrow> map_of (s_conns (closeConnection a s)) x = map_of (s_conns s) x"
  by (simp add: closeConnection_def split: option.split)

lemma job_advance_outside:
  assumes "job_ok s0 j p s" and "send_advance j p s = (s', p', stuck)"
  shows "x \<noteq> addr_string (j_addr j) \<Longrightarrow> map_of (s_conns s') x = map_of (s_conns s) x"
    and "c \<notin> own_conns s0 j \<Longrightarrow> s_wire s' c = s_wire s c"
proof -
  have own: "d \<in> own_conns s0 j" if "p = Connected d \<or> p = HeaderSent d" for d
    using that assms(1) got_own by (auto simp: job_ok_def Let_def)
  show "map_of (s_conns s') x = map_of (s_conns s) x" if "x \<noteq> addr_string (j_addr j)"
    using assms(2) that
    by (cases p) (auto simp: send_advance_def get_locked_def conn_write_def closeConnection_other split: option.splits if_splits)
  show "s_wire s' c = s_wire s c" if "c \<notin> own_conns s0 j"
    using assms(2) that own
    by (cases p) (auto simp: send_advance_def get_locked_def conn_write_def split: option.splits if_splits)
qed

lemma job_advance_frame:
  assumes "job_ok s0 j p s" and "send_advance j p s = (s', p', stuck)"
    and "addr_string (j_addr j) \<noteq> addr_string (j_addr k)" and "own_conns s0 j \<inter> own_conns s0 k = {}"
  shows "job_view s0 k s' = job_view s0 k s"
  using job_advance_outside [OF assms(1,2)] assms(3,4) by (auto simp: views)

section \<open>Every interleaving\<close>

text \<open>Every job is where it could be alone, no lock is held for ever, and what belongs to no job is as it was.\<close>

definition send_ok :: "sender \<Rightarrow> send_job list \<Rightarrow> senders \<Rightarrow> bool" where
  "send_ok s0 jobs g \<longleftrightarrow> independent s0 jobs \<and> \<not> ss_locked g
     \<and> (\<forall>i<length jobs. job_ok s0 (jobs ! i) (ss_phase g i) (ss_sender g))
     \<and> (\<forall>x. (\<forall>i<length jobs. x \<noteq> addr_string (j_addr (jobs ! i))) \<longrightarrow> map_of (s_conns (ss_sender g)) x = map_of (s_conns s0) x)
     \<and> (\<forall>c. (\<forall>i<length jobs. c \<notin> own_conns s0 (jobs ! i)) \<longrightarrow> s_wire (ss_sender g) c = s_wire s0 c)"

lemma send_ok_init: "independent s0 jobs \<Longrightarrow> send_init s0 g \<Longrightarrow> send_ok s0 jobs g"
  by (simp add: send_ok_def send_init_def job_ok_def)

lemma send_ok_advance:
  assumes "send_ok s0 jobs g" and "i < length jobs"
    and "send_advance (jobs ! i) (ss_phase g i) (ss_sender g) = (s, p, stuck)"
  shows "send_ok s0 jobs (g\<lparr>ss_sender := s, ss_phase := (ss_phase g)(i := p), ss_locked := ss_locked g \<or> stuck\<rparr>)"
proof -
  have i: "job_ok s0 (jobs ! i) (ss_phase g i) (ss_sender g)" using assms(1,2) by (simp add: send_ok_def)
  have new: "job_ok s0 (jobs ! i) p s" "\<not> stuck" using job_ok_advance [OF i assms(3)] by simp_all
  note outside = job_advance_outside [OF i assms(3)]
  have "job_ok s0 (jobs ! k) (ss_phase g k) s" if "k < length jobs" "k \<noteq> i" for k
  proof -
    have "job_view s0 (jobs ! k) s = job_view s0 (jobs ! k) (ss_sender g)"
      by (rule job_advance_frame [OF i assms(3)])
        (use assms(1,2) that in \<open>auto simp: send_ok_def independent_def\<close>)
    from job_ok_view [OF this] show ?thesis using assms(1) that(1) by (simp add: send_ok_def)
  qed
  then show ?thesis using assms(1,2) new outside by (simp add: send_ok_def)
qed

lemma send_ok_step: "send_ok s0 jobs g \<Longrightarrow> send_step jobs g g' \<Longrightarrow> send_ok s0 jobs g'"
  by (erule send_step.cases) (auto intro: send_ok_advance)

text \<open>With nothing locked every job that is not done can go on, and then has less to do.\<close>

fun phase_todo :: "send_phase \<Rightarrow> nat" where
  "phase_todo Looking = 6"
| "phase_todo Dropping = 5"
| "phase_todo Locking = 4"
| "phase_todo (Connected c) = 3"
| "phase_todo (HeaderSent c) = 2"
| "phase_todo (Closing e) = 1"
| "phase_todo (Finished r) = 0"

definition sends_todo :: "send_job list \<Rightarrow> senders \<Rightarrow> nat" where
  "sends_todo jobs g = (\<Sum>i<length jobs. phase_todo (ss_phase g i))"

definition sends_done :: "send_job list \<Rightarrow> senders \<Rightarrow> bool" where
  "sends_done jobs g \<longleftrightarrow> (\<forall>i<length jobs. phase_todo (ss_phase g i) = 0)"

lemma phase_todo_0 [simp]: "phase_todo p = 0 \<longleftrightarrow> (\<exists>r. p = Finished r)"
  by (cases p) auto

lemma advance_todo: "phase_todo p \<noteq> 0 \<Longrightarrow> send_advance j p s = (s', p', stuck) \<Longrightarrow> phase_todo p' < phase_todo p"
  by (cases p) (auto simp: send_advance_def split: option.splits if_splits prod.splits conn_result.splits bool.splits)

lemma sends_progress:
  assumes "send_ok s0 jobs g" and "\<not> sends_done jobs g"
  shows "\<exists>g'. send_step jobs g g' \<and> sends_todo jobs g' < sends_todo jobs g"
proof -
  obtain i where i: "i < length jobs" "phase_todo (ss_phase g i) \<noteq> 0" using assms(2) by (auto simp: sends_done_def)
  obtain s p stuck where adv: "send_advance (jobs ! i) (ss_phase g i) (ss_sender g) = (s, p, stuck)"
    by (cases "send_advance (jobs ! i) (ss_phase g i) (ss_sender g)")
  let ?g = "g\<lparr>ss_sender := s, ss_phase := (ss_phase g)(i := p), ss_locked := ss_locked g \<or> stuck\<rparr>"
  have "send_step jobs g ?g"
    by (rule send_turn [OF i(1) _ _ adv]) (use i(2) assms(1) in \<open>simp_all add: send_ok_def\<close>)
  moreover have "sends_todo jobs ?g < sends_todo jobs g"
    unfolding sends_todo_def
    by (rule sum_strict_mono_ex1) (use i advance_todo [OF i(2) adv] in \<open>auto intro: less_imp_le\<close>)
  ultimately show ?thesis by blast
qed

interpretation send_run: can_finish "\<lambda>g. independent s0 jobs \<and> send_init s0 g" "send_step jobs" "send_ok s0 jobs"
    "sends_done jobs" "sends_todo jobs"
  by unfold_locales (use send_ok_init send_ok_step sends_progress in blast)+

section \<open>One job alone\<close>

text \<open>The steps of one job, taken one after the other, are \<open>Send\<close>.\<close>

definition solo :: "send_job \<Rightarrow> send_phase \<times> sender \<Rightarrow> send_phase \<times> sender" where
  "solo j ps = (case send_advance j (fst ps) (snd ps) of (s', p', stuck) \<Rightarrow> (p', s'))"

lemma solo_Finished [simp]: "solo j (Finished r, s) = (Finished r, s)"
  by (simp add: solo_def send_advance_def)

lemma solo_Closing [simp]: "solo j (Closing e, s) = (Finished (SendError e), closeConnection (j_addr j) s)"
  by (simp add: solo_def send_advance_def)

lemma solo_HeaderSent:
  "solo j (solo j (HeaderSent c, s)) =
     (case conn_write c (j_data j) (data_fails (j_env j)) s of
        (False, s') \<Rightarrow> (Finished (SendError DataFailed), closeConnection (j_addr j) s')
      | (True, s') \<Rightarrow> (Finished Sent, s'))"
  by (simp add: solo_def [of j "(HeaderSent c, s)"] send_advance_def split: prod.split bool.split)

lemma solo_Connected:
  "solo j (solo j (solo j (Connected c, s))) =
     (case conn_write c (put_u32 (of_nat (length (j_data j)))) (header_fails (j_env j)) s of
        (False, s2) \<Rightarrow> (Finished (SendError HeaderFailed), closeConnection (j_addr j) s2)
      | (True, s2) \<Rightarrow>
          (case conn_write c (j_data j) (data_fails (j_env j)) s2 of
             (False, s3) \<Rightarrow> (Finished (SendError DataFailed), closeConnection (j_addr j) s3)
           | (True, s3) \<Rightarrow> (Finished Sent, s3)))"
  by (simp add: solo_def [of j "(Connected c, s)"] send_advance_def solo_HeaderSent split: prod.split bool.split)

lemma solo_Locking:
  "solo j (Locking, s) = (case get_locked (j_addr j) (j_env j) s of
     (GotConn c, s') \<Rightarrow> (Connected c, s') | (NoConn, s') \<Rightarrow> (Finished (SendError DialFailed), s')
   | (SelfDeadlock, s') \<Rightarrow> (Finished SendHangs, s'))"
  by (simp add: solo_def send_advance_def split: prod.split conn_result.split)

lemma solo_Looking:
  "\<exists>n\<le>2. (solo j ^^ n) (Looking, s) = (case get_fast (j_addr j) (j_env j) s of
     (Some c, s') \<Rightarrow> (Connected c, s') | (None, s') \<Rightarrow> (Locking, s'))"
proof (cases "map_of (s_conns s) (addr_string (j_addr j)) = None \<or> alive_fast (j_env j)")
  case True
  then show ?thesis by (intro exI [of _ 1]) (auto simp: solo_def send_advance_def get_fast_def split: option.split)
next
  case False
  then show ?thesis by (intro exI [of _ 2]) (auto simp: solo_def send_advance_def get_fast_def numeral_2_eq_2)
qed

lemma solo_Send:
  "\<exists>n. (solo j ^^ n) (Looking, s) = (Finished (fst (send_alone s j)), snd (send_alone s j))"
proof -
  obtain f s1 where fast: "get_fast (j_addr j) (j_env j) s = (f, s1)" by (cases "get_fast (j_addr j) (j_env j) s")
  obtain n where n: "(solo j ^^ n) (Looking, s) = (case f of Some c \<Rightarrow> (Connected c, s1) | None \<Rightarrow> (Locking, s1))"
    using solo_Looking [of j s] fast by auto
  show ?thesis
  proof (cases f)
    case (Some c)
    then have "(solo j ^^ (3 + n)) (Looking, s) = (Finished (fst (send_alone s j)), snd (send_alone s j))"
      using n fast
      by (simp add: funpow_add numeral_3_eq_3 solo_Connected send_alone_def Send_def getConnection_def split: prod.split bool.split)
    then show ?thesis ..
  next
    case None
    then have "(solo j ^^ (4 + n)) (Looking, s) = (Finished (fst (send_alone s j)), snd (send_alone s j))"
      using n fast
      by (simp add: funpow_add eval_nat_numeral solo_Connected solo_Locking send_alone_def Send_def getConnection_def
          split: prod.split bool.split conn_result.split)
    then show ?thesis ..
  qed
qed

lemma solo_steps:
  assumes "send_ok s0 jobs g" and "i < length jobs"
  shows "\<exists>g'. (send_step jobs)\<^sup>*\<^sup>* g g' \<and> ss_sender g' = snd ((solo (jobs ! i) ^^ n) (ss_phase g i, ss_sender g))
     \<and> ss_phase g' = (ss_phase g)(i := fst ((solo (jobs ! i) ^^ n) (ss_phase g i, ss_sender g)))"
proof (induction n)
  case 0
  show ?case by (intro exI [of _ g]) simp
next
  case (Suc n)
  then obtain g' where g': "(send_step jobs)\<^sup>*\<^sup>* g g'"
    "ss_sender g' = snd ((solo (jobs ! i) ^^ n) (ss_phase g i, ss_sender g))"
    "ss_phase g' = (ss_phase g)(i := fst ((solo (jobs ! i) ^^ n) (ss_phase g i, ss_sender g)))" by blast
  have ok: "send_ok s0 jobs g'" by (rule send_run.steps_inv [OF g'(1) assms(1)])
  have at: "(solo (jobs ! i) ^^ n) (ss_phase g i, ss_sender g) = (ss_phase g' i, ss_sender g')" using g'(2,3) by simp
  obtain s p stuck where adv: "send_advance (jobs ! i) (ss_phase g' i) (ss_sender g') = (s, p, stuck)"
    by (cases "send_advance (jobs ! i) (ss_phase g' i) (ss_sender g')")
  then have next_solo: "(solo (jobs ! i) ^^ Suc n) (ss_phase g i, ss_sender g) = (p, s)" using at by (simp add: solo_def)
  show ?case
  proof (cases "\<exists>r. ss_phase g' i = Finished r")
    case True
    then have "(p, s) = (ss_phase g' i, ss_sender g')" using adv by (auto simp: send_advance_def)
    then show ?thesis using g' next_solo by (intro exI [of _ g']) auto
  next
    case False
    let ?g = "g'\<lparr>ss_sender := s, ss_phase := (ss_phase g')(i := p), ss_locked := ss_locked g' \<or> stuck\<rparr>"
    have "send_step jobs g' ?g"
      by (rule send_turn [OF assms(2) _ _ adv]) (use False ok in \<open>simp_all add: send_ok_def\<close>)
    with g'(1) have "(send_step jobs)\<^sup>*\<^sup>* g ?g" by (rule rtranclp.rtrancl_into_rtrancl)
    then show ?thesis using next_solo g'(3) by (intro exI [of _ ?g]) simp
  qed
qed

section \<open>One job after the other\<close>

definition send_args :: "send_job \<Rightarrow> net_addr \<times> byte list \<times> net_env" where
  "send_args j = (j_addr j, j_data j, j_env j)"

lemma sends_snoc:
  "sends (xs @ [send_args j]) s = (fst (sends xs s) @ [fst (send_alone (snd (sends xs s)) j)], snd (send_alone (snd (sends xs s)) j))"
  by (induction xs s rule: sends.induct) (auto simp: send_args_def send_alone_def split: prod.splits)

lemma length_sends [simp]: "length (fst (sends xs s)) = length xs"
  by (induction xs s rule: sends.induct) (auto split: prod.splits)

text \<open>Among the interleavings is the one that finishes each job before the next one starts.\<close>

lemma sequential_run:
  assumes "independent s0 jobs" and "send_init s0 g0" and "m \<le> length jobs"
  shows "\<exists>g. (send_step jobs)\<^sup>*\<^sup>* g0 g \<and> ss_sender g = snd (sends (map send_args (take m jobs)) s0)
     \<and> (\<forall>i. ss_phase g i = (if i < m then Finished (fst (sends (map send_args (take m jobs)) s0) ! i) else Looking))"
  using assms(3)
proof (induction m)
  case 0
  show ?case by (intro exI [of _ g0]) (use assms(2) in \<open>simp add: send_init_def\<close>)
next
  case (Suc m)
  let ?xs = "map send_args (take m jobs)"
  from Suc obtain g where g: "(send_step jobs)\<^sup>*\<^sup>* g0 g" "ss_sender g = snd (sends ?xs s0)"
    "\<forall>i. ss_phase g i = (if i < m then Finished (fst (sends ?xs s0) ! i) else Looking)" by auto
  have ok: "send_ok s0 jobs g" by (rule send_run.steps_inv [OF g(1) send_ok_init [OF assms(1,2)]])
  obtain n where n: "(solo (jobs ! m) ^^ n) (ss_phase g m, ss_sender g)
      = (Finished (fst (send_alone (ss_sender g) (jobs ! m))), snd (send_alone (ss_sender g) (jobs ! m)))"
    using solo_Send [of "jobs ! m" "ss_sender g"] g(3) by auto
  obtain g' where g': "(send_step jobs)\<^sup>*\<^sup>* g g'" "ss_sender g' = snd (send_alone (ss_sender g) (jobs ! m))"
    "ss_phase g' = (ss_phase g)(m := Finished (fst (send_alone (ss_sender g) (jobs ! m))))"
    using solo_steps [OF ok, of m n] Suc.prems n by auto
  have xs: "map send_args (take (Suc m) jobs) = ?xs @ [send_args (jobs ! m)]"
    using Suc.prems by (simp add: take_Suc_conv_app_nth)
  show ?case
    by (intro exI [of _ g'] conjI)
      (use g g' Suc.prems in \<open>auto simp: xs sends_snoc nth_append less_Suc_eq intro: rtranclp_trans\<close>)
qed

text \<open>Two ends of the same jobs agree.\<close>

lemma sends_ends_agree:
  assumes "send_ok s0 jobs g" and "sends_done jobs g" and "send_ok s0 jobs g'" and "sends_done jobs g'"
  shows "\<forall>i<length jobs. ss_phase g i = ss_phase g' i"
    and "map_of (s_conns (ss_sender g)) = map_of (s_conns (ss_sender g'))"
    and "s_wire (ss_sender g) = s_wire (ss_sender g')"
proof -
  have fin: "ss_phase h i = Finished (fst (send_alone s0 (jobs ! i)))
      \<and> job_view s0 (jobs ! i) (ss_sender h) = job_view s0 (jobs ! i) (snd (send_alone s0 (jobs ! i)))"
    if "send_ok s0 jobs h" "sends_done jobs h" "i < length jobs" for h i
    using that by (fastforce simp: send_ok_def sends_done_def job_ok_def)
  have view: "job_view s0 (jobs ! i) (ss_sender g) = job_view s0 (jobs ! i) (ss_sender g')" if "i < length jobs" for i
    using fin [OF assms(1,2) that] fin [OF assms(3,4) that] by simp
  show "\<forall>i<length jobs. ss_phase g i = ss_phase g' i" using fin [OF assms(1,2)] fin [OF assms(3,4)] by simp
  show "map_of (s_conns (ss_sender g)) = map_of (s_conns (ss_sender g'))"
  proof
    fix x
    show "map_of (s_conns (ss_sender g)) x = map_of (s_conns (ss_sender g')) x"
      using view assms(1,3) by (cases "\<exists>i<length jobs. x = addr_string (j_addr (jobs ! i))") (auto simp: views send_ok_def)
  qed
  show "s_wire (ss_sender g) = s_wire (ss_sender g')"
  proof
    fix c
    show "s_wire (ss_sender g) c = s_wire (ss_sender g') c"
      using view assms(1,3) by (cases "\<exists>i<length jobs. c \<in> own_conns s0 (jobs ! i)") (auto simp: views send_ok_def)
  qed
qed

lemma concurrent_sends_end:
  assumes "independent s0 jobs" and "send_init s0 g0" and "(send_step jobs)\<^sup>*\<^sup>* g0 g" and fin: "sends_done jobs g"
  shows "map (ss_phase g) [0..<length jobs] = map Finished (fst (sends (map send_args jobs) s0))
    \<and> map_of (s_conns (ss_sender g)) = map_of (s_conns (snd (sends (map send_args jobs) s0)))
    \<and> s_wire (ss_sender g) = s_wire (snd (sends (map send_args jobs) s0))"
proof (intro conjI)
  have ok: "send_ok s0 jobs g" by (rule send_run.steps_inv [OF assms(3) send_ok_init [OF assms(1,2)]])
  obtain g1 where g1: "(send_step jobs)\<^sup>*\<^sup>* g0 g1" "ss_sender g1 = snd (sends (map send_args jobs) s0)"
    "\<forall>i<length jobs. ss_phase g1 i = Finished (fst (sends (map send_args jobs) s0) ! i)"
    using sequential_run [OF assms(1,2) le_refl] by auto
  have ok1: "send_ok s0 jobs g1" by (rule send_run.steps_inv [OF g1(1) send_ok_init [OF assms(1,2)]])
  have fin1: "sends_done jobs g1" using g1(3) by (simp add: sends_done_def)
  note agree = sends_ends_agree [OF ok fin ok1 fin1]
  show "map (ss_phase g) [0..<length jobs] = map Finished (fst (sends (map send_args jobs) s0))"
    by (rule nth_equalityI) (use agree(1) g1(3) in \<open>simp_all\<close>)
  show "map_of (s_conns (ss_sender g)) = map_of (s_conns (snd (sends (map send_args jobs) s0)))"
    and "s_wire (ss_sender g) = s_wire (snd (sends (map send_args jobs) s0))"
    using agree(2,3) g1(2) by simp_all
qed

lemma concurrent_sends_finish:
  assumes "independent s0 jobs" and "send_init s0 g0" and "(send_step jobs)\<^sup>*\<^sup>* g0 g"
  shows "\<exists>g'. (send_step jobs)\<^sup>*\<^sup>* g g' \<and> sends_done jobs g'"
  by (rule send_run.inv_finishes [OF send_run.steps_inv [OF assms(3) send_ok_init [OF assms(1,2)]]])

text \<open>
  C28. Concurrent calls of Send to different addresses over different connections: however
  their steps interleave they can always all end, and then every call has the result,
  every address the connection and every connection the bytes that the same calls give one
  after the other.
\<close>

theorem concurrent_sends_serializable:
  assumes "independent s0 jobs" and "send_init s0 g0" and "(send_step jobs)\<^sup>*\<^sup>* g0 g"
  shows "(\<exists>g'. (send_step jobs)\<^sup>*\<^sup>* g g' \<and> sends_done jobs g')
    \<and> (sends_done jobs g \<longrightarrow>
        map (ss_phase g) [0..<length jobs] = map Finished (fst (sends (map send_args jobs) s0))
      \<and> map_of (s_conns (ss_sender g)) = map_of (s_conns (snd (sends (map send_args jobs) s0)))
      \<and> s_wire (ss_sender g) = s_wire (snd (sends (map send_args jobs) s0)))"
  using concurrent_sends_finish [OF assms] concurrent_sends_end [OF assms] by simp

section \<open>Sends to the same address\<close>

text \<open>A schedule: which job goes on next, if it can.\<close>

definition can_turn :: "send_job list \<Rightarrow> nat \<Rightarrow> senders \<Rightarrow> bool" where
  "can_turn jobs i g \<longleftrightarrow> i < length jobs \<and> phase_todo (ss_phase g i) > 0 \<and> (needs_lock (ss_phase g i) \<longrightarrow> \<not> ss_locked g)"

definition take_turn :: "send_job list \<Rightarrow> nat \<Rightarrow> senders \<Rightarrow> senders" where
  "take_turn jobs i g =
     (if can_turn jobs i g
      then case send_advance (jobs ! i) (ss_phase g i) (ss_sender g) of (s, p, stuck) \<Rightarrow>
        g\<lparr>ss_sender := s, ss_phase := (ss_phase g)(i := p), ss_locked := ss_locked g \<or> stuck\<rparr>
      else g)"

fun take_turns :: "send_job list \<Rightarrow> nat list \<Rightarrow> senders \<Rightarrow> senders" where
  "take_turns jobs [] g = g"
| "take_turns jobs (i # is) g = take_turns jobs is (take_turn jobs i g)"

lemma take_turn_steps: "(send_step jobs)\<^sup>*\<^sup>* g (take_turn jobs i g)"
proof (cases "can_turn jobs i g")
  case True
  obtain s p stuck where adv: "send_advance (jobs ! i) (ss_phase g i) (ss_sender g) = (s, p, stuck)"
    by (cases "send_advance (jobs ! i) (ss_phase g i) (ss_sender g)")
  have "send_step jobs g (g\<lparr>ss_sender := s, ss_phase := (ss_phase g)(i := p), ss_locked := ss_locked g \<or> stuck\<rparr>)"
    by (rule send_turn [OF _ _ _ adv]) (use True in \<open>auto simp: can_turn_def\<close>)
  then show ?thesis using True adv by (simp add: take_turn_def r_into_rtranclp)
qed (simp add: take_turn_def)

lemma take_turns_steps: "(send_step jobs)\<^sup>*\<^sup>* g (take_turns jobs is g)"
  by (induction "is" arbitrary: g) (auto intro: rtranclp_trans take_turn_steps)

text \<open>
  C32. Two concurrent calls of Send to one address, over the live connection in the map
  and without any error, can both return without error although the first message the
  receiver handles is the header of the second followed by the beginning of the data of
  the first.
\<close>

theorem concurrent_sends_can_mix:
  assumes "send_init s g0" and "jobs = [j, k]"
    and "addr_string (j_addr k) = addr_string (j_addr j)" and "map_of (s_conns s) (addr_string (j_addr j)) = Some c"
    and "alive_fast (j_env j) \<and> alive_fast (j_env k)"
    and "header_fails (j_env j) = None \<and> data_fails (j_env j) = None"
    and "header_fails (j_env k) = None \<and> data_fails (j_env k) = None"
    and "s_wire s c = []" and "4 \<le> length (j_data j)" and "length (j_data j) \<le> MaxMessageSize"
  shows "\<exists>g. (send_step jobs)\<^sup>*\<^sup>* g0 g \<and> ss_phase g 0 = Finished Sent \<and> ss_phase g 1 = Finished Sent
     \<and> conn_turn (clean_conn (s_wire (ss_sender g) c))
       = Deliver (put_u32 (of_nat (length (j_data k))) @ take (length (j_data j) - 4) (j_data j))
           (clean_conn (drop (length (j_data j) - 4) (j_data j) @ j_data k))"
proof -
  let ?g = "take_turns jobs [0, 1, 0, 1, 0, 1] g0"
  have "ss_phase ?g 0 = Finished Sent \<and> ss_phase ?g 1 = Finished Sent
    \<and> s_wire (ss_sender ?g) c = s_wire (interleaved_writes c (j_data j) (j_data k) s) c"
    using assms(1-7)
    by (simp add: send_init_def take_turn_def can_turn_def send_advance_def conn_write_def interleaved_writes_def)
  then have "ss_phase ?g 0 = Finished Sent \<and> ss_phase ?g 1 = Finished Sent
     \<and> conn_turn (clean_conn (s_wire (ss_sender ?g) c))
       = Deliver (put_u32 (of_nat (length (j_data k))) @ take (length (j_data j) - 4) (j_data j))
           (clean_conn (drop (length (j_data j) - 4) (j_data j) @ j_data k))"
    using concurrent_sends_mix_messages [OF assms(8-10), of "j_data k"] by simp
  with take_turns_steps show ?thesis by blast
qed

text \<open>Once the lock is held for ever no job that needs it goes on.\<close>

lemma locked_step:
  assumes "send_step jobs g g'" and "ss_locked g"
  shows "ss_locked g' \<and> (needs_lock (ss_phase g m) \<longrightarrow> ss_phase g' m = ss_phase g m)"
  using assms by (cases rule: send_step.cases) auto

lemma locked_steps:
  assumes "(send_step jobs)\<^sup>*\<^sup>* g g'" and "ss_locked g"
  shows "ss_locked g' \<and> (needs_lock (ss_phase g m) \<longrightarrow> ss_phase g' m = ss_phase g m)"
  using assms by (induction rule: rtranclp_induct) (use locked_step in \<open>force+\<close>)

text \<open>
  C33. When two concurrent calls of Send to one address without a connection both miss it
  in the map and SetWriteDeadline fails on the connection that the first dials when the
  second looks again, the second waits for itself with connsMux held, and no other call
  through this sender, to whatever address, ever gets past looking its connection up.
\<close>

theorem concurrent_sends_can_deadlock:
  assumes "send_init s g0" and "i < length jobs" and "k < length jobs" and "i \<noteq> k"
    and "addr_string (j_addr (jobs ! k)) = addr_string (j_addr (jobs ! i))"
    and "map_of (s_conns s) (addr_string (j_addr (jobs ! i))) = None"
    and "dialed (j_env (jobs ! i)) = Some c" and "\<not> alive_locked (j_env (jobs ! k))"
  shows "\<exists>g. (send_step jobs)\<^sup>*\<^sup>* g0 g \<and> ss_phase g k = Finished SendHangs
     \<and> (\<forall>g'. (send_step jobs)\<^sup>*\<^sup>* g g' \<longrightarrow> (\<forall>m. m \<noteq> i \<and> m \<noteq> k \<longrightarrow> ss_phase g' m = Looking))"
proof -
  let ?g = "take_turns jobs [k, i, i, k] g0"
  have g: "ss_phase ?g k = Finished SendHangs" "ss_locked ?g" "\<forall>m. m \<noteq> i \<and> m \<noteq> k \<longrightarrow> ss_phase ?g m = Looking"
    using assms by (simp_all add: send_init_def take_turn_def can_turn_def send_advance_def get_locked_def update_conv)
  have "ss_phase g' m = Looking" if "(send_step jobs)\<^sup>*\<^sup>* ?g g'" "m \<noteq> i" "m \<noteq> k" for g' m
    using locked_steps [OF that(1) g(2), of m] g(3) that(2,3) by simp
  then show ?thesis using g(1) take_turns_steps by blast
qed

section \<open>Broadcast\<close>

text \<open>
  The goroutines of a \<open>Broadcast\<close> as jobs, one for each address.
\<close>

definition broadcast_job :: "byte list \<Rightarrow> net_addr \<times> net_env \<Rightarrow> send_job" where
  "broadcast_job data ae = \<lparr>j_addr = fst ae, j_data = data, j_env = snd ae\<rparr>"

lemma send_args_broadcast: "map send_args (map (broadcast_job data) aes) = map (\<lambda>(a, env). (a, data, env)) aes"
  by (simp add: send_args_def broadcast_job_def split_def)

text \<open>
  C29. Broadcast to different addresses, with its goroutines interleaved step by step in
  any way, ends with the connections and bytes of the sends one after the other and
  reports exactly the errors of its goroutines.
\<close>

theorem concurrent_broadcast:
  assumes "mset (map fst aes) = mset addresses" and "independent s (map (broadcast_job data) aes)"
    and "send_init s g0" and "(send_step (map (broadcast_job data) aes))\<^sup>*\<^sup>* g0 g"
    and "sends_done (map (broadcast_job data) aes) g"
  shows "\<exists>results s'. map (ss_phase g) [0..<length aes] = map Finished results
     \<and> Broadcast addresses data aes s
         = Some (if send_errors results = [] then None else Some (send_errors results), s')
     \<and> map_of (s_conns (ss_sender g)) = map_of (s_conns s') \<and> s_wire (ss_sender g) = s_wire s'"
proof -
  obtain results s' where run: "sends (map (\<lambda>(a, env). (a, data, env)) aes) s = (results, s')"
    and errs: "Broadcast addresses data aes s
         = Some (if send_errors results = [] then None else Some (send_errors results), s')"
    using Broadcast_is_sends [OF assms(1)] by blast
  show ?thesis
    using concurrent_sends_end [OF assms(2-5)] run errs
    by (intro exI [of _ results] exI [of _ s']) (simp add: send_args_broadcast del: map_map)
qed

section \<open>Witnesses\<close>

definition job_to :: "nat \<Rightarrow> byte list \<Rightarrow> net_env \<Rightarrow> send_job" where
  "job_to p data env = \<lparr>j_addr = resolve_tcp (of_nat p), j_data = data, j_env = env\<rparr>"

definition two_addresses :: "send_job list" where
  "two_addresses = [job_to 1 [7] (good_env 4), job_to 2 [8] ((good_env 5)\<lparr>data_fails := Some 0\<rparr>)]"

definition start_of :: "sender \<Rightarrow> senders" where
  "start_of s = \<lparr>ss_sender = s, ss_locked = False, ss_phase = (\<lambda>_. Looking)\<rparr>"

lemma send_init_start [simp]: "send_init s (start_of s)"
  by (simp add: send_init_def start_of_def)

lemma job_to_simps [simp]:
  "j_addr (job_to p d e) = resolve_tcp (of_nat p)" "j_data (job_to p d e) = d" "j_env (job_to p d e) = e"
  by (simp_all add: job_to_def)

lemma independent_pair:
  "independent s [j, k] \<longleftrightarrow> addr_string (j_addr j) \<noteq> addr_string (j_addr k) \<and> own_conns s j \<inter> own_conns s k = {}"
  by (auto simp: independent_def less_Suc_eq numeral_2_eq_2)

lemma different_addresses: "addr_string (resolve_tcp 1) \<noteq> addr_string (resolve_tcp 2)"
  by (simp add: addr_string_def resolve_tcp_def dec_digits.simps)

lemma own_conns_new: "own_conns NewSender j = set_option (dialed (j_env j))"
  by (simp add: own_conns_def NewSender_def)

lemma independent_two: "independent NewSender two_addresses"
  by (simp add: two_addresses_def independent_pair different_addresses own_conns_new good_env_def)

lemma put_u32_1: "put_u32 1 = [0, 0, 0, 1]"
proof -
  have "(4 :: nat) = Suc (Suc (Suc (Suc 0)))" by simp
  then show ?thesis by (simp only: put_u32_def be_bytes.simps) simp
qed

lemma sends_two:
  "fst (sends (map send_args two_addresses) NewSender) = [Sent, SendError DataFailed]"
  "s_wire (snd (sends (map send_args two_addresses) NewSender)) 4 = frame [7]"
  by (simp_all add: two_addresses_def send_args_def send_eval frame_def addr_string_def resolve_tcp_def dec_digits.simps)

theorem concurrent_sends_serializable_witness:
  "\<exists>g. (send_step two_addresses)\<^sup>*\<^sup>* (start_of NewSender) g
     \<and> map (ss_phase g) [0..<2] = [Finished Sent, Finished (SendError DataFailed)] \<and> s_wire (ss_sender g) 4 = frame [7]"
proof -
  note ser = concurrent_sends_serializable [OF independent_two send_init_start]
  obtain g where g: "(send_step two_addresses)\<^sup>*\<^sup>* (start_of NewSender) g" "sends_done two_addresses g"
    using ser [OF rtranclp.rtrancl_refl] by blast
  have "length two_addresses = 2" by (simp add: two_addresses_def)
  then show ?thesis using ser [OF g(1)] g by (intro exI [of _ g]) (simp add: sends_two)
qed

theorem concurrent_sends_can_mix_witness:
  "\<exists>g. (send_step [job_to 1 [1, 2, 3, 4, 5] (good_env 4), job_to 1 [6] (good_env 4)])\<^sup>*\<^sup>*
        (start_of (NewSender\<lparr>s_conns := [(addr_string (resolve_tcp 1), 4)]\<rparr>)) g
     \<and> ss_phase g 0 = Finished Sent \<and> ss_phase g 1 = Finished Sent
     \<and> conn_turn (clean_conn (s_wire (ss_sender g) 4)) = Deliver [0, 0, 0, 1, 1] (clean_conn [2, 3, 4, 5, 6])"
proof -
  have "length [6 :: byte] = 1" by simp
  then show ?thesis
    using concurrent_sends_can_mix [OF send_init_start [of "NewSender\<lparr>s_conns := [(addr_string (resolve_tcp 1), 4)]\<rparr>"] refl,
        of "job_to 1 [6] (good_env 4)" "job_to 1 [1, 2, 3, 4, 5] (good_env 4)" 4]
    by (simp add: good_env_def NewSender_def MaxMessageSize_def put_u32_1)
qed

theorem concurrent_sends_can_deadlock_witness:
  "\<exists>g. (send_step [job_to 1 [1] (good_env 4), job_to 1 [2] ((good_env 5)\<lparr>alive_locked := False\<rparr>), job_to 2 [3] (good_env 6)])\<^sup>*\<^sup>*
        (start_of NewSender) g
     \<and> ss_phase g 1 = Finished SendHangs \<and> ss_phase g 2 = Looking"
proof -
  let ?jobs = "[job_to 1 [1] (good_env 4), job_to 1 [2] ((good_env 5)\<lparr>alive_locked := False\<rparr>), job_to 2 [3] (good_env 6)]"
  obtain g where g: "(send_step ?jobs)\<^sup>*\<^sup>* (start_of NewSender) g" "ss_phase g 1 = Finished SendHangs"
    "\<forall>g'. (send_step ?jobs)\<^sup>*\<^sup>* g g' \<longrightarrow> (\<forall>m. m \<noteq> 0 \<and> m \<noteq> 1 \<longrightarrow> ss_phase g' m = Looking)"
    using concurrent_sends_can_deadlock [OF send_init_start, of 0 ?jobs 1 NewSender 4]
    by (auto simp: NewSender_def good_env_def)
  from g(3) [rule_format, of g 2] have "ss_phase g 2 = Looking" by simp
  then show ?thesis using g(1,2) by blast
qed

definition two_of_broadcast :: "(net_addr \<times> net_env) list" where
  "two_of_broadcast = [(resolve_tcp 2, (good_env 5)\<lparr>data_fails := Some 0\<rparr>), (resolve_tcp 1, good_env 4)]"

theorem concurrent_broadcast_witness:
  "\<exists>g s'. (send_step (map (broadcast_job [7]) two_of_broadcast))\<^sup>*\<^sup>* (start_of NewSender) g
     \<and> Broadcast [resolve_tcp 1, resolve_tcp 2] [7] two_of_broadcast NewSender = Some (Some [DataFailed], s')
     \<and> s_wire (ss_sender g) = s_wire s'"
proof -
  let ?jobs = "map (broadcast_job [7]) two_of_broadcast"
  have ind: "independent NewSender ?jobs"
    using different_addresses
    by (simp add: two_of_broadcast_def broadcast_job_def independent_pair own_conns_new good_env_def eq_commute)
  obtain g where g: "(send_step ?jobs)\<^sup>*\<^sup>* (start_of NewSender) g" "sends_done ?jobs g"
    using concurrent_sends_finish [OF ind send_init_start rtranclp.rtrancl_refl] by blast
  have "mset (map fst two_of_broadcast) = mset [resolve_tcp 1, resolve_tcp 2]" by (simp add: two_of_broadcast_def)
  from concurrent_broadcast [OF this ind send_init_start g] obtain results s' where
    r: "Broadcast [resolve_tcp 1, resolve_tcp 2] [7] two_of_broadcast NewSender
         = Some (if send_errors results = [] then None else Some (send_errors results), s')"
       "s_wire (ss_sender g) = s_wire s'" by blast
  have "fst (the (Broadcast [resolve_tcp 1, resolve_tcp 2] [7] two_of_broadcast NewSender)) = Some [DataFailed]"
    by (simp add: two_of_broadcast_def Broadcast_def broadcast_send_is_Send send_eval addr_string_def resolve_tcp_def
        dec_digits.simps make_chan_def chan_send_def)
  then show ?thesis using g(1) r by auto
qed

end
