(* ===== verification/Go_Json_Grammar.thy ===== *)
theory Go_Json_Grammar
  imports Go_Json
begin

text \<open>
  The grammar of JSON texts, and that the parser accepts exactly its texts: nothing the
  program takes from the network is anything else.  As in encoding/json a string may hold any
  bytes from 32 on, valid UTF-8 or not.
\<close>

section \<open>The grammar\<close>

definition is_ws :: "byte list \<Rightarrow> bool" where
  "is_ws w \<longleftrightarrow> list_all is_space w"

text \<open>What stands between the quotes of a string.\<close>

inductive string_text :: "byte list \<Rightarrow> bool" where
  st_end: "string_text []"
| st_plain: "c \<noteq> 34 \<Longrightarrow> c \<noteq> 92 \<Longrightarrow> \<not> c < 32 \<Longrightarrow> string_text s \<Longrightarrow> string_text (c # s)"
| st_escape: "e \<in> {34, 92, 47, 98, 102, 110, 114, 116} \<Longrightarrow> string_text s \<Longrightarrow> string_text (92 # e # s)"
| st_unicode: "length h = 4 \<Longrightarrow> list_all is_hex h \<Longrightarrow> string_text s \<Longrightarrow> string_text (92 # 117 # h @ s)"

definition digits_text :: "byte list \<Rightarrow> bool" where
  "digits_text ds \<longleftrightarrow> ds \<noteq> [] \<and> list_all is_digit ds"

definition sign_text :: "byte list \<Rightarrow> bool" where
  "sign_text s \<longleftrightarrow> s = [] \<or> s = [45]"

definition int_text :: "byte list \<Rightarrow> bool" where
  "int_text s \<longleftrightarrow> s = [48] \<or> digits_text s \<and> hd s \<noteq> 48"

definition frac_text :: "byte list \<Rightarrow> bool" where
  "frac_text s \<longleftrightarrow> s = [] \<or> (\<exists>ds. s = 46 # ds \<and> digits_text ds)"

definition exp_text :: "byte list \<Rightarrow> bool" where
  "exp_text s \<longleftrightarrow> s = [] \<or> (\<exists>e sg ds. s = e # sg @ ds \<and> e \<in> {101, 69} \<and> sg \<in> {[], [43], [45]} \<and> digits_text ds)"

definition number_text :: "byte list \<Rightarrow> bool" where
  "number_text s \<longleftrightarrow> (\<exists>sg ip fp ep. s = sg @ ip @ fp @ ep \<and> sign_text sg \<and> int_text ip \<and> frac_text fp \<and> exp_text ep)"

text \<open>Values nested no deeper than \<open>d\<close>, with white space between the parts.\<close>

inductive value_text :: "nat \<Rightarrow> byte list \<Rightarrow> json \<Rightarrow> bool"
and elems_text :: "nat \<Rightarrow> byte list \<Rightarrow> json list \<Rightarrow> bool"
and members_text :: "nat \<Rightarrow> byte list \<Rightarrow> (byte list \<times> json) list \<Rightarrow> bool" where
  vt_null: "value_text d (str ''null'') JNull"
| vt_true: "value_text d (str ''true'') (JBool True)"
| vt_false: "value_text d (str ''false'') (JBool False)"
| vt_number: "number_text s \<Longrightarrow> value_text d s (JNum s)"
| vt_string: "string_text s \<Longrightarrow> value_text d (34 # s @ [34]) (JStr s)"
| vt_empty_array: "is_ws w \<Longrightarrow> value_text (Suc d) (91 # w @ [93]) (JArr [])"
| vt_array: "elems_text d s js \<Longrightarrow> value_text (Suc d) (91 # s @ [93]) (JArr js)"
| vt_empty_object: "is_ws w \<Longrightarrow> value_text (Suc d) (123 # w @ [125]) (JObj [])"
| vt_object: "members_text d s ms \<Longrightarrow> value_text (Suc d) (123 # s @ [125]) (JObj ms)"
| et_last: "is_ws w1 \<Longrightarrow> value_text d s j \<Longrightarrow> is_ws w2 \<Longrightarrow> elems_text d (w1 @ s @ w2) [j]"
| et_more: "is_ws w1 \<Longrightarrow> value_text d s j \<Longrightarrow> is_ws w2 \<Longrightarrow> elems_text d t js
    \<Longrightarrow> elems_text d (w1 @ s @ w2 @ 44 # t) (j # js)"
| mt_last: "is_ws w1 \<Longrightarrow> string_text k \<Longrightarrow> is_ws w2 \<Longrightarrow> is_ws w3 \<Longrightarrow> value_text d s j \<Longrightarrow> is_ws w4
    \<Longrightarrow> members_text d (w1 @ 34 # k @ 34 # w2 @ 58 # w3 @ s @ w4) [(k, j)]"
| mt_more: "is_ws w1 \<Longrightarrow> string_text k \<Longrightarrow> is_ws w2 \<Longrightarrow> is_ws w3 \<Longrightarrow> value_text d s j \<Longrightarrow> is_ws w4 \<Longrightarrow> members_text d t ms
    \<Longrightarrow> members_text d (w1 @ 34 # k @ 34 # w2 @ 58 # w3 @ s @ w4 @ 44 # t) ((k, j) # ms)"

definition json_text :: "byte list \<Rightarrow> json \<Rightarrow> bool" where
  "json_text s j \<longleftrightarrow> (\<exists>w1 t w2. s = w1 @ t @ w2 \<and> is_ws w1 \<and> is_ws w2 \<and> value_text max_depth t j)"

section \<open>The parser accepts only texts of the grammar\<close>

lemma skip_ws_split: "\<exists>w. s = w @ skip_ws s \<and> is_ws w"
  by (intro exI [of _ "takeWhile is_space s"]) (auto simp: skip_ws_def is_ws_def list_all_iff dest: set_takeWhileD)

lemma expect_split: "expect c s = Some r \<Longrightarrow> \<exists>w. s = w @ c # r \<and> is_ws w"
  using skip_ws_split [of s] by (auto simp: expect_def split: list.splits if_splits)

lemma hex_plain: "is_hex c \<Longrightarrow> c \<noteq> 34 \<and> c \<noteq> 92 \<and> \<not> c < 32"
  by (auto simp: is_hex_def from_hex_char_def is_digit_def word_less_nat_alt word_le_nat_alt split: if_splits)

lemma p_string_hex: "list_all is_hex h \<Longrightarrow> p_string (h @ s) = map_option (\<lambda>(raw, r). (h @ raw, r)) (p_string s)"
  by (induction h) (auto dest!: hex_plain simp: option.map_comp comp_def split_def option.map_ident)

lemma string_text_hex: "list_all is_hex h \<Longrightarrow> string_text (h @ s) \<Longrightarrow> string_text s"
proof (induction h)
  case (Cons c h)
  then show ?case using hex_plain [of c] by (auto elim: string_text.cases)
qed simp

lemma p_string_split: "p_string s = Some (raw, r) \<Longrightarrow> s = raw @ 34 # r \<and> string_text raw"
proof (induction s arbitrary: raw r rule: p_string.induct)
  case (2 c s)
  show ?case
  proof (cases "c = 34 \<or> c \<noteq> 92")
    case True
    then show ?thesis using 2 by (auto split: if_splits intro: string_text.intros)
  next
    case False
    then obtain e s1 raw1 where e: "c = 92" "s = e # s1" "p_string s1 = Some (raw1, r)" "raw = 92 # e # raw1"
      and ok: "e \<in> {34, 92, 47, 98, 102, 110, 114, 116} \<or> e = 117 \<and> length s1 \<ge> 4 \<and> list_all is_hex (take 4 s1)"
      using "2.prems" by (auto split: list.splits if_splits)
    have ih: "s1 = raw1 @ 34 # r \<and> string_text raw1"
    proof (cases "e \<in> {34, 92, 47, 98, 102, 110, 114, 116}")
      case True
      then show ?thesis using "2.IH"(1) [OF _ _ e(2)] e by simp
    next
      case False
      then show ?thesis using "2.IH"(2) [OF _ _ e(2) False] e ok by simp
    qed
    from ok show ?thesis
    proof
      assume "e \<in> {34, 92, 47, 98, 102, 110, 114, 116}"
      then show ?thesis using e ih st_escape by auto
    next
      assume h: "e = 117 \<and> length s1 \<ge> 4 \<and> list_all is_hex (take 4 s1)"
      then have "map_option (\<lambda>(raw, r). (take 4 s1 @ raw, r)) (p_string (drop 4 s1)) = Some (raw1, r)"
        using p_string_hex [of "take 4 s1" "drop 4 s1"] e(3) by simp
      then obtain raw2 where raw1: "raw1 = take 4 s1 @ raw2" by auto
      have hex: "list_all is_hex (take 4 s1)" "length (take 4 s1) = 4" using h by simp_all
      have "string_text (take 4 s1 @ raw2)" using ih unfolding raw1 [symmetric] by simp
      from st_unicode [OF hex(2,1) string_text_hex [OF hex(1) this]] have "string_text (92 # 117 # raw1)"
        unfolding raw1 [symmetric] .
      then show ?thesis using h e ih by simp
    qed
  qed
qed simp

lemma digits_takeWhile: "takeWhile is_digit s \<noteq> [] \<Longrightarrow> digits_text (takeWhile is_digit s)"
  by (auto simp: digits_text_def list_all_iff dest: set_takeWhileD)

lemma p_int_split: "p_int s = Some (ip, r) \<Longrightarrow> s = ip @ r \<and> int_text ip"
  by (cases s) (auto simp: p_int_def int_text_def digits_text_def list_all_iff dest: set_takeWhileD split: if_splits)

lemma p_frac_split: "p_frac s = Some (fp, r) \<Longrightarrow> s = fp @ r \<and> frac_text fp"
  by (cases s) (auto simp: p_frac_def frac_text_def digits_text_def list_all_iff dest: set_takeWhileD split: if_splits)

lemma p_exp_split: "p_exp s = Some (ep, r) \<Longrightarrow> s = ep @ r \<and> exp_text ep"
proof -
  assume p: "p_exp s = Some (ep, r)"
  show ?thesis
  proof (cases "s \<noteq> [] \<and> (hd s = 101 \<or> hd s = 69)")
    case False
    then show ?thesis using p by (auto simp: p_exp_def exp_text_def)
  next
    case True
    then obtain e t where s: "s = e # t" "e \<in> {101, 69}" by (cases s) auto
    let ?sg = "if t \<noteq> [] \<and> (hd t = 43 \<or> hd t = 45) then [hd t] else []"
    have u: "t = ?sg @ drop (length ?sg) t" "?sg \<in> {[], [43], [45]}" by (cases t; auto)+
    have ne: "takeWhile is_digit (drop (length ?sg) t) \<noteq> []" and
      ep: "ep = e # ?sg @ takeWhile is_digit (drop (length ?sg) t)" "r = dropWhile is_digit (drop (length ?sg) t)"
      using p s by (auto simp: p_exp_def Let_def split: if_splits)
    have "e # t = ep @ r" using ep u(1) by (metis append_Cons append_assoc takeWhile_dropWhile_id)
    then show ?thesis using s ep(1) u(2) digits_takeWhile [OF ne] unfolding exp_text_def by blast
  qed
qed

lemma p_number_split: "p_number s = Some (lit, r) \<Longrightarrow> s = lit @ r \<and> number_text lit"
proof -
  assume p: "p_number s = Some (lit, r)"
  obtain sg s1 where sg: "p_sign s = (sg, s1)" by (cases "p_sign s")
  then have s: "s = sg @ s1" "sign_text sg" by (cases s; auto simp: p_sign_def sign_text_def split: if_splits)+
  obtain ip s2 fp s3 ep where *: "p_int s1 = Some (ip, s2)" "p_frac s2 = Some (fp, s3)" "p_exp s3 = Some (ep, r)"
    "lit = sg @ ip @ fp @ ep"
    using p sg by (auto simp: p_number_def split: option.splits)
  then show ?thesis
    using s p_int_split [OF *(1)] p_frac_split [OF *(2)] p_exp_split [OF *(3)] by (auto simp: number_text_def)
qed

lemma p_literal_split: "p_literal w j s = Some (x, r) \<Longrightarrow> s = w @ r \<and> x = j"
  by (auto simp: p_literal_def split: if_splits) (metis append_take_drop_id)

lemma p_sound:
  "p_value f d s = Some (j, r) \<Longrightarrow> \<exists>w t. s = w @ t @ r \<and> is_ws w \<and> value_text d t j"
  "p_elems f d s = Some (js, r) \<Longrightarrow> \<exists>t. s = t @ 93 # r \<and> elems_text d t js"
  "p_members f d s = Some (ms, r) \<Longrightarrow> \<exists>t. s = t @ 125 # r \<and> members_text d t ms"
proof (induction f d s and f d s and f d s arbitrary: j r and js r and ms r
    rule: p_value_p_elems_p_members.induct)
  case (2 f d s)
  obtain c u where ws: "skip_ws s = c # u" using "2.prems" by (cases "skip_ws s") auto
  obtain w where w: "s = w @ c # u" "is_ws w" using skip_ws_split [of s] ws by auto
  have "\<exists>t. c # u = t @ r \<and> value_text d t j"
  proof -
    consider "c = 34" | "c = 123" | "c = 91" | "c = 116" | "c = 102" | "c = 110" | "c \<notin> {34, 123, 91, 116, 102, 110}" by blast
    then show ?thesis
    proof cases
      case 1
      then obtain raw where "p_string u = Some (raw, r)" "j = JStr raw" using "2.prems" ws by auto
      then show ?thesis using p_string_split [of u raw r] 1 vt_string [of raw d] by (intro exI [of _ "34 # raw @ [34]"]) simp
    next
      case 2
      then obtain d' where d: "d = Suc d'" using "2.prems" ws by (cases d) auto
      show ?thesis
      proof (cases "expect 125 u")
        case (Some r')
        then have "r' = r" "j = JObj []" using "2.prems" ws 2 d by auto
        then show ?thesis using expect_split [OF Some] vt_empty_object 2 d by fastforce
      next
        case None
        then obtain ms where "p_members f d' u = Some (ms, r)" "j = JObj ms" using "2.prems" ws 2 d by auto
        then show ?thesis using "2.IH"(1) [OF ws _ 2] None 2 d vt_object by fastforce
      qed
    next
      case 3
      then obtain d' where d: "d = Suc d'" using "2.prems" ws by (cases d) auto
      show ?thesis
      proof (cases "expect 93 u")
        case (Some r')
        then have "r' = r" "j = JArr []" using "2.prems" ws 3 d by auto
        then show ?thesis using expect_split [OF Some] vt_empty_array 3 d by fastforce
      next
        case None
        then obtain js where "p_elems f d' u = Some (js, r)" "j = JArr js" using "2.prems" ws 3 d by auto
        then show ?thesis using "2.IH"(2) [OF ws _ _ 3] None 3 d vt_array by fastforce
      qed
    next
      case 4
      then show ?thesis using "2.prems" ws p_literal_split [of "str ''true''" "JBool True" "c # u" j r] vt_true by auto
    next
      case 5
      then show ?thesis using "2.prems" ws p_literal_split [of "str ''false''" "JBool False" "c # u" j r] vt_false by auto
    next
      case 6
      then show ?thesis using "2.prems" ws p_literal_split [of "str ''null''" JNull "c # u" j r] vt_null by auto
    next
      case 7
      then obtain lit where "p_number (c # u) = Some (lit, r)" "j = JNum lit" using "2.prems" ws by auto
      then show ?thesis using p_number_split [of "c # u" lit r] vt_number by auto
    qed
  qed
  then show ?case using w by auto
next
  case (4 f d s)
  obtain j r1 where v: "p_value f d s = Some (j, r1)" using "4.prems" by (auto split: option.splits)
  obtain w t where t: "s = w @ t @ r1" "is_ws w" "value_text d t j" using "4.IH"(1) [OF v] by blast
  show ?case
  proof (cases "expect 44 r1")
    case (Some r2)
    then obtain js' where js: "p_elems f d r2 = Some (js', r)" "js = j # js'" using "4.prems" v by auto
    obtain t2 where t2: "r2 = t2 @ 93 # r" "elems_text d t2 js'" using "4.IH"(2) [OF v refl Some js(1)] by blast
    obtain w2 where w2: "r1 = w2 @ 44 # r2" "is_ws w2" using expect_split [OF Some] by blast
    show ?thesis using et_more [OF t(2,3) w2(2) t2(2)] t(1) t2(1) w2(1) js(2)
      by (intro exI [of _ "w @ t @ w2 @ 44 # t2"]) simp
  next
    case None
    then have e: "expect 93 r1 = Some r" "js = [j]" using "4.prems" v by auto
    obtain w2 where w2: "r1 = w2 @ 93 # r" "is_ws w2" using expect_split [OF e(1)] by blast
    show ?thesis using et_last [OF t(2,3) w2(2)] t(1) w2(1) e(2) by (intro exI [of _ "w @ t @ w2"]) simp
  qed
next
  case (6 f d s)
  obtain s1 k s2 s3 j r1 where p: "expect 34 s = Some s1" "p_string s1 = Some (k, s2)" "expect 58 s2 = Some s3" "p_value f d s3 = Some (j, r1)"
    using "6.prems" by (auto split: option.splits)
  obtain w1 w2 where w: "s = w1 @ 34 # s1" "is_ws w1" "s2 = w2 @ 58 # s3" "is_ws w2"
    using expect_split [OF p(1)] expect_split [OF p(3)] by blast
  note k = p_string_split [OF p(2)]
  obtain w3 t where t: "s3 = w3 @ t @ r1" "is_ws w3" "value_text d t j" using "6.IH"(1) [OF p(1,2) refl p(3,4)] by blast
  show ?case
  proof (cases "expect 44 r1")
    case (Some r2)
    then obtain ms' where ms: "p_members f d r2 = Some (ms', r)" "ms = (k, j) # ms'" using "6.prems" p by auto
    obtain t2 where t2: "r2 = t2 @ 125 # r" "members_text d t2 ms'" using "6.IH"(2) [OF p(1,2) refl p(3,4) refl Some ms(1)] by blast
    obtain w4 where w4: "r1 = w4 @ 44 # r2" "is_ws w4" using expect_split [OF Some] by blast
    show ?thesis using mt_more [OF w(2) conjunct2 [OF k] w(4) t(2,3) w4(2) t2(2)] w(1,3) conjunct1 [OF k] t(1) t2(1) w4(1) ms(2)
      by (intro exI [of _ "w1 @ 34 # k @ 34 # w2 @ 58 # w3 @ t @ w4 @ 44 # t2"]) simp
  next
    case None
    then have e: "expect 125 r1 = Some r" "ms = [(k, j)]" using "6.prems" p by auto
    obtain w4 where w4: "r1 = w4 @ 125 # r" "is_ws w4" using expect_split [OF e(1)] by blast
    show ?thesis using mt_last [OF w(2) conjunct2 [OF k] w(4) t(2,3) w4(2)] w(1,3) conjunct1 [OF k] t(1) w4(1) e(2)
      by (intro exI [of _ "w1 @ 34 # k @ 34 # w2 @ 58 # w3 @ t @ w4"]) simp
  qed
qed simp_all

section \<open>The parser accepts every text of the grammar\<close>

text \<open>What can stand behind a value.\<close>

definition stops :: "byte list \<Rightarrow> bool" where
  "stops r \<longleftrightarrow> r = [] \<or> is_space (hd r) \<or> hd r \<in> {44, 93, 125}"

lemma skip_ws_append: "is_ws w \<Longrightarrow> skip_ws (w @ s) = skip_ws s"
  by (induction w) (auto simp: is_ws_def skip_ws_def)

lemma expect_append: "is_ws w \<Longrightarrow> expect c (w @ s) = expect c s"
  by (simp add: expect_def skip_ws_append)

lemma stops_here: "is_ws w \<Longrightarrow> c \<in> {44, 93, 125} \<Longrightarrow> stops (w @ c # r)"
  by (cases w) (auto simp: stops_def is_ws_def)

lemma p_string_text: "string_text k \<Longrightarrow> p_string (k @ 34 # r) = Some (k, r)"
proof (induction rule: string_text.induct)
  case (st_unicode h s)
  then have "p_string (h @ s @ 34 # r) = Some (h @ s, r)" by (simp add: p_string_hex)
  then show ?case using st_unicode(1,2) by simp
qed auto

lemma digits_scan:
  assumes "digits_text ds" and "r = [] \<or> \<not> is_digit (hd r)"
  shows "takeWhile is_digit (ds @ r) = ds" and "dropWhile is_digit (ds @ r) = r"
  using assms by (cases r; auto simp: digits_text_def list_all_iff)+

lemma not_digit: "stops r \<Longrightarrow> r = [] \<or> \<not> is_digit (hd r) \<and> hd r \<notin> {46, 101, 69}"
  by (auto simp: stops_def is_space_def is_digit_def)

lemma p_exp_text:
  assumes "exp_text ep" and "stops r"
  shows "p_exp (ep @ r) = Some (ep, r)"
proof (cases "ep = []")
  case True
  then show ?thesis using not_digit [OF assms(2)] by (auto simp: p_exp_def)
next
  case False
  then obtain e sg ds where e: "ep = e # sg @ ds" "e \<in> {101, 69}" "sg \<in> {[], [43], [45]}" "digits_text ds"
    using assms(1) by (auto simp: exp_text_def)
  have d: "takeWhile is_digit (ds @ r) = ds" "dropWhile is_digit (ds @ r) = r" "ds \<noteq> []"
    using digits_scan [OF e(4), of r] not_digit [OF assms(2)] e(4) by (auto simp: digits_text_def)
  have "hd ds \<noteq> 43 \<and> hd ds \<noteq> 45" using e(4) by (cases ds) (auto simp: digits_text_def is_digit_def)
  then show ?thesis using e(1-3) d by (auto simp: p_exp_def Let_def)
qed

lemma exp_first: "exp_text ep \<Longrightarrow> stops r \<Longrightarrow> ep @ r = [] \<or> \<not> is_digit (hd (ep @ r)) \<and> hd (ep @ r) \<noteq> 46"
  using not_digit [of r] by (cases ep) (auto simp: exp_text_def is_digit_def)

lemma p_frac_text:
  assumes "frac_text fp" and "exp_text ep" and "stops r"
  shows "p_frac (fp @ ep @ r) = Some (fp, ep @ r)"
proof (cases "fp = []")
  case True
  then show ?thesis using exp_first [OF assms(2,3)] by (auto simp: p_frac_def)
next
  case False
  then obtain ds where ds: "fp = 46 # ds" "digits_text ds" using assms(1) by (auto simp: frac_text_def)
  then have "takeWhile is_digit (ds @ ep @ r) = ds" "dropWhile is_digit (ds @ ep @ r) = ep @ r" "ds \<noteq> []"
    using digits_scan [OF ds(2), of "ep @ r"] exp_first [OF assms(2,3)] by (auto simp: digits_text_def)
  then show ?thesis using ds(1) by (simp add: p_frac_def)
qed

lemma frac_first: "frac_text fp \<Longrightarrow> exp_text ep \<Longrightarrow> stops r \<Longrightarrow> fp @ ep @ r = [] \<or> \<not> is_digit (hd (fp @ ep @ r))"
  using exp_first [of ep r] by (cases fp) (auto simp: frac_text_def is_digit_def)

lemma int_first: "int_text ip \<Longrightarrow> \<exists>c t. ip = c # t \<and> is_digit c"
  by (cases ip) (auto simp: int_text_def digits_text_def is_digit_def)

lemma p_int_text:
  assumes "int_text ip" and "r = [] \<or> \<not> is_digit (hd r)"
  shows "p_int (ip @ r) = Some (ip, r)"
proof (cases "ip = [48]")
  case True
  then show ?thesis by (simp add: p_int_def)
next
  case False
  then have ip: "digits_text ip" "hd ip \<noteq> 48" using assms(1) by (auto simp: int_text_def)
  then show ?thesis using digits_scan [OF ip(1) assms(2)] by (auto simp: p_int_def digits_text_def)
qed

lemma p_number_text:
  assumes "number_text s" and "stops r"
  shows "p_number (s @ r) = Some (s, r)"
proof -
  obtain sg ip fp ep where s: "s = sg @ ip @ fp @ ep" "sign_text sg" "int_text ip" "frac_text fp" "exp_text ep"
    using assms(1) by (auto simp: number_text_def)
  obtain c t where c: "ip = c # t" "is_digit c" using int_first [OF s(3)] by blast
  then have "p_sign (s @ r) = (sg, ip @ fp @ ep @ r)"
    using s(1,2) by (auto simp: p_sign_def sign_text_def is_digit_def)
  then show ?thesis
    using p_int_text [OF s(3) frac_first [OF s(4,5) assms(2)]] p_frac_text [OF s(4,5) assms(2)] p_exp_text [OF s(5) assms(2)] s(1)
    by (simp add: p_number_def)
qed

lemma number_first: "number_text s \<Longrightarrow> \<exists>c t. s = c # t \<and> (is_digit c \<or> c = 45)"
  using int_first by (fastforce simp: number_text_def sign_text_def)

lemma value_first: "value_text d t j \<Longrightarrow> \<exists>c u. t = c # u \<and> \<not> is_space c \<and> c \<notin> {93, 125, 44}"
proof (erule value_text.cases)
  fix s assume "number_text s" "t = s"
  then obtain c u where "t = c # u" "is_digit c \<or> c = 45" using number_first by blast
  then show ?thesis using digit_not_space [of c] by (auto simp: is_digit_def is_space_def)
qed (auto simp: str_def)

lemma elems_first: "elems_text d s js \<Longrightarrow> expect 93 (s @ r) = None"
  by (erule elems_text.cases) (auto dest!: value_first simp: expect_append expect_other)

lemma members_first: "members_text d s ms \<Longrightarrow> expect 125 (s @ r) = None"
  by (erule members_text.cases) (auto simp: expect_append expect_other)

lemma p_value_start: "is_ws w \<Longrightarrow> p_value f d (w @ s) = p_value f d s"
  by (cases f) (simp_all add: skip_ws_append)

lemma p_complete:
  "value_text d t j \<Longrightarrow> 2 * length t + 1 \<le> f \<Longrightarrow> stops r \<Longrightarrow> p_value f d (t @ r) = Some (j, r)"
  "elems_text d s js \<Longrightarrow> 2 * length s + 2 \<le> f \<Longrightarrow> p_elems f d (s @ 93 # r) = Some (js, r)"
  "members_text d s ms \<Longrightarrow> 2 * length s + 2 \<le> f \<Longrightarrow> p_members f d (s @ 125 # r) = Some (ms, r)"
proof (induction arbitrary: f r and f r and f r rule: value_text_elems_text_members_text.inducts)
  case (vt_number s d)
  then obtain c u where c: "s = c # u" "is_digit c \<or> c = 45" using number_first by blast
  then have "c \<notin> {34, 123, 91, 116, 102, 110}" "\<not> is_space c" using digit_not_space [of c] by (auto simp: is_digit_def is_space_def)
  then show ?case using p_number_text [OF vt_number(1,3)] c(1) vt_number(2) by (cases f) auto
next
  case (vt_string s d)
  then show ?case using p_string_text by (cases f) auto
next
  case (vt_empty_array w d)
  then show ?case by (cases f) (auto simp: expect_append expect_here)
next
  case (vt_array d s js)
  then show ?case using elems_first [OF vt_array(1), of "93 # r"] by (cases f) auto
next
  case (vt_empty_object w d)
  then show ?case by (cases f) (auto simp: expect_append expect_here)
next
  case (vt_object d s ms)
  then show ?case using members_first [OF vt_object(1), of "125 # r"] by (cases f) auto
next
  case (et_last w1 d s j w2)
  then obtain g where f: "f = Suc g" by (cases f) auto
  have "p_value g d (s @ w2 @ 93 # r) = Some (j, w2 @ 93 # r)" using et_last f stops_here [of w2 93 r] by auto
  then show ?case using et_last f by (simp add: p_value_start expect_append expect_simps)
next
  case (et_more w1 d s j w2 t js)
  then obtain g where f: "f = Suc g" by (cases f) auto
  have "p_value g d (s @ w2 @ 44 # t @ 93 # r) = Some (j, w2 @ 44 # t @ 93 # r)" using et_more f stops_here [of w2 44 "t @ 93 # r"] by auto
  moreover have "p_elems g d (t @ 93 # r) = Some (js, r)" using et_more f by auto
  ultimately show ?case using et_more f by (simp add: p_value_start expect_append expect_simps)
next
  case (mt_last w1 k w2 w3 d s j w4)
  then obtain g where f: "f = Suc g" by (cases f) auto
  have "p_value g d (s @ w4 @ 125 # r) = Some (j, w4 @ 125 # r)" using mt_last f stops_here [of w4 125 r] by auto
  then show ?case using mt_last f p_string_text by (simp add: p_value_start expect_append expect_simps)
next
  case (mt_more w1 k w2 w3 d s j w4 t ms)
  then obtain g where f: "f = Suc g" by (cases f) auto
  have "p_value g d (s @ w4 @ 44 # t @ 125 # r) = Some (j, w4 @ 44 # t @ 125 # r)"
    using mt_more f stops_here [of w4 44 "t @ 125 # r"] by auto
  moreover have "p_members g d (t @ 125 # r) = Some (ms, r)" using mt_more f by auto
  ultimately show ?case using mt_more f p_string_text by (simp add: p_value_start expect_append expect_simps)
qed (case_tac [!] f, auto simp: p_literal_def str_def)

text \<open>The parser and the grammar agree, so the grammar gives a text one value.\<close>

lemma parse_json_iff: "parse_json s = Some j \<longleftrightarrow> json_text s j"
proof
  assume "parse_json s = Some j"
  then obtain r where r: "p_value (2 * length s + 2) max_depth s = Some (j, r)" "skip_ws r = []"
    by (auto simp: parse_json_def split: option.splits if_splits)
  then have "is_ws r" using skip_ws_split [of r] by auto
  then show "json_text s j" using p_sound(1) [OF r(1)] unfolding json_text_def by blast
next
  assume "json_text s j"
  then obtain w1 t w2 where s: "s = w1 @ t @ w2" "is_ws w1" "is_ws w2" "value_text max_depth t j" by (auto simp: json_text_def)
  have "stops w2" using s(3) by (cases w2) (auto simp: stops_def is_ws_def)
  then have "p_value (2 * length s + 2) max_depth (t @ w2) = Some (j, w2)" by (intro p_complete(1) s(4)) (simp_all add: s(1))
  then have "p_value (2 * length s + 2) max_depth s = Some (j, w2)" unfolding s(1) by (simp add: p_value_start [OF s(2)])
  moreover have "skip_ws w2 = []" using skip_ws_append [OF s(3), of "[]"] by (simp add: skip_ws_def)
  ultimately show "parse_json s = Some j" by (simp add: parse_json_def)
qed

lemma json_text_unique: "json_text s j \<Longrightarrow> json_text s j' \<Longrightarrow> j = j'"
  by (simp flip: parse_json_iff)

end
