(* ===== verification/Consensus_Messages.thy ===== *)
theory Consensus_Messages
  imports Consensus_Coordinator Go_Json_Grammar
begin

text \<open>
  What becomes of network messages that are JSON but neither a vertex nor a block, by the grammar
  of JSON texts: the handler tries a vertex first and a block second, and a block requires no
  field.
\<close>

lemma find_field_block_none:
  "fold_key (unquote k) \<notin> {str ''height'', str ''transactions'', str ''timestamp''}
    \<Longrightarrow> find_field block_fields k = None"
  by (auto simp: find_field_def block_fields_def Let_def str_def)

lemma dec_block_unknown:
  "\<forall>(k, j)\<in>set ms. fold_key (unquote k) \<notin> {str ''height'', str ''transactions'', str ''timestamp''}
    \<Longrightarrow> fold_option dec_block_member ms b = Some b"
  by (induction ms) (auto simp: dec_block_member_def find_field_block_none)

lemma vertex_field_missing:
  assumes "json_text data j" and "f \<in> {''owner'', ''round'', ''parents''}"
    and "j = JNull \<or> j = JObj ms \<and> str f \<notin> (\<lambda>(k, j). unquote k) ` set ms"
  shows "Vertex_UnmarshalBinary blake now it data v = None"
proof -
  have "\<not> list_all (\<lambda>f. f \<in> set keys) required_fields" if "raw_keys j = Some keys" for keys
    using that assms(2,3) by (auto simp: raw_keys_def required_fields_def split: if_splits)
  then show ?thesis
    using assms(1) by (simp add: Vertex_UnmarshalBinary_def flip: parse_json_iff split: option.split)
qed

text \<open>
  C38. A message that is null or any JSON object that lacks one of the vertex fields
  owner, round and parents and has no block field is rejected by the vertex coordinator,
  but a running consensus coordinator with an empty block channel takes it for a block,
  and the turn that handles it makes the hash of the empty block of height 0 with the zero
  time its last block and changes nothing else of its state.
\<close>

theorem unknown_object_replaces_last_block:
  assumes "json_text data j" and "f \<in> {''owner'', ''round'', ''parents''}"
    and "j = JNull \<or> j = JObj ms \<and> str f \<notin> (\<lambda>(k, j). unquote k) ` set ms
       \<and> (\<forall>(k, j)\<in>set ms. fold_key (unquote k) \<notin> {str ''height'', str ''transactions'', str ''timestamp''})"
    and "\<not> cc_done c" and "ch_values (cc_blockCh c) = []" and "0 < ch_cap (cc_blockCh c)"
  shows "VC_HandleMessage blake now it pick data vc = (Rejected, vc)
     \<and> (\<exists>c'. CC_HandleMessage blake now it data c = (Taken, c')
          \<and> run_turn blake now' vo vit envs FromBlockCh c' = Some (c\<lparr>cc_lastBlock :=
               Some (block_calculateHash blake
                 \<lparr>b_hash = None, b_height = 0, b_transactions = None, b_timestamp = zero_time\<rparr>)\<rparr>))"
proof -
  have vertex: "Vertex_UnmarshalBinary blake now it data v = None" for v
    using vertex_field_missing [OF assms(1,2)] assms(3) by blast
  have "dec_block zero_block j = Some zero_block"
    using assms(3) dec_block_unknown [of ms zero_block] by (auto simp: dec_block_def)
  then have block: "Block_UnmarshalBinary blake data zero_block
      = Some (zero_block\<lparr>b_hash := Some (block_calculateHash blake zero_block)\<rparr>)"
    using assms(1) by (simp add: Block_UnmarshalBinary_def flip: parse_json_iff)
  let ?b = "zero_block\<lparr>b_hash := Some (block_calculateHash blake zero_block)\<rparr>"
  let ?c = "c\<lparr>cc_blockCh := (cc_blockCh c)\<lparr>ch_values := [?b]\<rparr>\<rparr>"
  have "CC_HandleMessage blake now it data c = (Taken, ?c)"
    using assms(4-6) by (simp add: CC_HandleMessage_def vertex block CC_HandleBlock_def chan_send_def Block_Hash_def)
  moreover have "run_turn blake now' vo vit envs FromBlockCh ?c
      = Some (c\<lparr>cc_lastBlock := Some (block_calculateHash blake zero_block)\<rparr>)"
    using assms(5) by (simp add: run_turn_def chan_recv_def handleBlock_def Block_Hash_def zero_block_def Let_def)
  moreover have "VC_HandleMessage blake now it pick data vc = (Rejected, vc)"
    by (simp add: VC_HandleMessage_def vertex)
  ultimately show ?thesis unfolding zero_block_def by blast
qed

text \<open>The text \<open>{}\<close>.\<close>

theorem unknown_object_replaces_last_block_witness:
  "\<exists>c'. CC_HandleMessage rev zero_time (\<lambda>ps. ps) (str ''{}'') sample_cc = (Taken, c')
     \<and> run_turn rev zero_time rev rev (\<lambda>_. good_env 0) FromBlockCh c' = Some (sample_cc\<lparr>cc_lastBlock :=
         Some (block_calculateHash rev \<lparr>b_hash = None, b_height = 0, b_transactions = None, b_timestamp = zero_time\<rparr>)\<rparr>)"
proof -
  have "value_text max_depth (123 # [] @ [125]) (JObj [])"
    unfolding max_depth_def numeral_eq_Suc by (rule vt_empty_object) (simp add: is_ws_def)
  then have empty: "json_text (str ''{}'') (JObj [])"
    unfolding json_text_def by (intro exI [of _ "[]"] exI [of _ "str ''{}''"]) (simp add: is_ws_def str_def)
  show ?thesis
    using unknown_object_replaces_last_block [OF empty, of "''owner''" "[]" sample_cc rev zero_time "\<lambda>ps. ps"]
    by simp
qed

end
