(* ===== verification/Spec2Isabelle.thy ===== *)
theory Spec2Isabelle
  imports Node_System Client Consensus_Replicas Consensus_Broadcast Network_Workers Network_Concurrent
    Consensus_Messages
begin

text \<open>
  A model of the Helios v2 primitive: a node of a DAG-based consensus with its network, its
  transaction pool and its load client (Go, under src/).  Every theory but the Go library parts
  translates one source file; definitions keep the source's names, with a prefix where two
  packages use the same one (\<open>CC_\<close> consensus coordinator, \<open>VC_\<close> vertex coordinator,
  \<open>Tx_\<close> transaction coordinator, \<open>State_\<close> and \<open>Dag_\<close> for methods of the two types).

  How the program works.  A client writes length-prefixed transactions to a node.  The node's
  transaction coordinator buffers them and every 300 ms puts some into a block, which the node
  passes to its consensus coordinator.  Consensus coordinators exchange blocks and vertices as
  JSON; they insert vertices in a DAG and count those of the current round.  The vertex
  coordinator broadcasts vertices and takes in those of other nodes.  The consensus state buffers
  vertices until their parents are there and orders the vertices of a wave.

  What Go provides.
  \<^item> \<open>Go_Prelude\<close>: fixed-width integers, maps (association lists with distinct keys, iteration
    orders as arguments), outcomes (result, error, panic), reachable states and the locale
    \<open>inductive_invariant\<close>, which every transition system below interprets, and its
    extension \<open>can_finish\<close> for systems that can always come to an end.
  \<^item> \<open>Go_Encoding\<close>: big-endian integers, decimal, hexadecimal and base64 texts; the locales
    \<open>codec\<close>, \<open>stream_codec\<close> and \<open>fixed_codec\<close>, interpreted by each of them.
  \<^item> \<open>Go_Channel\<close>: buffered channels; the locales \<open>fifo_queue\<close> and \<open>bounded_queue\<close>.
  \<^item> \<open>Go_Json\<close>: parser and printer of JSON texts; the parser's fuel is twice the length of the
    input plus two, which is enough (\<open>p_value_fuel\<close>), and parsing inverts printing (\<open>parse_print\<close>).
    \<open>Go_Json_Grammar\<close>: the grammar of JSON texts, and that the parser accepts exactly its texts
    (\<open>parse_json_iff\<close>).
  \<^item> \<open>Go_Time\<close>: RFC 3339 times as \<open>time.Time\<close> prints and reads them in JSON.

  The program.
  \<^item> pkg/model: \<open>Model_Types\<close> (types.go), \<open>Model_Block\<close> (block.go), \<open>Model_Vertex\<close>
    (vertex.go, but for JSON), \<open>Model_Json\<close> (\<open>MarshalBinary\<close> and \<open>UnmarshalBinary\<close> of
    both), \<open>Model_Committee\<close> (committee.go).  Lemmas: round trips, well-formedness of what is
    decoded, what hashes bind, the committee of the program.
  \<^item> pkg/consensus: \<open>Consensus_Dag\<close> (dag.go), \<open>Consensus_State\<close> (state.go),
    \<open>Consensus_Coordinator\<close> (consensus.go).  The state is a refinement of the inductive
    specification \<open>deliverable\<close>; \<open>dag_ok\<close> and \<open>cc_ok\<close> are the invariants.
    \<open>Consensus_Replicas\<close>: what two states with the same vertices in different orders agree on.
    \<open>Consensus_Messages\<close>: messages that are neither a vertex nor a block.
    \<open>Consensus_Broadcast\<close>: the block of an ended round, from one coordinator to another.
  \<^item> pkg/network: \<open>Network_Receiver\<close> and \<open>Network_Sender\<close> (network.go), and
    \<open>Network_Buffers\<close> for the buffer pool, with an explicit store because buffers are shared.
    \<open>Network_Workers\<close> is a connection with the workers that handle its messages at the same
    time as it reads (\<open>link_step\<close>, invariant \<open>link_ok\<close>).
    \<open>Network_Concurrent\<close> is calls of \<open>Send\<close> that run at the same time on one sender, step by
    step (\<open>send_step\<close>, invariant \<open>send_ok\<close>): to different addresses they end like the same
    calls in a row, so that \<open>Broadcast\<close>, whose model runs them in a row, loses nothing by it;
    to one address they can mix their messages or lock the sender for ever.
    Framing is a \<open>stream_codec\<close>; what is sent is what is received, and where it is not.
    \<open>Stop\<close> waits for the peers of open connections, so every \<open>Stop\<close> says whether it returns.
  \<^item> pkg/transaction: \<open>Transaction_Coordinator\<close> (transaction.go).  The steps of concurrent
    calls are interleaved by \<open>pool_step\<close>; \<open>pool_ok\<close> is the invariant.
  \<^item> pkg/vertex: \<open>Vertex_Coordinator\<close> (vertex.go).
  \<^item> pkg/node and cmd/node: \<open>Node\<close> (node.go, main.go), all parts together in \<open>node_step\<close>;
    \<open>Node_Rounds\<close>: how transactions move the round of the consensus.  \<open>Node_System\<close>: several
    nodes as one system (\<open>system_step\<close>, invariant \<open>system_ok\<close>), where what a node gets from
    another is what some node wrote; a step of the system is a step of one node.
  \<^item> cmd/client: \<open>Client\<close>; cmd/benchmark/config: \<open>Benchmark_Config\<close>.
  \<^item> This theory: properties from one program to the other: client to node, node to node.

  Parameters.  blake3 (\<open>blake\<close>), ed25519 (\<open>pub\<close>), the random source (\<open>rnd\<close>), clock
  readings, the iteration order of maps and what the network answers are arguments of the
  definitions that use them.  A property that needs something of them states it: a hash of 32
  bytes, an injective hash on the inputs at hand, seeds of 32 bytes, an order that is a
  permutation.

  Loops.  \<open>processBuffer\<close> and \<open>weak_loop\<close> terminate by a measure.  The loop of a connection
  and that of \<open>GetOrderedVertices\<close> may run for ever and are partial functions; when they return
  is a property of its own.  Goroutine loops are turns, interleaved by a step relation, or a list
  of events.

  Not modelled.  Log texts, metrics that are only printed, and the wait for a signal in the two
  programs; deadlines of connections, except as the errors they cause; data races on fields that
  are read without their lock, except where a definition splits a call into steps for it; tests
  and benchmarks.
\<close>

section \<open>From the client to the transaction buffer\<close>

text \<open>
  C22. From the client to the transaction coordinator: whatever happens to the client,
  when the connection and its workers are done a fresh coordinator has taken its
  transactions 0, 1, ..., as many as the client counts, each once and none more than 20
  places early, and the first 100000 of them are in its buffer (as values; what the reuse
  of receive buffers does to them is a property of its own).
\<close>

theorem client_transactions_reach_buffer:
  assumes "reach (link_init a (clean_conn (snd (client_main dial_ok fl es)))) link_step l" and "link_done l"
  shows "\<exists>k order. k \<le> unat (fl_txCount fl)
     \<and> (case fst (client_main dial_ok fl es) of
          Client_done sent \<Rightarrow> unat sent = k | Client_waits sent \<Rightarrow> unat sent = k | _ \<Rightarrow> True)
     \<and> mset order = mset [0..<k] \<and> (\<forall>j<k. order ! j \<le> j + 20)
     \<and> txBuffer (foldl (Tx_HandleMessage w1 w2 t1 t2) (Tx_New nid com) (map snd (lk_handled l)))
         = take 100000 (map client_tx order)"
proof -
  obtain order where o: "conn_loop (clean_conn (snd (client_main dial_ok fl es))) [] = Some (lk_read l)"
    "map snd (lk_handled l) = map (\<lambda>i. lk_read l ! i) order"
    "mset order = mset [0..<length (lk_read l)]" "\<forall>j<length (lk_read l). order ! j \<le> j + 20"
    using link_result [OF assms] .
  obtain k where k: "k \<le> unat (fl_txCount fl)" "lk_read l = map client_tx [0..<k]"
    "case fst (client_main dial_ok fl es) of
       Client_done sent \<Rightarrow> unat sent = k | Client_waits sent \<Rightarrow> unat sent = k | _ \<Rightarrow> True"
    using client_sends_numbered_transactions [of fl dial_ok es] o(1) unfolding client_ok_def by auto
  have "set order = {0..<k}" using mset_eq_setD [OF o(3)] k(2) by simp
  then have "map snd (lk_handled l) = map client_tx order" unfolding o(2) k(2) by simp
  moreover have "txBuffer (foldl (Tx_HandleMessage w1 w2 t1 t2) (Tx_New nid com) ms) = take 100000 ms" for ms
    using receive_all [of "Tx_New nid com" w1 w2 t1 t2 ms] by (simp add: Tx_New_def)
  ultimately show ?thesis using o(3,4) k by (intro exI [of _ k] exI [of _ order]) simp
qed

theorem client_transactions_reach_buffer_witness:
  "\<exists>l k order. link_done l \<and> mset order = mset [0..<k]
     \<and> txBuffer (foldl (Tx_HandleMessage 0 0 0 0) (Tx_New 1 sample_committee) (map snd (lk_handled l)))
         = take 100000 (map client_tx order)"
proof -
  let ?run = "client_main True (default_flags\<lparr>fl_duration := 5\<rparr>) [Tick None None, Tick None None, TimerFires]"
  have "c_end (clean_conn (snd ?run)) = Eof_forever" by (simp add: clean_conn_def)
  from link_done_exists [OF this, of "resolve_tcp 0"] obtain l where
    l: "reach (link_init (resolve_tcp 0) (clean_conn (snd ?run))) link_step l" "link_done l"
    by (elim exE conjE) (rule that)
  from client_transactions_reach_buffer [OF l, of 0 0 0 0 1 sample_committee] obtain k order where
    "mset order = mset [0..<k]"
    "txBuffer (foldl (Tx_HandleMessage 0 0 0 0) (Tx_New 1 sample_committee) (map snd (lk_handled l)))
         = take 100000 (map client_tx order)"
    by (elim exE conjE) (rule that)
  then show ?thesis using l(2) by (intro exI [of _ l] exI [of _ k] exI [of _ order] conjI)
qed

section \<open>From one node to another\<close>

text \<open>
  C6. Two nodes, each after any run of its own, that both store a vertex under one hash
  store it in the same round, with the same owner, wave and parents and with blocks of the
  same height and the same transaction bytes, unless the hash function collides on what
  they hash: no peer can make them disagree on what a hash names.
\<close>

theorem nodes_agree_on_hash:
  assumes "reach (node_init pub1 blake rnd1 nid1) (node_step blake) n1" and "n_consensus n1 = Some c1"
    and "reach (node_init pub2 blake rnd2 nid2) (node_step blake) n2" and "n_consensus n2 = Some c2"
    and "map_of (round_map (cc_dag c1) r1) h = Some v" and "map_of (round_map (cc_dag c2) r2) h = Some w"
    and "inj_on (\<lambda>x. array32 (blake x)) (vertex_inputs blake v \<union> vertex_inputs blake w)"
  shows "r1 = r2 \<and> vx_owner v = vx_owner w \<and> vx_wave v = vx_wave w \<and> map_of (vx_parents v) = map_of (vx_parents w)
     \<and> (\<forall>b\<in>set_option (vx_block v). \<forall>c\<in>set_option (vx_block w).
          b_height b = b_height c \<and> concat (elems (b_transactions b)) = concat (elems (b_transactions c)))"
proof -
  note s1 = stored_vertex_ok [OF assms(1,2,5)] and s2 = stored_vertex_ok [OF assms(3,4,6)]
  have "vx_hash v = vx_hash w" using s1(2) s2(2) by simp
  from vertex_hash_determines [OF s1(1) s2(1) this assms(7)] show ?thesis using s1(3) s2(3) by simp
qed

theorem nodes_agree_on_hash_witness:
  "\<exists>n1 n2 c1 c2 v w. reach (node_init (\<lambda>x. x) pad32 sample_seeds 1) (node_step pad32) n1
     \<and> reach (node_init (\<lambda>x. x) pad32 sample_seeds 1) (node_step pad32) n2
     \<and> n_consensus n1 = Some c1 \<and> n_consensus n2 = Some c2
     \<and> map_of (round_map (cc_dag c1) 0) (vx_hash sample_genesis) = Some v
     \<and> map_of (round_map (cc_dag c2) 0) (vx_hash sample_genesis) = Some w \<and> vx_owner v = vx_owner w"
proof -
  obtain n c where n: "reach (node_init (\<lambda>x. x) pad32 sample_seeds 1) (node_step pad32) n"
    "n_consensus n = Some c" "map_of (round_map (cc_dag c) 0) (vx_hash sample_genesis) = Some sample_genesis"
    using sample_run by blast
  have "inj_on (\<lambda>x. array32 (pad32 x)) (vertex_inputs pad32 sample_genesis \<union> vertex_inputs pad32 sample_genesis)"
    using sample_inputs_inj by simp
  from nodes_agree_on_hash [OF n(1,2) n(1,2) n(3) n(3) this] show ?thesis using n by blast
qed

end
